(* ===== verification/Prelude.thy ===== *)
theory Prelude
  imports Main "HOL-Library.Multiset" "HOL-Library.Sublist"
begin

text \<open>
  Shared vocabulary of the development: the exceptions the Python code raises and
  results that carry them, byte strings with the Python operations the code uses
  on them (\<open>startswith\<close>, \<open>endswith\<close>, \<open>find\<close>, slicing), generic lemmas on lists
  and maps, and two interfaces (locales) that several components share: a codec
  whose decoder inverts its encoder, and a keyed store of values.
\<close>

section \<open>Exceptions and results\<close>

datatype py_exc =
    KeyError | IndexError | TypeError | ValueError | AttributeError
  | AssertionError | NameError | StopIteration | NotImplementedError
  | ComponentLookupError | WrongKeyError | StorageError | POSKeyError
  | AuthError | ModelException | FieldException | InvalidQueueOperation
  | OtherError

type_synonym 'a res = "py_exc + 'a"

text \<open>Sequencing: an exception of the first computation is the exception of both.\<close>

definition bindr :: "'a res \<Rightarrow> ('a \<Rightarrow> 'b res) \<Rightarrow> 'b res" where
  "bindr m f = (case m of Inl e \<Rightarrow> Inl e | Inr x \<Rightarrow> f x)"

lemma bindr_Inl [simp]: "bindr (Inl e) f = Inl e"
  and bindr_Inr [simp]: "bindr (Inr x) f = f x"
  by (simp_all add: bindr_def)

lemma bindr_eq_Inr: "bindr m f = Inr y \<longleftrightarrow> (\<exists>x. m = Inr x \<and> f x = Inr y)"
  by (cases m) auto

lemma bindr_eq_Inl:
  "bindr m f = Inl e \<longleftrightarrow> m = Inl e \<or> (\<exists>x. m = Inr x \<and> f x = Inl e)"
  by (cases m) auto

lemma bindr_assoc: "bindr (bindr m f) g = bindr m (\<lambda>x. bindr (f x) g)"
  by (cases m) auto

lemma bindr_return [simp]: "bindr m Inr = m"
  by (cases m) auto

text \<open>A Python \<open>assert\<close>.\<close>

definition py_assert :: "bool \<Rightarrow> unit res" where
  "py_assert b = (if b then Inr () else Inl AssertionError)"

lemma py_assert_simps [simp]:
  "py_assert True = Inr ()" "py_assert False = Inl AssertionError"
  by (simp_all add: py_assert_def)

lemma py_assert_Inr [simp]: "py_assert b = Inr u \<longleftrightarrow> b"
  by (cases b) auto

text \<open>A loop that may raise: the first exception stops it.\<close>

fun foldr_res :: "('a \<Rightarrow> 's \<Rightarrow> 's res) \<Rightarrow> 'a list \<Rightarrow> 's \<Rightarrow> 's res" where
  "foldr_res f [] s = Inr s"
| "foldr_res f (x # xs) s = bindr (f x s) (foldr_res f xs)"

text \<open>A list comprehension whose elements may raise.\<close>

fun map_res :: "('a \<Rightarrow> 'b res) \<Rightarrow> 'a list \<Rightarrow> 'b list res" where
  "map_res f [] = Inr []"
| "map_res f (x # xs) = bindr (f x) (\<lambda>y. bindr (map_res f xs) (\<lambda>ys. Inr (y # ys)))"

lemma map_res_Inr: "(\<And>x. x \<in> set xs \<Longrightarrow> f x = Inr (g x)) \<Longrightarrow> map_res f xs = Inr (map g xs)"
  by (induction xs) simp_all

lemma foldr_res_append:
  "foldr_res f (xs @ ys) s = bindr (foldr_res f xs s) (foldr_res f ys)"
proof (induction xs arbitrary: s)
  case (Cons x xs)
  then show ?case by (cases "f x s") simp_all
qed simp

lemma foldr_res_invariant:
  assumes "foldr_res f xs s = Inr s'" "P s"
    and "\<And>x s s'. x \<in> set xs \<Longrightarrow> P s \<Longrightarrow> f x s = Inr s' \<Longrightarrow> P s'"
  shows "P s'"
  using assms
proof (induction xs arbitrary: s)
  case Nil
  then show ?case by simp
next
  case (Cons x xs)
  then obtain t where t: "f x s = Inr t" "foldr_res f xs t = Inr s'"
    by (auto simp: bindr_eq_Inr)
  have "P t" using Cons.prems(3) [OF _ Cons.prems(2) t(1)] by simp
  then show ?case
    by (rule Cons.IH [OF t(2)]) (rule Cons.prems(3), auto)
qed

lemma foldr_res_member:
  "foldr_res f xs s = Inr s' \<Longrightarrow> x \<in> set xs \<Longrightarrow> \<exists>t t'. f x t = Inr t'"
  by (induction xs arbitrary: s) (auto simp: bindr_eq_Inr)

lemma foldr_res_total:
  assumes "P s" and "\<And>x s. x \<in> set xs \<Longrightarrow> P s \<Longrightarrow> \<exists>s'. f x s = Inr s' \<and> P s'"
  shows "\<exists>s'. foldr_res f xs s = Inr s' \<and> P s'"
  using assms
proof (induction xs arbitrary: s)
  case Nil
  then show ?case by simp
next
  case (Cons x xs)
  then obtain t where "f x s = Inr t" "P t" by fastforce
  with Cons show ?case by simp
qed

section \<open>Strings\<close>

text \<open>\<open>str.lower\<close> of ASCII text.\<close>

definition lower :: "string \<Rightarrow> string" where
  "lower s = map (\<lambda>c. if 65 \<le> (of_char c :: nat) \<and> (of_char c :: nat) \<le> 90
     then char_of ((of_char c :: nat) + 32) else c) s"

section \<open>Methods that change an object and may raise\<close>

text \<open>
  A method over a state: its result or exception, and the state it leaves. An
  exception does not undo the changes made before it.
\<close>

type_synonym ('s, 'a) meth = "'s \<Rightarrow> 'a res \<times> 's"

definition m_return :: "'a \<Rightarrow> ('s, 'a) meth" where
  "m_return x s = (Inr x, s)"

definition m_raise :: "py_exc \<Rightarrow> ('s, 'a) meth" where
  "m_raise e s = (Inl e, s)"

definition m_bind :: "('s, 'a) meth \<Rightarrow> ('a \<Rightarrow> ('s, 'b) meth) \<Rightarrow> ('s, 'b) meth" where
  "m_bind m f s = (case m s of (Inl e, t) \<Rightarrow> (Inl e, t) | (Inr x, t) \<Rightarrow> f x t)"

definition m_modify :: "('s \<Rightarrow> 's) \<Rightarrow> ('s, unit) meth" where
  "m_modify f s = (Inr (), f s)"

definition m_lift :: "('s \<Rightarrow> 'a res) \<Rightarrow> ('s, 'a) meth" where
  "m_lift r s = (r s, s)"

fun m_each :: "('a \<Rightarrow> ('s, unit) meth) \<Rightarrow> 'a list \<Rightarrow> ('s, unit) meth" where
  "m_each f [] = m_return ()"
| "m_each f (x # xs) = m_bind (f x) (\<lambda>_. m_each f xs)"

named_theorems meth_simps

lemmas [meth_simps] = m_return_def m_raise_def m_modify_def m_lift_def

lemma m_bind_simps [meth_simps]:
  "m s = (Inl e, t) \<Longrightarrow> m_bind m f s = (Inl e, t)"
  "m s = (Inr x, t) \<Longrightarrow> m_bind m f s = f x t"
  by (simp_all add: m_bind_def)

lemma m_bind_eq_Inr: "m_bind m f s = (Inr y, u) \<longleftrightarrow> (\<exists>x t. m s = (Inr x, t) \<and> f x t = (Inr y, u))"
  by (auto simp: m_bind_def split: prod.splits sum.splits)

lemma m_bind_assoc: "m_bind (m_bind m f) g = m_bind m (\<lambda>x. m_bind (f x) g)"
  by (simp add: fun_eq_iff m_bind_def split: prod.split sum.split)

text \<open>What no round of a loop changes, the loop does not change.\<close>

lemma m_each_unchanged:
  assumes "\<And>x s. g (snd (f x s)) = g s"
  shows "g (snd (m_each f xs s)) = g s"
proof (induction xs arbitrary: s)
  case (Cons x xs)
  have "g (snd (f x s)) = g s" by (rule assms)
  then show ?case using Cons by (cases "f x s") (auto simp: m_bind_def split: sum.split)
qed (simp add: m_return_def)

text \<open>What a method keeps true, whether it returns or raises.\<close>

definition preserves :: "('s \<Rightarrow> bool) \<Rightarrow> ('s, 'a) meth \<Rightarrow> bool" where
  "preserves I m \<longleftrightarrow> (\<forall>s. I s \<longrightarrow> I (snd (m s)))"

lemma preservesI: "(\<And>s. I s \<Longrightarrow> I (snd (m s))) \<Longrightarrow> preserves I m"
  by (simp add: preserves_def)

lemma preservesD: "preserves I m \<Longrightarrow> I s \<Longrightarrow> I (snd (m s))"
  by (simp add: preserves_def)

lemma preserves_simps [simp]:
  "preserves I (m_return x)" "preserves I (m_raise e)" "preserves I (m_lift r)"
  by (simp_all add: preserves_def m_return_def m_raise_def m_lift_def)

lemma preserves_bind:
  "preserves I m \<Longrightarrow> (\<And>x. preserves I (f x)) \<Longrightarrow> preserves I (m_bind m f)"
  by (fastforce simp: preserves_def m_bind_def split: prod.splits sum.splits)

lemma preserves_if:
  "(b \<Longrightarrow> preserves I m) \<Longrightarrow> (\<not> b \<Longrightarrow> preserves I m') \<Longrightarrow> preserves I (if b then m else m')"
  by simp

section \<open>Byte strings\<close>

text \<open>A byte string is a list of 8-bit characters.\<close>

type_synonym bytes = string

definition startswith :: "'a list \<Rightarrow> 'a list \<Rightarrow> bool" where
  "startswith d p \<longleftrightarrow> take (length p) d = p"

definition endswith :: "'a list \<Rightarrow> 'a list \<Rightarrow> bool" where
  "endswith d s \<longleftrightarrow> length s \<le> length d \<and> drop (length d - length s) d = s"

text \<open>\<open>d.find(c)\<close>: the index of the first occurrence, or -1.\<close>

fun find_byte :: "'a list \<Rightarrow> 'a \<Rightarrow> int" where
  "find_byte [] c = -1"
| "find_byte (x # xs) c =
     (if x = c then 0 else let r = find_byte xs c in if r < 0 then -1 else r + 1)"

text \<open>\<open>xs[i:j]\<close>: negative bounds count from the end, bounds are clamped.\<close>

definition slice_bound :: "'a list \<Rightarrow> int \<Rightarrow> nat" where
  "slice_bound xs i = nat (if i < 0 then i + int (length xs) else i)"

definition py_slice :: "'a list \<Rightarrow> int \<Rightarrow> int \<Rightarrow> 'a list" where
  "py_slice xs i j = drop (slice_bound xs i) (take (slice_bound xs j) xs)"

lemma startswith_append [simp]: "startswith (p @ d) p"
  by (simp add: startswith_def)

lemma startswith_Nil [simp]: "startswith d []"
  by (simp add: startswith_def)

lemma startswith_iff: "startswith d p \<longleftrightarrow> (\<exists>r. d = p @ r)"
  unfolding startswith_def
  by (metis append_eq_conv_conj append_take_drop_id)

lemma startswith_drop: "startswith d p \<Longrightarrow> p @ drop (length p) d = d"
  by (metis append_take_drop_id startswith_def)

lemma startswith_Cons [simp]:
  "startswith (x # d) (y # p) \<longleftrightarrow> x = y \<and> startswith d p"
  "\<not> startswith [] (y # p)"
  by (auto simp: startswith_def)

lemma endswith_append [simp]: "endswith (d @ s) s"
  by (simp add: endswith_def)

lemma endswith_iff: "endswith d s \<longleftrightarrow> (\<exists>r. d = r @ s)"
proof
  assume "endswith d s"
  then have "take (length d - length s) d @ s = d"
    by (metis append_take_drop_id endswith_def)
  then show "\<exists>r. d = r @ s" by metis
qed auto

lemma endswith_unique:
  "endswith d s \<Longrightarrow> endswith d t \<Longrightarrow> length s = length t \<Longrightarrow> s = t"
  by (auto simp: endswith_def)

lemma find_byte_append:
  "c \<notin> set xs \<Longrightarrow> find_byte (xs @ c # ys) c = int (length xs)"
  by (induction xs) auto

lemma find_byte_range: "find_byte xs c \<ge> -1 \<and> find_byte xs c < int (length xs)"
  by (induction xs) (auto simp: Let_def)

lemma py_slice_prefix:
  "py_slice (a @ b @ c) (int (length a)) (int (length a + length b)) = b"
  by (simp add: py_slice_def slice_bound_def nat_add_distrib)

section \<open>Lists and maps\<close>

lemma card_dom_update:
  assumes "finite (dom m)"
  shows "card (dom (m(k \<mapsto> v))) = (if k \<in> dom m then card (dom m) else Suc (card (dom m)))"
  using assms by (simp add: insert_absorb)

lemma card_dom_delete:
  assumes "finite (dom m)" "k \<in> dom m"
  shows "card (dom (m(k := None))) = card (dom m) - 1"
  using assms by simp

lemma card_filter_remove_int:
  assumes "finite A" "x \<in> A"
  shows "int (card (A - {x})) = int (card A) - 1"
  using assms by (metis One_nat_def Suc_pred card_Diff_singleton card_gt_0_iff
      empty_iff of_nat_Suc add_diff_cancel_left' of_nat_1 plus_1_eq_Suc)

section \<open>The codec interface\<close>

text \<open>
  An encoder and a decoder, with their configuration as a first argument; \<open>wf\<close>
  says for which configurations and values the round trip is promised.
\<close>

locale codec =
  fixes wf :: "'p \<Rightarrow> 'a \<Rightarrow> bool"
    and enc :: "'p \<Rightarrow> 'a \<Rightarrow> 'b"
    and dec :: "'p \<Rightarrow> 'b \<Rightarrow> 'a res"
  assumes dec_enc: "wf p x \<Longrightarrow> dec p (enc p x) = Inr x"
begin

lemma enc_inj: "wf p x \<Longrightarrow> wf p y \<Longrightarrow> enc p x = enc p y \<Longrightarrow> x = y"
  by (metis dec_enc sum.inject(2))

lemma dec_all: "\<forall>x \<in> set xs. wf p x \<Longrightarrow> map (dec p) (map (enc p) xs) = map Inr xs"
  by (simp add: dec_enc)

end

text \<open>Two codecs in a row are a codec: the outer one works on the inner one's output.\<close>

locale codec_chain =
  inner: codec wf1 enc1 dec1 + outer: codec wf2 enc2 dec2
  for wf1 :: "'p \<Rightarrow> 'a \<Rightarrow> bool" and enc1 :: "'p \<Rightarrow> 'a \<Rightarrow> 'b" and dec1 :: "'p \<Rightarrow> 'b \<Rightarrow> 'a res"
    and wf2 :: "'q \<Rightarrow> 'b \<Rightarrow> bool" and enc2 :: "'q \<Rightarrow> 'b \<Rightarrow> 'c" and dec2 :: "'q \<Rightarrow> 'c \<Rightarrow> 'b res"
begin

sublocale chain: codec
  "\<lambda>(p, q) x. wf1 p x \<and> wf2 q (enc1 p x)"
  "\<lambda>(p, q) x. enc2 q (enc1 p x)"
  "\<lambda>(p, q) y. bindr (dec2 q y) (dec1 p)"
  by unfold_locales (auto simp: inner.dec_enc outer.dec_enc)

end

end
