(* ===== verification/Certificates.thy ===== *)
theory Certificates
  imports Prelude
begin

text \<open>
  The \<open>Certs\<close> object of zerodb/permissions/base.py: all users' certificates in one text,
  from which the server loads the certificates it accepts. Adding appends a blank line
  and the certificate; removing deletes that by \<open>str.replace\<close>. The abstract view is the
  list of certificates; the lemmas say when text and list agree.
\<close>

definition sep :: string where "sep = [CHR 0x0A, CHR 0x0A]"

lemma sep_nonempty [simp]: "sep \<noteq> []" "length sep = 2"
  by (simp_all add: sep_def)

text \<open>\<open>s.replace(pat, '')\<close> for a nonempty pattern: left to right, without overlaps.\<close>

function remove_all :: "string \<Rightarrow> string \<Rightarrow> string" where
  "remove_all pat s =
     (if s = [] then []
      else if pat \<noteq> [] \<and> startswith s pat then remove_all pat (drop (length pat) s)
      else hd s # remove_all pat (tl s))"
  by pat_completeness auto
termination
  by (relation "measure (\<lambda>(pat, s). length s)") (auto simp: neq_Nil_conv)

declare remove_all.simps [simp del]

definition certs_add :: "string \<Rightarrow> string \<Rightarrow> string" where
  "certs_add data pem_data = data @ sep @ pem_data"

definition certs_remove :: "string \<Rightarrow> string \<Rightarrow> string" where
  "certs_remove data pem_data = remove_all (sep @ pem_data) data"

section \<open>The text as a list of certificates\<close>

definition certs_text :: "string list \<Rightarrow> string" where
  "certs_text ps = concat (map (\<lambda>p. sep @ p) ps)"

lemma certs_text_simps [simp]:
  "certs_text [] = []" "certs_text (p # ps) = sep @ p @ certs_text ps"
  "certs_text (ps @ qs) = certs_text ps @ certs_text qs"
  by (simp_all add: certs_text_def)

lemma certs_add_text: "certs_add (certs_text ps) p = certs_text (ps @ [p])"
  by (simp add: certs_add_def)

text \<open>
  No blank line inside a certificate (at its end there may be one), and a first
  character that is no newline.
\<close>

fun no_inner_blank :: "string \<Rightarrow> bool" where
  "no_inner_blank (a # b # c # r) \<longleftrightarrow>
     \<not> (a = CHR 0x0A \<and> b = CHR 0x0A \<and> c \<noteq> CHR 0x0A) \<and> no_inner_blank (b # c # r)"
| "no_inner_blank _ \<longleftrightarrow> True"

definition pem_ok :: "string \<Rightarrow> bool" where
  "pem_ok p \<longleftrightarrow> p \<noteq> [] \<and> hd p \<noteq> CHR 0x0A \<and> no_inner_blank p"

text \<open>Two certificates that removal cannot confuse: neither is the start of the other.\<close>

definition pem_apart :: "string \<Rightarrow> string \<Rightarrow> bool" where
  "pem_apart p q \<longleftrightarrow> p = q \<or> \<not> startswith (q @ sep) p \<and> \<not> startswith (p @ sep) q"

lemma no_inner_blank_tl: "no_inner_blank (a # r) \<Longrightarrow> no_inner_blank r"
  by (cases r rule: no_inner_blank.cases) auto

lemma startswith_appendD: "startswith s (p @ q) \<Longrightarrow> startswith s p"
  by (auto simp: startswith_iff)

lemma no_match_inside:
  assumes "no_inner_blank (c # r)" "pem_ok x" "tail = [] \<or> (\<exists>t. tail = sep @ t)"
  shows "\<not> startswith (c # r @ tail) (sep @ x)"
proof -
  obtain y ys where x: "x = y # ys" "y \<noteq> CHR 0x0A"
    using assms(2) by (cases x) (auto simp: pem_ok_def)
  show ?thesis
    using assms(1,3) x by (cases r rule: no_inner_blank.cases; cases "tl r")
      (auto simp: sep_def)
qed

lemma remove_all_inside:
  assumes "no_inner_blank r" "pem_ok x" "tail = [] \<or> (\<exists>t. tail = sep @ t)"
  shows "remove_all (sep @ x) (r @ tail) = r @ remove_all (sep @ x) tail"
  using assms(1)
proof (induction r)
  case Nil
  then show ?case by simp
next
  case (Cons c r)
  have "\<not> startswith (c # r @ tail) (sep @ x)"
    by (rule no_match_inside [OF Cons.prems assms(2,3)])
  then have "remove_all (sep @ x) (c # r @ tail) = c # remove_all (sep @ x) (r @ tail)"
    by (subst remove_all.simps) simp
  then show ?case using Cons no_inner_blank_tl by simp
qed

lemma remove_all_other_sep:
  assumes "pem_ok p" "pem_ok x" "\<not> startswith (p @ tail) x"
  shows "remove_all (sep @ x) (sep @ p @ tail) = sep @ remove_all (sep @ x) (p @ tail)"
proof -
  obtain y ys where x: "x = y # ys" "y \<noteq> CHR 0x0A"
    using assms(2) by (cases x) (auto simp: pem_ok_def)
  obtain z zs where p: "p = z # zs" "z \<noteq> CHR 0x0A"
    using assms(1) by (cases p) (auto simp: pem_ok_def)
  have "\<not> startswith (sep @ p @ tail) (sep @ x)"
    using assms(3) by (simp add: sep_def)
  moreover have "\<not> startswith (CHR 0x0A # p @ tail) (sep @ x)"
    using p by (simp add: sep_def)
  ultimately show ?thesis
    by (subst remove_all.simps, subst (2) remove_all.simps) (simp_all add: sep_def)
qed

text \<open>A certificate in the way of another one: the text after it starts with \<open>sep\<close> or ends.\<close>

lemma pem_apart_no_match:
  assumes "pem_ok x" "pem_ok p" "p \<noteq> x" "pem_apart x p"
    and tail: "tail = [] \<or> (\<exists>q t. tail = sep @ q @ t \<and> pem_ok q)"
  shows "\<not> startswith (p @ tail) x"
proof
  assume s: "startswith (p @ tail) x"
  then obtain r where r: "p @ tail = x @ r" by (auto simp: startswith_iff)
  have np: "\<not> startswith (p @ sep) x" using assms(3,4) by (auto simp: pem_apart_def)
  have "length x > length p + 2"
  proof (rule ccontr)
    assume short: "\<not> length x > length p + 2"
    have "take (length x) (p @ tail) = x" using s by (simp add: startswith_def)
    moreover have "take (length x) (p @ tail) = take (length x) (p @ sep)
        \<or> take (length x) (p @ tail) = take (length x) p"
    proof -
      have "take (length x) (p @ sep @ w) = take (length x) (p @ sep)" for w
        using short take_append [of "length x" "p @ sep" w] by simp
      then show ?thesis using tail by auto
    qed
    ultimately have "startswith (p @ sep) x \<or> startswith p x"
      by (auto simp: startswith_def)
    then show False using np by (auto simp: startswith_iff)
  qed
  moreover from tail this s obtain q t where q: "tail = sep @ q @ t" "pem_ok q"
    by (auto simp: startswith_def)
  ultimately obtain y ys where "x = p @ sep @ y # ys" "y = hd q"
  proof -
    have "take (length x) (p @ sep @ q @ t) = x"
      using s q by (simp add: startswith_def)
    moreover obtain n where "length x = length p + 2 + Suc n"
      using \<open>length x > length p + 2\<close> by (metis less_imp_Suc_add add_Suc_right)
    moreover obtain z zs where "q = z # zs" using q(2) by (cases q) (auto simp: pem_ok_def)
    ultimately have "x = p @ sep @ z # take n (zs @ t)"
      by (simp add: sep_def numeral_3_eq_3)
    with that \<open>q = z # zs\<close> show thesis by simp
  qed
  then have "no_inner_blank (p @ sep @ y # ys)" "y \<noteq> CHR 0x0A"
    using assms(1) q(2) by (auto simp: pem_ok_def)
  then show False
  proof (induction p)
    case Nil
    then show ?case by (simp add: sep_def)
  next
    case (Cons a p)
    then show ?case using no_inner_blank_tl by simp
  qed
qed

lemma certs_text_tail:
  "\<forall>p \<in> set ps. pem_ok p \<Longrightarrow>
     certs_text ps = [] \<or> (\<exists>q t. certs_text ps = sep @ q @ t \<and> pem_ok q)"
  by (cases ps) auto

lemma remove_text:
  assumes "\<forall>p \<in> set ps. pem_ok p \<and> pem_apart x p" "pem_ok x"
  shows "certs_remove (certs_text ps) x = certs_text (filter (\<lambda>p. p \<noteq> x) ps)"
  using assms(1)
proof (induction ps)
  case Nil
  then show ?case by (simp add: certs_remove_def remove_all.simps)
next
  case (Cons p ps)
  have tail: "certs_text ps = [] \<or> (\<exists>q t. certs_text ps = sep @ q @ t \<and> pem_ok q)"
    by (rule certs_text_tail) (use Cons.prems in simp)
  have IH: "remove_all (sep @ x) (certs_text ps) = certs_text (filter (\<lambda>p. p \<noteq> x) ps)"
    using Cons by (simp add: certs_remove_def)
  show ?case
  proof (cases "p = x")
    case True
    have "remove_all (sep @ x) (sep @ x @ certs_text ps) = remove_all (sep @ x) (certs_text ps)"
      by (subst remove_all.simps) (simp add: startswith_append [of "sep @ x", simplified])
    with True IH show ?thesis by (simp add: certs_remove_def)
  next
    case False
    have nm: "\<not> startswith (p @ certs_text ps) x"
      by (rule pem_apart_no_match [OF assms(2) _ False _ tail]) (use Cons.prems in simp_all)
    have "remove_all (sep @ x) (sep @ p @ certs_text ps)
        = sep @ p @ remove_all (sep @ x) (certs_text ps)"
    proof -
      have "remove_all (sep @ x) (p @ certs_text ps) = p @ remove_all (sep @ x) (certs_text ps)"
        by (rule remove_all_inside) (use Cons.prems assms(2) tail in \<open>auto simp: pem_ok_def\<close>)
      then show ?thesis
        using remove_all_other_sep [OF _ assms(2) nm] Cons.prems by simp
    qed
    with False IH show ?thesis by (simp add: certs_remove_def)
  qed
qed

end
