(* ===== verification/Kdf.thy ===== *)
theory Kdf
  imports Prelude
begin

text \<open>
  zerodb/crypto/kdf.py: how the client turns what the user gives (a name, a password, a
  key file, a key) into the password it shows to the server and the key it encrypts
  with, and the part of \<open>DB.__init__\<close> (zerodb/db.py) that chooses and applies one of
  these functions. scrypt, sha256 and the file system are parameters.
\<close>

text \<open>\<open>scrypt\<close> has the code's cost parameters applied; a password of None is its error.\<close>

record kdf_env =
  scrypt :: "bytes option \<Rightarrow> bytes \<Rightarrow> bytes res"
  sha256_digest :: "bytes \<Rightarrow> bytes"
  read_file :: "bytes \<Rightarrow> bytes res"

text \<open>\<open>"|".join([username, appname, 'key'])\<close>; joining None is a TypeError.\<close>

definition kdf_salt :: "bytes option \<Rightarrow> bytes \<Rightarrow> bytes res" where
  "kdf_salt username appname =
     (case username of None \<Rightarrow> Inl TypeError | Some u \<Rightarrow> Inr (u @ ''|'' @ appname @ ''|'' @ ''key''))"

text \<open>username, password, key file, certificate file, application name, key\<close>

type_synonym security =
  "bytes option \<Rightarrow> bytes option \<Rightarrow> bytes option \<Rightarrow> bytes option \<Rightarrow> bytes \<Rightarrow> bytes option
     \<Rightarrow> (bytes option \<times> bytes option) res"

definition key_from_password :: "kdf_env \<Rightarrow> security" where
  "key_from_password E username password key_file cert_file appname key =
     bindr (kdf_salt username appname) (\<lambda>salt.
     bindr (scrypt E password salt) (\<lambda>k.
       Inr (Some (sha256_digest E (k @ ''auth'')), Some k)))"

definition key_from_cert :: "kdf_env \<Rightarrow> security" where
  "key_from_cert E username password key_file cert_file appname key =
     bindr (case key_file of None \<Rightarrow> Inl TypeError | Some f \<Rightarrow> read_file E f) (\<lambda>text.
       let k = sha256_digest E text in
       if password \<noteq> None then
         bindr (kdf_salt username appname) (\<lambda>salt.
         bindr (scrypt E password salt) (\<lambda>p.
           Inr (Some (sha256_digest E (p @ ''auth'')), Some k)))
       else Inr (None, Some k))"

definition hash_password :: "kdf_env \<Rightarrow> security" where
  "hash_password E username password key_file cert_file appname key =
     (if password \<noteq> None \<and> password \<noteq> Some [] then
        bindr (kdf_salt username appname) (\<lambda>salt.
        bindr (scrypt E password salt) (\<lambda>p.
          Inr (Some (sha256_digest E (p @ ''auth'')), key)))
      else Inr (password, key))"

datatype kdf_function = Key_from_password | Key_from_cert | Hash_password

definition guess :: "bytes option \<Rightarrow> bytes option \<Rightarrow> bytes option \<Rightarrow> bytes option \<Rightarrow> bytes \<Rightarrow> bytes option
    \<Rightarrow> kdf_function res" where
  "guess username password key_file cert_file appname key =
     (if key = None then
        if password \<noteq> None then Inr Key_from_password
        else if key_file \<noteq> None then Inr Key_from_cert
        else Inl AttributeError
      else Inr Hash_password)"

fun run_kdf :: "kdf_env \<Rightarrow> kdf_function \<Rightarrow> security" where
  "run_kdf E Key_from_password = key_from_password E"
| "run_kdf E Key_from_cert = key_from_cert E"
| "run_kdf E Hash_password = hash_password E"

text \<open>
  \<open>DB.__init__\<close> up to the credentials: the checks of the certificate and key files, the
  choice of the function where the caller gives none, and the credentials, a name and a
  password, which exist only for a password that is not empty.
\<close>

definition given :: "bytes option \<Rightarrow> bool" where
  "given x \<longleftrightarrow> x \<noteq> None \<and> x \<noteq> Some []"

definition db_credentials ::
  "kdf_env \<Rightarrow> security option \<Rightarrow> bytes option \<Rightarrow> bytes option \<Rightarrow> bytes option \<Rightarrow> bytes option \<Rightarrow> bytes
     \<Rightarrow> bytes option \<Rightarrow> ((bytes option \<times> bytes) option \<times> bytes option) res" where
  "db_credentials E sec username password key_file cert_file appname key =
     (if (given cert_file \<or> given key_file) \<and> \<not> (given cert_file \<and> given key_file) then Inl TypeError
      else
        bindr (case sec of
                 Some f \<Rightarrow> Inr f
               | None \<Rightarrow> bindr (guess username password key_file cert_file appname key)
                   (\<lambda>f. Inr (run_kdf E f)))
          (\<lambda>f. bindr (f username password key_file cert_file appname key)
          (\<lambda>(pw, k). Inr (if given pw then Some (username, the pw) else None, k))))"

section \<open>Properties\<close>

text \<open>The password the server sees, for a given name, password and application.\<close>

definition server_password :: "kdf_env \<Rightarrow> bytes \<Rightarrow> bytes \<Rightarrow> bytes \<Rightarrow> bytes res" where
  "server_password E username password appname =
     bindr (scrypt E (Some password) (username @ ''|'' @ appname @ ''|'' @ ''key''))
       (\<lambda>k. Inr (sha256_digest E (k @ ''auth'')))"

lemma run_kdf_password:
  assumes "password \<noteq> []" "run_kdf E f (Some username) (Some password) key_file cert_file appname key = Inr (pw, k)"
  shows "\<exists>h. pw = Some h \<and> server_password E username password appname = Inr h"
  using assms
  by (cases f)
    (auto simp: key_from_password_def key_from_cert_def hash_password_def kdf_salt_def
      server_password_def bindr_eq_Inr Let_def split: option.splits)

definition kdf_ok :: "kdf_env \<Rightarrow> bool" where
  "kdf_ok E \<longleftrightarrow> (\<forall>x. length (sha256_digest E x) = 32)"

text \<open>
  Every key derivation function shows the server the same password for the same
  name, password and application, so a user may switch between them.
\<close>

theorem kdf_functions_agree:
  assumes "password \<noteq> []"
    and "run_kdf E f1 (Some u) (Some password) kf1 cf1 appname key1 = Inr (pw1, k1)"
    and "run_kdf E f2 (Some u) (Some password) kf2 cf2 appname key2 = Inr (pw2, k2)"
  shows "pw1 = pw2 \<and> (\<exists>h. pw1 = Some h \<and> server_password E u password appname = Inr h)"
  using run_kdf_password [OF assms(1,2)] run_kdf_password [OF assms(1,3)] by auto

definition demo_kdf :: kdf_env where
  "demo_kdf = \<lparr>
     scrypt = (\<lambda>p salt. case p of None \<Rightarrow> Inl TypeError | Some x \<Rightarrow> Inr (take 32 (x @ salt @ replicate 32 CHR ''s''))),
     sha256_digest = (\<lambda>x. take 32 (rev x @ replicate 32 CHR ''0'')),
     read_file = (\<lambda>f. Inr (f @ ''-contents''))\<rparr>"

lemma demo_kdf_ok: "kdf_ok demo_kdf"
  by (auto simp: kdf_ok_def demo_kdf_def)

theorem kdf_functions_agree_witness:
  "\<exists>pw k1 k2. run_kdf demo_kdf Key_from_password (Some ''joe'') (Some ''pass'') None None ''app'' None = Inr (pw, k1) \<and>
     run_kdf demo_kdf Key_from_cert (Some ''joe'') (Some ''pass'') (Some ''k.pem'') (Some ''c.pem'') ''app'' None = Inr (pw, k2)"
proof -
  have p: "(''pass'' :: bytes) \<noteq> []" by simp
  obtain pw1 k1 where r1: "run_kdf demo_kdf Key_from_password (Some ''joe'') (Some ''pass'') None None ''app'' None = Inr (pw1, k1)"
    by (simp add: key_from_password_def kdf_salt_def demo_kdf_def)
  obtain pw2 k2 where r2: "run_kdf demo_kdf Key_from_cert (Some ''joe'') (Some ''pass'') (Some ''k.pem'') (Some ''c.pem'') ''app'' None = Inr (pw2, k2)"
    by (simp add: key_from_cert_def kdf_salt_def demo_kdf_def)
  show ?thesis using r1 r2 kdf_functions_agree [OF p r1 r2] by auto
qed

text \<open>
  A client that lets the library choose the key derivation always ends up with an
  encryption key, its own one unchanged if it gave one; its credentials hold the derived
  password, never the password itself unhashed, and there are none without a password.
\<close>

theorem db_credentials_safe:
  assumes "kdf_ok E" "db_credentials E None u pw kf cf appname key = Inr (cred, k)"
  shows "k \<noteq> None \<and> (key \<noteq> None \<longrightarrow> k = key) \<and>
    (case pw of
       None \<Rightarrow> cred = None
     | Some p \<Rightarrow> p \<noteq> [] \<longrightarrow>
         (\<exists>name h. u = Some name \<and> server_password E name p appname = Inr h \<and> cred = Some (u, h)))"
proof -
  from assms(2) obtain f w where f: "guess u pw kf cf appname key = Inr f"
    and r: "run_kdf E f u pw kf cf appname key = Inr (w, k)"
    and c: "cred = (if given w then Some (u, the w) else None)"
    by (auto simp: db_credentials_def bindr_eq_Inr split: if_splits)
  have nonempty: "sha256_digest E x \<noteq> []" for x
    using assms(1) by (metis kdf_ok_def list.size(3) zero_neq_numeral)
  have keys: "k \<noteq> None \<and> (key \<noteq> None \<longrightarrow> k = key)"
    using f r by (cases f) (auto simp: guess_def key_from_password_def key_from_cert_def
        hash_password_def bindr_eq_Inr Let_def split: if_splits)
  show ?thesis
  proof (cases pw)
    case None
    with f r have "w = None"
      by (cases f) (auto simp: guess_def key_from_cert_def hash_password_def bindr_eq_Inr Let_def
          split: if_splits)
    with None keys c show ?thesis by (simp add: given_def)
  next
    case (Some p)
    have "\<exists>name h. u = Some name \<and> server_password E name p appname = Inr h \<and> cred = Some (u, h)"
      if p: "p \<noteq> []"
    proof -
      obtain name where u: "u = Some name"
        using r Some p by (cases f; cases u)
          (auto simp: key_from_password_def key_from_cert_def hash_password_def kdf_salt_def
            bindr_eq_Inr Let_def)
      from run_kdf_password [OF p r [unfolded u Some]] obtain h where
        h: "w = Some h" "server_password E name p appname = Inr h" by auto
      then have "h \<noteq> []" using nonempty by (auto simp: server_password_def bindr_eq_Inr)
      with h c u show ?thesis by (simp add: given_def)
    qed
    with Some keys show ?thesis by simp
  qed
qed

theorem db_credentials_safe_witness:
  "\<exists>cred k. db_credentials demo_kdf None (Some ''joe'') (Some ''pass'') None None ''app'' None = Inr (cred, k) \<and>
     k \<noteq> None \<and> cred \<noteq> None"
proof -
  obtain cred k where r:
    "db_credentials demo_kdf None (Some ''joe'') (Some ''pass'') None None ''app'' None = Inr (cred, k)"
    by (simp add: db_credentials_def guess_def key_from_password_def kdf_salt_def demo_kdf_def given_def)
  from db_credentials_safe [OF demo_kdf_ok this] r show ?thesis by auto
qed

end
