(* ===== verification/Storage_Layers.thy ===== *)
theory Storage_Layers
  imports Prelude
begin

text \<open>
  The storage interface that the client's TransformingStorage and the server's
  OwnerStorage both offer and both call, and the interface (locale) of a layer: a
  storage made of another one that writes each record in a form of its own.
  The network, ZEO and the file storage below are third-party code: a storage is a
  record of its two operations, an argument of the definitions that use it, and
  \<open>storage_ok\<close> is what the code relies on.
\<close>

text \<open>
  Object ids and transaction ids are byte strings. \<open>s_loadBefore\<close> gives the data, its
  serial and the next serial, \<open>None\<close> if there is no such revision, or raises;
  \<open>s_store\<close> gives the storage after the store. The version and transaction arguments of
  \<open>store\<close> are handed down unchanged by both layers and are part of the state here.
\<close>

record 's storage_ops =
  s_loadBefore :: "'s \<Rightarrow> bytes \<Rightarrow> bytes \<Rightarrow> (bytes \<times> bytes \<times> bytes option) option res"
  s_store :: "'s \<Rightarrow> bytes \<Rightarrow> bytes \<Rightarrow> bytes \<Rightarrow> 's res"

text \<open>The constants of ZODB.utils the code uses.\<close>

record zodb_utils =
  maxtid :: bytes
  z64 :: bytes
  p64 :: "nat \<Rightarrow> bytes"

text \<open>The current revision of an object after a store is what was stored; the store
  leaves the other objects alone.\<close>

definition storage_ok :: "zodb_utils \<Rightarrow> 's storage_ops \<Rightarrow> bool" where
  "storage_ok Z S \<longleftrightarrow>
     (\<forall>s oid serial d s'. s_store S s oid serial d = Inr s' \<longrightarrow>
        (\<exists>ser nxt. s_loadBefore S s' oid (maxtid Z) = Inr (Some (d, ser, nxt))) \<and>
        (\<forall>oid' tid. oid' \<noteq> oid \<longrightarrow> s_loadBefore S s' oid' tid = s_loadBefore S s oid' tid))"

lemma storage_ok_stored:
  "storage_ok Z S \<Longrightarrow> s_store S s oid serial d = Inr s' \<Longrightarrow>
     \<exists>ser nxt. s_loadBefore S s' oid (maxtid Z) = Inr (Some (d, ser, nxt))"
  unfolding storage_ok_def by blast

lemma storage_ok_frame:
  "storage_ok Z S \<Longrightarrow> s_store S s oid serial d = Inr s' \<Longrightarrow> oid' \<noteq> oid \<Longrightarrow>
     s_loadBefore S s' oid' tid = s_loadBefore S s oid' tid"
  unfolding storage_ok_def by blast

text \<open>
  A layer: \<open>wire p oid d\<close> is the form in which the layer hands \<open>d\<close> down, and
  \<open>readable p oid d\<close> says when a record in that form is read back as \<open>d\<close>.
\<close>

locale storage_layer =
  fixes layer :: "'p \<Rightarrow> 's storage_ops \<Rightarrow> 's storage_ops"
    and wire :: "'p \<Rightarrow> bytes \<Rightarrow> bytes \<Rightarrow> bytes"
    and readable :: "'p \<Rightarrow> bytes \<Rightarrow> bytes \<Rightarrow> bool"
  assumes layer_store:
      "s_store (layer p S) s oid serial d = Inr s' \<Longrightarrow> s_store S s oid serial (wire p oid d) = Inr s'"
    and layer_load:
      "readable p oid d \<Longrightarrow> s_loadBefore S s oid tid = Inr (Some (wire p oid d, ser, nxt)) \<Longrightarrow>
         s_loadBefore (layer p S) s oid tid = Inr (Some (d, ser, nxt))"
    and layer_load_cong:
      "s_loadBefore S s oid tid = s_loadBefore S t oid tid \<Longrightarrow>
         s_loadBefore (layer p S) s oid tid = s_loadBefore (layer p S) t oid tid"
begin

lemma stored_is_read:
  assumes "storage_ok Z S" "readable p oid d" "s_store (layer p S) s oid serial d = Inr s'"
  shows "\<exists>ser nxt. s_loadBefore S s' oid (maxtid Z) = Inr (Some (wire p oid d, ser, nxt)) \<and>
           s_loadBefore (layer p S) s' oid (maxtid Z) = Inr (Some (d, ser, nxt))"
  using storage_ok_stored [OF assms(1) layer_store [OF assms(3)]] layer_load [OF assms(2)] by blast

lemma others_unchanged:
  assumes "storage_ok Z S" "s_store (layer p S) s oid serial d = Inr s'" "oid' \<noteq> oid"
  shows "s_loadBefore (layer p S) s' oid' tid = s_loadBefore (layer p S) s oid' tid"
  using storage_ok_frame [OF assms(1) layer_store [OF assms(2)] assms(3)] by (rule layer_load_cong)

end

text \<open>One layer on top of another is a layer.\<close>

locale storage_stack =
  upper: storage_layer layer1 wire1 readable1 + lower: storage_layer layer2 wire2 readable2
  for layer1 :: "'p \<Rightarrow> 's storage_ops \<Rightarrow> 's storage_ops" and wire1 readable1
    and layer2 :: "'q \<Rightarrow> 's storage_ops \<Rightarrow> 's storage_ops" and wire2 readable2
begin

sublocale stack: storage_layer
  "\<lambda>(p, q) S. layer1 p (layer2 q S)"
  "\<lambda>(p, q) oid d. wire2 q oid (wire1 p oid d)"
  "\<lambda>(p, q) oid d. readable1 p oid d \<and> readable2 q oid (wire1 p oid d)"
  by unfold_locales
    (auto dest!: upper.layer_store lower.layer_store intro: upper.layer_load lower.layer_load
      upper.layer_load_cong lower.layer_load_cong)

end

text \<open>A storage for the witnesses: the current revisions, newest first.\<close>

definition demo_storage :: "(bytes \<times> bytes) list storage_ops" where
  "demo_storage = \<lparr>
     s_loadBefore = (\<lambda>s oid tid. case map_of s oid of
        None \<Rightarrow> Inl POSKeyError | Some d \<Rightarrow> Inr (Some (d, ''t'', None))),
     s_store = (\<lambda>s oid serial d. Inr ((oid, d) # s))\<rparr>"

definition demo_zodb :: zodb_utils where
  "demo_zodb = \<lparr>maxtid = replicate 8 (CHR 0x7F), z64 = replicate 8 (CHR 0x00),
     p64 = (\<lambda>n. replicate 7 (CHR 0x00) @ [char_of n])\<rparr>"

lemma demo_storage_ok: "storage_ok demo_zodb demo_storage"
  by (auto simp: storage_ok_def demo_storage_def)

end
