(* ===== verification/Accounts.thy ===== *)
theory Accounts
  imports Certificates Kdf Storage_Layers "HOL-Library.AList"
begin

text \<open>
  zerodb/permissions/base.py: the user database. \<open>Admin\<close> keeps the users by id and by
  name, the certificate ids of all users, and the text of all certificates; users,
  the two indexes and the certificate dictionaries share \<open>User\<close> objects, which live in
  \<open>a_objects\<close> under their id (the oid of the user's root folder). A method changes the
  \<open>Admin\<close> object in place and may raise in the middle (type \<open>meth\<close>).

  The indexes and the text are persistent objects of their own, written by the next commit. A
  \<open>User\<close> is one too, but its certificates are a plain dictionary: ZODB only notices an assignment to an
  attribute, so a user whose dictionary changes in place keeps its old record. \<open>a_stored\<close> is what the
  database has of each user, \<open>a_changed\<close> the users that the next commit writes.
\<close>

section \<open>Users\<close>

text \<open>
  A value of None is \<open>None\<close>; \<open>Some []\<close> stands for any other value that is false, such
  as False or the empty string, since the code only tests for truth.
\<close>

record user =
  u_name :: bytes
  u_id :: bytes
  u_certs :: "(bytes \<times> string) list"
  u_salt :: "bytes option"
  u_password :: "bytes option"

text \<open>\<open>get_der\<close> asks the ssl module for the DER form of a certificate.\<close>

record account_env =
  get_der :: "string \<Rightarrow> bytes res"
  sha256_of :: "bytes \<Rightarrow> bytes"

definition user_hash_password :: "account_env \<Rightarrow> bytes \<Rightarrow> bytes \<Rightarrow> bytes" where
  "user_hash_password E password salt = ''sha256::'' @ sha256_of E (password @ salt)"

text \<open>\<open>User(name, root, password)\<close>; \<open>salt\<close> is the fresh uuid, kept only with a password.\<close>

definition new_user :: "account_env \<Rightarrow> bytes \<Rightarrow> bytes \<Rightarrow> bytes option \<Rightarrow> bytes \<Rightarrow> user" where
  "new_user E name root_oid password salt =
     (let u = \<lparr>u_name = name, u_id = root_oid, u_certs = [], u_salt = None, u_password = None\<rparr>
      in if given password
         then u\<lparr>u_salt := Some salt, u_password := Some (user_hash_password E (the password) salt)\<rparr>
         else u)"

text \<open>A user made without a password has no attribute \<open>salt\<close>.\<close>

definition check_password :: "account_env \<Rightarrow> user \<Rightarrow> bytes \<Rightarrow> bool res" where
  "check_password E u password =
     (case u_salt u of
        None \<Rightarrow> Inl AttributeError
      | Some salt \<Rightarrow> Inr (Some (user_hash_password E password salt) = u_password u))"

definition change_password :: "account_env \<Rightarrow> bytes option \<Rightarrow> user \<Rightarrow> user res" where
  "change_password E password u =
     (if password \<noteq> None then
        if given password then
          (case u_salt u of
             None \<Rightarrow> Inl AttributeError
           | Some salt \<Rightarrow> Inr (u\<lparr>u_password := Some (user_hash_password E (the password) salt)\<rparr>))
        else Inr (u\<lparr>u_password := None\<rparr>)
      else Inr u)"

section \<open>The Admin object\<close>

record admin =
  a_objects :: "bytes \<Rightarrow> user option"
  a_users :: "bytes \<Rightarrow> bytes option"
  a_users_by_name :: "bytes \<Rightarrow> bytes option"
  a_uids :: "bytes \<Rightarrow> bytes option option"
  a_certs :: string
  a_stored :: "bytes \<Rightarrow> user option"
  a_changed :: "bytes set"

text \<open>\<open>Admin(conn)\<close>; \<open>oid\<close> is the oid the connection gives it.\<close>

definition new_admin :: "zodb_utils \<Rightarrow> account_env \<Rightarrow> bytes \<Rightarrow> string \<Rightarrow> admin res" where
  "new_admin Z E oid nobody_pem =
     bindr (py_assert (oid = p64 Z 1)) (\<lambda>_.
     bindr (get_der E nobody_pem) (\<lambda>nobody_der.
       Inr \<lparr>a_objects = Map.empty, a_users = Map.empty, a_users_by_name = Map.empty,
            a_uids = [nobody_der \<mapsto> None], a_certs = certs_add [] nobody_pem,
            a_stored = Map.empty, a_changed = {}\<rparr>))"

text \<open>A method of the \<open>User\<close> object with this id.\<close>

definition with_user :: "bytes \<Rightarrow> (user \<Rightarrow> (admin, 'a) meth) \<Rightarrow> (admin, 'a) meth" where
  "with_user uid f a = (case a_objects a uid of None \<Rightarrow> (Inl OtherError, a) | Some u \<Rightarrow> f u a)"

text \<open>
  \<open>set_user\<close> puts an object's new state in memory; an assignment to one of its attributes also
  marks it, \<open>mark_changed\<close>. A commit writes the marked users; \<open>reload_users\<close> is what a fresh
  connection reads, or this one when its cache has dropped the objects.
\<close>

definition mark_changed :: "bytes \<Rightarrow> (admin, unit) meth" where
  "mark_changed uid = m_modify (\<lambda>a. a\<lparr>a_changed := insert uid (a_changed a)\<rparr>)"

definition commit_users :: "admin \<Rightarrow> admin" where
  "commit_users a = a\<lparr>a_stored := (\<lambda>uid. if uid \<in> a_changed a then a_objects a uid else a_stored a uid), a_changed := {}\<rparr>"

definition reload_users :: "admin \<Rightarrow> admin" where
  "reload_users a = a\<lparr>a_objects := a_stored a, a_changed := {}\<rparr>"

definition set_user :: "bytes \<Rightarrow> user \<Rightarrow> (admin, unit) meth" where
  "set_user uid u = m_modify (\<lambda>a. a\<lparr>a_objects := (a_objects a)(uid \<mapsto> u)\<rparr>)"

definition add_user_cert :: "account_env \<Rightarrow> bytes \<Rightarrow> string \<Rightarrow> (admin, unit) meth" where
  "add_user_cert E uid pem_data =
     with_user uid (\<lambda>user.
     m_bind (m_lift (\<lambda>_. get_der E pem_data)) (\<lambda>cert_der a.
       if a_uids a cert_der \<noteq> None \<or> cert_der \<in> fst ` set (u_certs user) then (Inl ValueError, a)
       else (Inr (), a\<lparr>
         a_uids := (a_uids a)(cert_der \<mapsto> Some (u_id user)),
         a_objects := (a_objects a)(uid \<mapsto> user\<lparr>u_certs := u_certs user @ [(cert_der, pem_data)]\<rparr>),
         a_certs := certs_add (a_certs a) pem_data\<rparr>)))"

definition del_user_cert :: "bytes \<times> string \<Rightarrow> (admin, unit) meth" where
  "del_user_cert = (\<lambda>(der, pem_data) a.
     if a_uids a der = None then (Inl KeyError, a)
     else (Inr (), a\<lparr>a_uids := (a_uids a)(der := None),
                     a_certs := certs_remove (a_certs a) pem_data\<rparr>))"

definition del_user_certs :: "bytes \<Rightarrow> (admin, unit) meth" where
  "del_user_certs uid = with_user uid (\<lambda>user. m_each del_user_cert (u_certs user))"

text \<open>\<open>add_user\<close>; \<open>oid\<close> is the oid of the new root folder, \<open>salt\<close> the uuid.\<close>

definition add_user ::
  "account_env \<Rightarrow> security \<Rightarrow> bytes \<Rightarrow> bytes \<Rightarrow> bytes \<Rightarrow> bytes \<Rightarrow> string option \<Rightarrow> bytes option
     \<Rightarrow> (admin, bytes) meth" where
  "add_user E security appname oid salt uname pem_data password =
     m_bind (m_lift (\<lambda>_. security (Some uname) password None None appname None)) (\<lambda>(pw, _).
     m_bind (m_modify (\<lambda>a. a\<lparr>
         a_objects := (a_objects a)(oid \<mapsto> new_user E uname oid pw salt),
         a_users := (a_users a)(oid \<mapsto> oid),
         a_users_by_name := (a_users_by_name a)(uname \<mapsto> oid),
         a_changed := insert oid (a_changed a)\<rparr>)) (\<lambda>_.
     if given pem_data
     then m_bind (add_user_cert E oid (the pem_data)) (\<lambda>_. m_return oid)
     else m_return oid))"

definition del_user :: "bytes \<Rightarrow> (admin, unit) meth" where
  "del_user name a =
     (case a_users_by_name a name of
        None \<Rightarrow> (Inl KeyError, a)
      | Some uid \<Rightarrow>
          (let a1 = a\<lparr>a_users_by_name := (a_users_by_name a)(name := None)\<rparr> in
           if a_users a1 uid = None then (Inl KeyError, a1)
           else del_user_certs uid (a1\<lparr>a_users := (a_users a1)(uid := None)\<rparr>)))"

definition change_cert ::
  "account_env \<Rightarrow> security \<Rightarrow> bytes \<Rightarrow> bytes \<Rightarrow> string option \<Rightarrow> bytes option \<Rightarrow> (admin, unit) meth" where
  "change_cert E security appname name pem_data password a =
     (case a_users_by_name a name of
        None \<Rightarrow> (Inl KeyError, a)
      | Some uid \<Rightarrow>
          m_bind
            (if pem_data \<noteq> None then
               m_bind (del_user_certs uid) (\<lambda>_.
               m_bind (with_user uid (\<lambda>user. set_user uid (user\<lparr>u_certs := []\<rparr>))) (\<lambda>_.
                 if given pem_data then add_user_cert E uid (the pem_data) else m_return ()))
             else m_return ())
            (\<lambda>_.
             if password \<noteq> None then
               m_bind (m_lift (\<lambda>_. security (Some name) password None None appname None)) (\<lambda>(pw, _).
                 with_user uid (\<lambda>user.
                 m_bind (m_lift (\<lambda>_. change_password E pw user)) (\<lambda>user'.
                 m_bind (set_user uid user') (\<lambda>_. if pw \<noteq> None then mark_changed uid else m_return ()))))
             else m_return ()) a)"

text \<open>
  \<open>init_db\<close>: the database of a new server, whose first user's root must get the oid
  \<open>p64(2)\<close>, the id of the storage. The oids are the ones the connection hands out; the end of
  the block commits.
\<close>

definition init_db ::
  "zodb_utils \<Rightarrow> account_env \<Rightarrow> kdf_env \<Rightarrow> string \<Rightarrow> bytes \<Rightarrow> bytes \<Rightarrow> bytes \<Rightarrow> bytes \<Rightarrow> string option
     \<Rightarrow> bytes option \<Rightarrow> admin res" where
  "init_db Z E K nobody_pem admin_oid user_oid salt uname pem_data password =
     bindr (new_admin Z E admin_oid nobody_pem) (\<lambda>a.
       case add_user E (hash_password K) ''zerodb.com'' user_oid salt uname pem_data password a of
         (Inl e, _) \<Rightarrow> Inl e
       | (Inr uid, a') \<Rightarrow> bindr (py_assert (uid = p64 Z 2)) (\<lambda>_. Inr (commit_users a')))"

section \<open>The certificate index\<close>

text \<open>
  \<open>index_ok\<close> relates the certificates in use, as triples of user id, DER form and text,
  to the two places that index them: \<open>uids\<close>, which finds a certificate's user, and the
  text the server loads. \<open>W\<close> is a set of certificate texts that removal cannot confuse.
\<close>

definition pem_set :: "string set \<Rightarrow> bool" where
  "pem_set W \<longleftrightarrow> (\<forall>p \<in> W. pem_ok p \<and> (\<forall>q \<in> W. pem_apart p q))"

definition index_ok ::
  "account_env \<Rightarrow> string set \<Rightarrow> string \<Rightarrow> (bytes \<times> bytes \<times> string) set
     \<Rightarrow> (bytes \<Rightarrow> bytes option option) \<Rightarrow> string \<Rightarrow> bool" where
  "index_ok E W nobody C uids txt \<longleftrightarrow>
     (\<forall>uid der pem. (uid, der, pem) \<in> C \<longrightarrow> get_der E pem = Inr der \<and> pem \<in> W) \<and>
     (\<forall>der uid. uids der = Some (Some uid) \<longleftrightarrow> (\<exists>pem. (uid, der, pem) \<in> C)) \<and>
     (\<exists>nd. get_der E nobody = Inr nd \<and> (\<forall>der. uids der = Some None \<longleftrightarrow> der = nd)) \<and>
     (\<exists>ps. distinct ps \<and> txt = certs_text (nobody # ps) \<and> set ps = (snd \<circ> snd) ` C)"

lemma index_ok_cert:
  "index_ok E W nb C uids txt \<Longrightarrow> (uid, der, pem) \<in> C \<Longrightarrow> get_der E pem = Inr der \<and> pem \<in> W"
  unfolding index_ok_def by (elim conjE) blast

lemma index_ok_uids:
  assumes "index_ok E W nb C uids txt"
  shows "uids der = Some (Some uid) \<longleftrightarrow> (\<exists>pem. (uid, der, pem) \<in> C)"
proof -
  have "\<forall>der uid. uids der = Some (Some uid) \<longleftrightarrow> (\<exists>pem. (uid, der, pem) \<in> C)"
    using assms unfolding index_ok_def by (elim conjE)
  then show ?thesis by (elim allE)
qed

lemma index_ok_nobody:
  "index_ok E W nb C uids txt \<Longrightarrow>
     \<exists>nd. get_der E nb = Inr nd \<and> (\<forall>der. uids der = Some None \<longleftrightarrow> der = nd)"
  unfolding index_ok_def by (elim conjE)

lemma index_ok_text:
  "index_ok E W nb C uids txt \<Longrightarrow>
     \<exists>ps. distinct ps \<and> txt = certs_text (nb # ps) \<and> set ps = (snd \<circ> snd) ` C"
  unfolding index_ok_def by (elim conjE)

lemma index_okI:
  assumes "\<And>uid der pem. (uid, der, pem) \<in> C \<Longrightarrow> get_der E pem = Inr der \<and> pem \<in> W"
    and "\<And>der uid. uids der = Some (Some uid) \<longleftrightarrow> (\<exists>pem. (uid, der, pem) \<in> C)"
    and "get_der E nb = Inr nd" "\<And>der. uids der = Some None \<longleftrightarrow> der = nd"
    and "distinct ps" "txt = certs_text (nb # ps)" "set ps = (snd \<circ> snd) ` C"
  shows "index_ok E W nb C uids txt"
  unfolding index_ok_def
proof (intro conjI)
  show "\<forall>uid der pem. (uid, der, pem) \<in> C \<longrightarrow> get_der E pem = Inr der \<and> pem \<in> W"
    using assms(1) by blast
  show "\<forall>der uid. uids der = Some (Some uid) \<longleftrightarrow> (\<exists>pem. (uid, der, pem) \<in> C)"
    by (intro allI assms(2))
  show "\<exists>nd. get_der E nb = Inr nd \<and> (\<forall>der. uids der = Some None \<longleftrightarrow> der = nd)"
    by (intro exI [of _ nd] conjI allI assms(3,4))
  show "\<exists>ps. distinct ps \<and> txt = certs_text (nb # ps) \<and> set ps = (snd \<circ> snd) ` C"
    by (intro exI [of _ ps] conjI assms(5-7))
qed

lemma index_ok_holder:
  "index_ok E W nb C uids txt \<Longrightarrow> (uid, der, pem) \<in> C \<Longrightarrow> uids der = Some (Some uid)"
  using index_ok_uids by blast

lemma index_ok_not_nobody:
  assumes I: "index_ok E W nb C uids txt" and C: "(uid, der, pem) \<in> C"
  shows "pem \<noteq> nb"
proof
  assume "pem = nb"
  then have "uids der = Some None"
    using index_ok_nobody [OF I] index_ok_cert [OF I C] by auto
  with index_ok_holder [OF I C] show False by simp
qed

lemma index_ok_same_holder:
  assumes I: "index_ok E W nb C uids txt" and C: "(uid, der, pem) \<in> C" "(uid', der', pem) \<in> C"
  shows "uid = uid'"
  using index_ok_cert [OF I C(1)] index_ok_cert [OF I C(2)]
    index_ok_holder [OF I C(1)] index_ok_holder [OF I C(2)] by simp

lemma index_ok_add:
  assumes I: "index_ok E W nb C uids txt" and der: "get_der E pem = Inr der" "pem \<in> W" "uids der = None"
  shows "index_ok E W nb (insert (uid, der, pem) C) (uids(der \<mapsto> Some uid)) (certs_add txt pem)"
proof -
  have noC: "(v, der, p) \<notin> C" for v p
    using index_ok_holder [OF I, of v der p] der(3) by auto
  obtain nd where nd: "get_der E nb = Inr nd" "\<And>d. uids d = Some None \<longleftrightarrow> d = nd"
    using index_ok_nobody [OF I] by auto
  obtain ps where ps: "distinct ps" "txt = certs_text (nb # ps)" "set ps = (snd \<circ> snd) ` C"
    using index_ok_text [OF I] by auto
  have new: "pem \<notin> set ps"
  proof
    assume "pem \<in> set ps"
    then obtain v d where m: "(v, d, pem) \<in> C" using ps(3) by force
    with index_ok_cert [OF I m] der(1) have "(v, der, pem) \<in> C" by simp
    with noC show False by simp
  qed
  have "nd \<noteq> der" using nd(2) [of der] der(3) by auto
  show ?thesis
  proof (rule index_okI [OF _ _ nd(1), where ps = "ps @ [pem]"])
    show "get_der E p = Inr d \<and> p \<in> W" if "(v, d, p) \<in> insert (uid, der, pem) C" for v d p
      using that index_ok_cert [OF I, of v d p] der by auto
    show "(uids(der \<mapsto> Some uid)) d = Some (Some v) \<longleftrightarrow> (\<exists>p. (v, d, p) \<in> insert (uid, der, pem) C)"
      for d v using index_ok_uids [OF I, of d v] noC by auto
    show "(uids(der \<mapsto> Some uid)) d = Some None \<longleftrightarrow> d = nd" for d
      using nd(2) [of d] \<open>nd \<noteq> der\<close> by auto
    show "certs_add txt pem = certs_text (nb # ps @ [pem])"
      using ps(2) certs_add_text [of "nb # ps" pem] by simp
  qed (use new ps(1,3) in auto)
qed

lemma certs_remove_all_text:
  assumes "\<forall>p \<in> set ps. pem_ok p \<and> (\<forall>x \<in> set xs. pem_apart x p)" "\<forall>x \<in> set xs. pem_ok x"
  shows "foldl certs_remove (certs_text ps) xs = certs_text (filter (\<lambda>p. p \<notin> set xs) ps)"
  using assms
proof (induction xs arbitrary: ps)
  case Nil
  then show ?case by simp
next
  case (Cons x xs)
  then show ?case
    by (simp add: remove_text conj_commute)
qed

lemma index_ok_remove:
  assumes I: "index_ok E W nb C uids txt" and W: "pem_set W" "nb \<in> W"
    and cs: "set cs = {(der, pem). (uid, der, pem) \<in> C}"
  shows "index_ok E W nb {x \<in> C. fst x \<noteq> uid} (\<lambda>der. if der \<in> fst ` set cs then None else uids der)
           (foldl certs_remove txt (map snd cs))"
proof -
  obtain nd where nd: "get_der E nb = Inr nd" "\<And>d. uids d = Some None \<longleftrightarrow> d = nd"
    using index_ok_nobody [OF I] by auto
  obtain ps where ps: "distinct ps" "txt = certs_text (nb # ps)" "set ps = (snd \<circ> snd) ` C"
    using index_ok_text [OF I] by auto
  have "set (nb # ps) \<subseteq> W" "set (map snd cs) \<subseteq> W"
    using W(2) ps(3) cs index_ok_cert [OF I] by auto
  then have ok: "\<forall>p \<in> set (nb # ps). pem_ok p \<and> (\<forall>x \<in> set (map snd cs). pem_apart x p)"
      "\<forall>x \<in> set (map snd cs). pem_ok x"
    using W(1) unfolding pem_set_def by blast+
  have nb: "nb \<notin> set (map snd cs)"
  proof
    assume "nb \<in> set (map snd cs)"
    then obtain d where "(uid, d, nb) \<in> C" using cs by auto
    from index_ok_not_nobody [OF I this] show False by simp
  qed
  have text_left: "foldl certs_remove txt (map snd cs) = certs_text (nb # filter (\<lambda>p. p \<notin> set (map snd cs)) ps)"
    unfolding ps(2) certs_remove_all_text [OF ok] using nb by simp
  have set_ps: "set (filter (\<lambda>p. p \<notin> set (map snd cs)) ps) = (snd \<circ> snd) ` {x \<in> C. fst x \<noteq> uid}"
  proof -
    have mine: "p \<notin> snd ` set cs \<longleftrightarrow> v \<noteq> uid" if m: "(v, d, p) \<in> C" for v d p
    proof
      show "v \<noteq> uid" if "p \<notin> snd ` set cs" using that m cs by force
      show "p \<notin> snd ` set cs" if "v \<noteq> uid"
      proof
        assume "p \<in> snd ` set cs"
        then obtain d' where "(uid, d', p) \<in> C" using cs by auto
        from index_ok_same_holder [OF I m this] that show False by simp
      qed
    qed
    show ?thesis
    proof (intro set_eqI iffI)
      fix p assume "p \<in> set (filter (\<lambda>p. p \<notin> set (map snd cs)) ps)"
      then obtain v d where "(v, d, p) \<in> C" "p \<notin> snd ` set cs" using ps(3) by force
      with mine have "(v, d, p) \<in> {x \<in> C. fst x \<noteq> uid}" by auto
      then show "p \<in> (snd \<circ> snd) ` {x \<in> C. fst x \<noteq> uid}" by force
    next
      fix p assume "p \<in> (snd \<circ> snd) ` {x \<in> C. fst x \<noteq> uid}"
      then obtain v d where m: "(v, d, p) \<in> C" "v \<noteq> uid" by auto
      then have "p \<in> set ps" using ps(3) by force
      with m mine show "p \<in> set (filter (\<lambda>p. p \<notin> set (map snd cs)) ps)" by auto
    qed
  qed
  have holder: "d \<in> fst ` set cs \<longleftrightarrow> uids d = Some (Some uid)" for d
    using index_ok_uids [OF I, of d uid] cs by force
  show ?thesis
  proof (rule index_okI [OF _ _ nd(1) _ _ text_left set_ps])
    show "get_der E p = Inr d \<and> p \<in> W" if "(v, d, p) \<in> {x \<in> C. fst x \<noteq> uid}" for v d p
      using that index_ok_cert [OF I, of v d p] by auto
    show "(if d \<in> fst ` set cs then None else uids d) = Some (Some v) \<longleftrightarrow>
        (\<exists>p. (v, d, p) \<in> {x \<in> C. fst x \<noteq> uid})" for d v
      using index_ok_uids [OF I, of d v] holder [of d] by auto
    show "(if d \<in> fst ` set cs then None else uids d) = Some None \<longleftrightarrow> d = nd" for d
      using nd(2) [of d] holder [of d] by auto
  qed (use ps(1) in simp)
qed

section \<open>The invariant\<close>

definition live_certs :: "admin \<Rightarrow> (bytes \<times> bytes \<times> string) set" where
  "live_certs a = {(uid, der, pem). \<exists>u. a_users a uid = Some uid \<and> a_objects a uid = Some u \<and>
      (der, pem) \<in> set (u_certs u)}"

definition users_ok :: "admin \<Rightarrow> bool" where
  "users_ok a \<longleftrightarrow>
     (\<forall>uid r. a_users a uid = Some r \<longrightarrow> r = uid \<and>
        (\<exists>u. a_objects a uid = Some u \<and> u_id u = uid \<and> distinct (map fst (u_certs u)))) \<and>
     (\<forall>n uid. a_users_by_name a n = Some uid \<longrightarrow> a_users a uid = Some uid \<and>
        (\<exists>u. a_objects a uid = Some u \<and> u_name u = n))"

definition admin_inv :: "account_env \<Rightarrow> string set \<Rightarrow> string \<Rightarrow> admin \<Rightarrow> bool" where
  "admin_inv E W nobody a \<longleftrightarrow>
     users_ok a \<and> index_ok E W nobody (live_certs a) (a_uids a) (a_certs a)"

lemma admin_inv_changed [simp]:
  "admin_inv E W nb (a\<lparr>a_changed := x\<rparr>) = admin_inv E W nb a" "admin_inv E W nb (commit_users a) = admin_inv E W nb a"
  by (simp_all add: admin_inv_def users_ok_def live_certs_def commit_users_def)

lemma commit_users_fields [simp]:
  "a_objects (commit_users a) = a_objects a" "a_users (commit_users a) = a_users a"
  "a_users_by_name (commit_users a) = a_users_by_name a" "a_uids (commit_users a) = a_uids a"
  "a_certs (commit_users a) = a_certs a"
  by (simp_all add: commit_users_def)

lemma users_ok_user:
  "users_ok a \<Longrightarrow> a_users a uid = Some r \<Longrightarrow>
     r = uid \<and> (\<exists>u. a_objects a uid = Some u \<and> u_id u = uid \<and> distinct (map fst (u_certs u)))"
  unfolding users_ok_def by (elim conjE) blast

lemma users_ok_name:
  "users_ok a \<Longrightarrow> a_users_by_name a n = Some uid \<Longrightarrow>
     a_users a uid = Some uid \<and> (\<exists>u. a_objects a uid = Some u \<and> u_name u = n)"
  unfolding users_ok_def by (elim conjE) blast

lemma users_ok_set_user:
  assumes U: "users_ok a" and u: "a_objects a uid = Some u" "u_id u' = u_id u" "u_name u' = u_name u"
      "distinct (map fst (u_certs u)) \<Longrightarrow> distinct (map fst (u_certs u'))"
    and a': "a_users a' = a_users a" "a_users_by_name a' = a_users_by_name a"
      "a_objects a' = (a_objects a)(uid \<mapsto> u')"
  shows "users_ok a'"
  unfolding users_ok_def a'
proof (intro conjI allI impI)
  fix v r assume v: "a_users a v = Some r"
  show "r = v" using users_ok_user [OF U v] ..
  show "\<exists>x. ((a_objects a)(uid \<mapsto> u')) v = Some x \<and> u_id x = v \<and> distinct (map fst (u_certs x))"
    using users_ok_user [OF U v] u by (cases "v = uid") auto
next
  fix n v assume v: "a_users_by_name a n = Some v"
  show "a_users a v = Some v" using users_ok_name [OF U v] ..
  show "\<exists>x. ((a_objects a)(uid \<mapsto> u')) v = Some x \<and> u_name x = n"
    using users_ok_name [OF U v] u by (cases "v = uid") auto
qed

lemma del_user_certs_unchanged:
  "a_users (snd (del_user_certs uid a)) = a_users a" "a_objects (snd (del_user_certs uid a)) = a_objects a"
  by (simp_all add: del_user_certs_def with_user_def m_each_unchanged del_user_cert_def split: option.split prod.split)

lemma del_user_certs_each:
  assumes "distinct (map fst cs)" "\<forall>der \<in> fst ` set cs. a_uids a der \<noteq> None"
  shows "m_each del_user_cert cs a =
    (Inr (), a\<lparr>a_uids := (\<lambda>der. if der \<in> fst ` set cs then None else a_uids a der),
               a_certs := foldl certs_remove (a_certs a) (map snd cs)\<rparr>)"
  using assms
proof (induction cs arbitrary: a)
  case Nil
  then show ?case by (simp add: meth_simps)
next
  case (Cons c cs)
  obtain der pem where c: "c = (der, pem)" by fastforce
  let ?a1 = "a\<lparr>a_uids := (a_uids a)(der := None), a_certs := certs_remove (a_certs a) pem\<rparr>"
  have "del_user_cert c a = (Inr (), ?a1)"
    using Cons.prems(2) by (simp add: del_user_cert_def c)
  moreover have "m_each del_user_cert cs ?a1 =
    (Inr (), ?a1\<lparr>a_uids := (\<lambda>d. if d \<in> fst ` set cs then None else a_uids ?a1 d),
               a_certs := foldl certs_remove (a_certs ?a1) (map snd cs)\<rparr>)"
    by (rule Cons.IH) (use Cons.prems in \<open>auto simp: c\<close>)
  moreover have "(\<lambda>d. if d \<in> fst ` set cs then None else a_uids ?a1 d) =
      (\<lambda>d. if d \<in> fst ` set (c # cs) then None else a_uids a d)"
    by (simp add: c fun_eq_iff)
  ultimately show ?case
    by (simp add: meth_simps c)
qed

lemma del_user_certs_spec:
  assumes I: "index_ok E W nb C (a_uids a) (a_certs a)" and W: "pem_set W" "nb \<in> W"
    and u: "a_objects a uid = Some u" "distinct (map fst (u_certs u))"
    and cs: "set (u_certs u) = {(der, pem). (uid, der, pem) \<in> C}"
  obtains f t where "del_user_certs uid a = (Inr (), a\<lparr>a_uids := f, a_certs := t\<rparr>)"
    "index_ok E W nb {x \<in> C. fst x \<noteq> uid} f t"
    "\<And>der. f der = (if a_uids a der = Some (Some uid) then None else a_uids a der)"
proof -
  have held: "a_uids a der = Some (Some uid) \<longleftrightarrow> der \<in> fst ` set (u_certs u)" for der
    using index_ok_uids [OF I, of der uid] cs by force
  let ?f = "\<lambda>der. if der \<in> fst ` set (u_certs u) then None else a_uids a der"
  have "del_user_certs uid a =
      (Inr (), a\<lparr>a_uids := ?f, a_certs := foldl certs_remove (a_certs a) (map snd (u_certs u))\<rparr>)"
    unfolding del_user_certs_def with_user_def u(1) option.case
    by (rule del_user_certs_each [OF u(2)]) (use held in auto)
  moreover have "?f der = (if a_uids a der = Some (Some uid) then None else a_uids a der)" for der
    by (simp add: held)
  ultimately show thesis
    by (rule that [OF _ index_ok_remove [OF I W cs]])
qed

lemma live_certs_user:
  assumes "a_users a uid = Some uid" "a_objects a uid = Some u"
  shows "set (u_certs u) = {(der, pem). (uid, der, pem) \<in> live_certs a}"
  using assms by (auto simp: live_certs_def)

lemma add_user_cert_inv:
  assumes I: "admin_inv E W nb a" and uid: "a_users a uid = Some uid" and "pem \<in> W"
  shows "admin_inv E W nb (snd (add_user_cert E uid pem a))"
proof -
  have U: "users_ok a" and X: "index_ok E W nb (live_certs a) (a_uids a) (a_certs a)"
    using I by (simp_all add: admin_inv_def)
  obtain u where u: "a_objects a uid = Some u" "u_id u = uid" "distinct (map fst (u_certs u))"
    using users_ok_user [OF U uid] by auto
  show ?thesis
  proof (cases "get_der E pem")
    case (Inl e)
    then show ?thesis using I u by (simp add: add_user_cert_def with_user_def meth_simps)
  next
    case (Inr der)
    show ?thesis
    proof (cases "a_uids a der \<noteq> None \<or> der \<in> fst ` set (u_certs u)")
      case True
      then show ?thesis using I u Inr by (simp add: add_user_cert_def with_user_def meth_simps)
    next
      case False
      let ?u = "u\<lparr>u_certs := u_certs u @ [(der, pem)]\<rparr>"
      let ?a = "a\<lparr>a_uids := (a_uids a)(der \<mapsto> Some uid), a_objects := (a_objects a)(uid \<mapsto> ?u),
          a_certs := certs_add (a_certs a) pem\<rparr>"
      have a: "snd (add_user_cert E uid pem a) = ?a"
        using False u Inr by (simp add: add_user_cert_def with_user_def meth_simps)
      have "live_certs ?a = insert (uid, der, pem) (live_certs a)"
        using uid u(1) by (auto simp: live_certs_def split: if_splits)
      moreover have "index_ok E W nb (insert (uid, der, pem) (live_certs a))
          ((a_uids a)(der \<mapsto> Some uid)) (certs_add (a_certs a) pem)"
        by (rule index_ok_add [OF X Inr assms(3)]) (use False in simp)
      moreover have "users_ok ?a"
        by (rule users_ok_set_user [OF U u(1), of ?u]) (use False in auto)
      ultimately show ?thesis unfolding a admin_inv_def by simp
    qed
  qed
qed

lemma del_user_inv:
  assumes I: "admin_inv E W nb a" and W: "pem_set W" "nb \<in> W"
  shows "admin_inv E W nb (snd (del_user name a))"
    and "a_users_by_name a name = Some uid \<Longrightarrow> fst (del_user name a) = Inr () \<and>
      a_users_by_name (snd (del_user name a)) = (a_users_by_name a)(name := None) \<and>
      a_uids (snd (del_user name a)) =
        (\<lambda>der. if a_uids a der = Some (Some uid) then None else a_uids a der)"
proof -
  have U: "users_ok a" and X: "index_ok E W nb (live_certs a) (a_uids a) (a_certs a)"
    using I by (simp_all add: admin_inv_def)
  have main: "admin_inv E W nb (snd (del_user name a)) \<and> fst (del_user name a) = Inr () \<and>
      a_users_by_name (snd (del_user name a)) = (a_users_by_name a)(name := None) \<and>
      a_uids (snd (del_user name a)) =
        (\<lambda>der. if a_uids a der = Some (Some uid) then None else a_uids a der)"
    if n: "a_users_by_name a name = Some uid" for uid
  proof -
    have uid: "a_users a uid = Some uid" using users_ok_name [OF U n] by simp
    then obtain u where u: "a_objects a uid = Some u" "distinct (map fst (u_certs u))" "u_name u = name"
      using users_ok_user [OF U uid] users_ok_name [OF U n] by auto
    let ?a = "a\<lparr>a_users_by_name := (a_users_by_name a)(name := None), a_users := (a_users a)(uid := None)\<rparr>"
    obtain f t where r: "del_user_certs uid ?a = (Inr (), ?a\<lparr>a_uids := f, a_certs := t\<rparr>)"
      and ix: "index_ok E W nb {x \<in> live_certs a. fst x \<noteq> uid} f t"
      and f: "\<And>der. f der = (if a_uids ?a der = Some (Some uid) then None else a_uids ?a der)"
      by (rule del_user_certs_spec [of E W nb "live_certs a" ?a uid u])
        (use X W u live_certs_user [OF uid u(1)] in auto)
    have "live_certs (?a\<lparr>a_uids := f, a_certs := t\<rparr>) = {x \<in> live_certs a. fst x \<noteq> uid}"
      by (auto simp: live_certs_def split: if_splits)
    moreover have "users_ok (?a\<lparr>a_uids := f, a_certs := t\<rparr>)"
    proof -
      have "n = name" if "a_users_by_name a n = Some uid" for n
        using users_ok_name [OF U that] u by simp
      then show ?thesis using U unfolding users_ok_def by auto
    qed
    moreover have "f = (\<lambda>der. if a_uids a der = Some (Some uid) then None else a_uids a der)"
      using f by (simp add: fun_eq_iff)
    ultimately show ?thesis
      using n uid r ix by (simp add: del_user_def Let_def admin_inv_def)
  qed
  show "admin_inv E W nb (snd (del_user name a))"
  proof (cases "a_users_by_name a name")
    case None
    then show ?thesis using I by (simp add: del_user_def)
  next
    case (Some uid)
    then show ?thesis using main by simp
  qed
  show "a_users_by_name a name = Some uid \<Longrightarrow> fst (del_user name a) = Inr () \<and>
      a_users_by_name (snd (del_user name a)) = (a_users_by_name a)(name := None) \<and>
      a_uids (snd (del_user name a)) =
        (\<lambda>der. if a_uids a der = Some (Some uid) then None else a_uids a der)"
    using main by simp
qed

lemma add_user_cert_result:
  assumes "a_objects a uid = Some u" "u_id u = uid" "fst (add_user_cert E uid pem a) = Inr x"
  shows "\<exists>der. get_der E pem = Inr der \<and> a_uids a der = None \<and>
    a_uids (snd (add_user_cert E uid pem a)) = (a_uids a)(der \<mapsto> Some uid) \<and>
    a_users (snd (add_user_cert E uid pem a)) = a_users a \<and>
    a_users_by_name (snd (add_user_cert E uid pem a)) = a_users_by_name a"
  using assms by (cases "get_der E pem")
    (auto simp: add_user_cert_def with_user_def meth_simps m_bind_def split: if_splits)

lemma add_user_inv:
  assumes I: "admin_inv E W nb a" and new: "a_objects a oid = None"
    and pem: "\<And>p. pem = Some p \<Longrightarrow> p \<noteq> [] \<Longrightarrow> p \<in> W"
  shows "admin_inv E W nb (snd (add_user E security appname oid salt uname pem password a))"
proof -
  have U: "users_ok a" and X: "index_ok E W nb (live_certs a) (a_uids a) (a_certs a)"
    using I by (simp_all add: admin_inv_def)
  show ?thesis
  proof (cases "security (Some uname) password None None appname None")
    case (Inl e)
    then show ?thesis using I by (simp add: add_user_def m_bind_def meth_simps)
  next
    case (Inr r)
    obtain pw k where r: "r = (pw, k)" by fastforce
    define a1 where "a1 = a\<lparr>a_objects := (a_objects a)(oid \<mapsto> new_user E uname oid pw salt),
         a_users := (a_users a)(oid \<mapsto> oid), a_users_by_name := (a_users_by_name a)(uname \<mapsto> oid),
         a_changed := insert oid (a_changed a)\<rparr>"
    have fresh: "a_users a uid \<noteq> Some oid" for uid
      using users_ok_user [OF U, of uid oid] new by auto
    have no_oid: "a_users a oid = None"
      using users_ok_user [OF U, of oid] new by (cases "a_users a oid") auto
    have nu: "u_certs (new_user E uname oid pw salt) = []" "u_name (new_user E uname oid pw salt) = uname"
      "u_id (new_user E uname oid pw salt) = oid"
      by (simp_all add: new_user_def Let_def)
    have "live_certs a1 = live_certs a"
      using no_oid new by (auto simp: live_certs_def a1_def nu split: if_splits)
    moreover have "users_ok a1"
      unfolding users_ok_def
    proof (intro conjI allI impI)
      fix uid r assume "a_users a1 uid = Some r"
      then show "r = uid" using users_ok_user [OF U, of uid] by (auto simp: a1_def split: if_splits)
    next
      fix uid r assume "a_users a1 uid = Some r"
      then show "\<exists>u. a_objects a1 uid = Some u \<and> u_id u = uid \<and> distinct (map fst (u_certs u))"
        using users_ok_user [OF U, of uid] nu by (auto simp: a1_def split: if_splits)
    next
      fix n uid assume n: "a_users_by_name a1 n = Some uid"
      then show "a_users a1 uid = Some uid"
        using users_ok_name [OF U, of n uid] by (auto simp: a1_def split: if_splits)
    next
      fix n uid assume n: "a_users_by_name a1 n = Some uid"
      then show "\<exists>u. a_objects a1 uid = Some u \<and> u_name u = n"
        using users_ok_name [OF U, of n uid] fresh [of uid] nu by (auto simp: a1_def split: if_splits)
    qed
    ultimately have I1: "admin_inv E W nb a1"
      using X by (simp add: admin_inv_def a1_def)
    have run: "add_user E security appname oid salt uname pem password a =
      (if given pem then m_bind (add_user_cert E oid (the pem)) (\<lambda>_. m_return oid) else m_return oid) a1"
      by (simp add: add_user_def m_bind_def meth_simps Inr r a1_def)
    have "admin_inv E W nb (snd (add_user_cert E oid (the pem) a1))" if "given pem"
      using that by (intro add_user_cert_inv [OF I1]; cases pem) (auto simp: given_def a1_def intro: pem)
    then show ?thesis
      unfolding run using I1 by (auto simp: m_bind_def meth_simps split: prod.splits sum.splits)
  qed
qed

lemma change_password_user:
  "change_password E password u = Inr u' \<Longrightarrow>
     u_id u' = u_id u \<and> u_name u' = u_name u \<and> u_certs u' = u_certs u"
  by (auto simp: change_password_def split: if_splits option.splits)

lemma set_user_inv:
  assumes "admin_inv E W nb a" "a_objects a uid = Some u"
    and "u_id u' = u_id u" "u_name u' = u_name u" "u_certs u' = u_certs u"
  shows "admin_inv E W nb (a\<lparr>a_objects := (a_objects a)(uid \<mapsto> u')\<rparr>)"
proof -
  have "live_certs (a\<lparr>a_objects := (a_objects a)(uid \<mapsto> u')\<rparr>) = live_certs a"
    using assms(2-5) by (auto simp: live_certs_def split: if_splits)
  moreover have "users_ok (a\<lparr>a_objects := (a_objects a)(uid \<mapsto> u')\<rparr>)"
    by (rule users_ok_set_user [of a uid u u']) (use assms in \<open>auto simp: admin_inv_def\<close>)
  ultimately show ?thesis using assms(1) by (simp add: admin_inv_def)
qed

text \<open>\<open>change_cert\<close> in its two halves.\<close>

definition replace_certs :: "account_env \<Rightarrow> bytes \<Rightarrow> string option \<Rightarrow> (admin, unit) meth" where
  "replace_certs E uid pem_data =
     (if pem_data \<noteq> None then
        m_bind (del_user_certs uid) (\<lambda>_.
        m_bind (with_user uid (\<lambda>user. set_user uid (user\<lparr>u_certs := []\<rparr>))) (\<lambda>_.
          if given pem_data then add_user_cert E uid (the pem_data) else m_return ()))
      else m_return ())"

definition replace_password ::
  "account_env \<Rightarrow> security \<Rightarrow> bytes \<Rightarrow> bytes \<Rightarrow> bytes option \<Rightarrow> bytes \<Rightarrow> (admin, unit) meth" where
  "replace_password E security appname name password uid =
     (if password \<noteq> None then
        m_bind (m_lift (\<lambda>_. security (Some name) password None None appname None)) (\<lambda>(pw, _).
          with_user uid (\<lambda>user.
          m_bind (m_lift (\<lambda>_. change_password E pw user)) (\<lambda>user'.
          m_bind (set_user uid user') (\<lambda>_. if pw \<noteq> None then mark_changed uid else m_return ()))))
      else m_return ())"

lemma change_cert_halves:
  "change_cert E security appname name pem_data password a =
     (case a_users_by_name a name of
        None \<Rightarrow> (Inl KeyError, a)
      | Some uid \<Rightarrow> m_bind (replace_certs E uid pem_data)
          (\<lambda>_. replace_password E security appname name password uid) a)"
  unfolding change_cert_def replace_certs_def replace_password_def ..

lemma replace_password_inv: "preserves (admin_inv E W nb) (replace_password E security appname name password uid)"
proof (rule preservesI)
  fix a assume I: "admin_inv E W nb a"
  show "admin_inv E W nb (snd (replace_password E security appname name password uid a))"
    using I set_user_inv [OF I] change_password_user
    by (auto simp: replace_password_def m_bind_def meth_simps with_user_def set_user_def
        mark_changed_def split: sum.splits option.splits prod.splits)
qed

lemma replace_certs_inv:
  assumes I: "admin_inv E W nb a" and W: "pem_set W" "nb \<in> W" and uid: "a_users a uid = Some uid"
    and pem: "\<And>p. pem = Some p \<Longrightarrow> p \<noteq> [] \<Longrightarrow> p \<in> W"
  shows "admin_inv E W nb (snd (replace_certs E uid pem a))"
    and "fst (replace_certs E uid (Some []) a) = Inr ()"
    and "a_uids (snd (replace_certs E uid (Some []) a)) =
      (\<lambda>der. if a_uids a der = Some (Some uid) then None else a_uids a der)"
    and "pem = Some p \<Longrightarrow> p \<noteq> [] \<Longrightarrow> fst (replace_certs E uid pem a) = Inr () \<Longrightarrow>
      \<exists>der. get_der E p = Inr der \<and> a_uids (snd (replace_certs E uid pem a)) =
        (\<lambda>d. if d = der then Some (Some uid) else if a_uids a d = Some (Some uid) then None else a_uids a d)"
proof -
  have U: "users_ok a" and X: "index_ok E W nb (live_certs a) (a_uids a) (a_certs a)"
    using I by (simp_all add: admin_inv_def)
  obtain u where u: "a_objects a uid = Some u" "u_id u = uid" "distinct (map fst (u_certs u))"
    using users_ok_user [OF U uid] by auto
  obtain f t where r: "del_user_certs uid a = (Inr (), a\<lparr>a_uids := f, a_certs := t\<rparr>)"
    and ix: "index_ok E W nb {x \<in> live_certs a. fst x \<noteq> uid} f t"
    and f: "\<And>der. f der = (if a_uids a der = Some (Some uid) then None else a_uids a der)"
    by (rule del_user_certs_spec [of E W nb "live_certs a" a uid u])
      (use X W u live_certs_user [OF uid u(1)] in auto)
  define a2 where "a2 = a\<lparr>a_uids := f, a_certs := t, a_objects := (a_objects a)(uid \<mapsto> u\<lparr>u_certs := []\<rparr>)\<rparr>"
  have "live_certs a2 = {x \<in> live_certs a. fst x \<noteq> uid}"
    by (auto simp: live_certs_def a2_def split: if_splits)
  moreover have "users_ok a2"
    by (rule users_ok_set_user [OF U u(1), of "u\<lparr>u_certs := []\<rparr>"]) (simp_all add: a2_def)
  ultimately have I2: "admin_inv E W nb a2" using ix by (simp add: admin_inv_def a2_def)
  have run: "replace_certs E uid pem a =
      (if pem = None then (Inr (), a)
       else (if given pem then add_user_cert E uid (the pem) a2 else (Inr (), a2)))" for pem
    using r u by (simp add: replace_certs_def m_bind_def meth_simps with_user_def set_user_def a2_def)
  have "admin_inv E W nb (snd (add_user_cert E uid (the pem) a2))" if "given pem"
    using that uid by (intro add_user_cert_inv [OF I2]; cases pem) (auto simp: given_def a2_def intro: pem)
  then show "admin_inv E W nb (snd (replace_certs E uid pem a))"
    using I I2 by (simp add: run)
  show "fst (replace_certs E uid (Some []) a) = Inr ()" "a_uids (snd (replace_certs E uid (Some []) a)) =
      (\<lambda>der. if a_uids a der = Some (Some uid) then None else a_uids a der)"
    using f by (simp_all add: run given_def a2_def fun_eq_iff)
  assume p: "pem = Some p" "p \<noteq> []" "fst (replace_certs E uid pem a) = Inr ()"
  then have "\<exists>der. get_der E p = Inr der \<and> a_uids a2 der = None \<and>
      a_uids (snd (replace_certs E uid pem a)) = (a_uids a2)(der \<mapsto> Some uid)"
    using add_user_cert_result [of a2 uid "u\<lparr>u_certs := []\<rparr>" E p] u(2)
    by (auto simp: run given_def a2_def)
  then show "\<exists>der. get_der E p = Inr der \<and> a_uids (snd (replace_certs E uid pem a)) =
        (\<lambda>d. if d = der then Some (Some uid) else if a_uids a d = Some (Some uid) then None else a_uids a d)"
    using f by (auto simp: a2_def fun_eq_iff)
qed

lemma new_admin_inv:
  assumes "new_admin Z E oid nobody = Inr a"
  shows "admin_inv E W nobody a"
    and "\<exists>nd. a = \<lparr>a_objects = Map.empty, a_users = Map.empty, a_users_by_name = Map.empty,
            a_uids = [nd \<mapsto> None], a_certs = certs_text [nobody], a_stored = Map.empty, a_changed = {}\<rparr>"
proof -
  from assms obtain nd where nd: "get_der E nobody = Inr nd"
    and a: "a = \<lparr>a_objects = Map.empty, a_users = Map.empty, a_users_by_name = Map.empty,
            a_uids = [nd \<mapsto> None], a_certs = certs_text [nobody], a_stored = Map.empty, a_changed = {}\<rparr>"
    by (auto simp: new_admin_def bindr_eq_Inr certs_add_def)
  have "live_certs a = {}" by (simp add: live_certs_def a)
  moreover have "index_ok E W nobody {} [nd \<mapsto> None] (certs_text [nobody])"
    by (rule index_okI [OF _ _ nd, where ps = "[]"]) (auto split: if_splits)
  ultimately show "admin_inv E W nobody a" by (simp add: admin_inv_def users_ok_def a)
  show "\<exists>nd. a = \<lparr>a_objects = Map.empty, a_users = Map.empty, a_users_by_name = Map.empty,
            a_uids = [nd \<mapsto> None], a_certs = certs_text [nobody], a_stored = Map.empty, a_changed = {}\<rparr>"
    using a by blast
qed

section \<open>What a commit keeps\<close>

text \<open>
  What is read after a commit is what was in memory; \<open>touches uid\<close> bounds the difference that a
  method makes to the users.
\<close>

definition kept_by_commit :: "admin \<Rightarrow> bool" where
  "kept_by_commit a \<longleftrightarrow> reload_users (commit_users a) = commit_users a"

lemma kept_by_commit_iff: "kept_by_commit a \<longleftrightarrow> (\<forall>uid. uid \<notin> a_changed a \<longrightarrow> a_objects a uid = a_stored a uid)"
proof
  assume "kept_by_commit a"
  then have eq: "a_objects (reload_users (commit_users a)) uid = a_objects a uid" for uid by (simp add: kept_by_commit_def)
  show "\<forall>uid. uid \<notin> a_changed a \<longrightarrow> a_objects a uid = a_stored a uid"
  proof (intro allI impI)
    fix uid assume "uid \<notin> a_changed a"
    then show "a_objects a uid = a_stored a uid" using eq [of uid] by (simp add: reload_users_def commit_users_def)
  qed
qed (auto simp: kept_by_commit_def reload_users_def commit_users_def fun_eq_iff)

definition touches :: "bytes \<Rightarrow> admin \<Rightarrow> admin \<Rightarrow> bool" where
  "touches uid a a' \<longleftrightarrow> a_stored a' = a_stored a \<and> a_changed a \<subseteq> a_changed a' \<and>
     (\<forall>v. v \<noteq> uid \<longrightarrow> a_objects a' v = a_objects a v)"

lemma touches_refl [simp]: "touches uid a a"
  by (simp add: touches_def)

lemma touches_trans: "touches uid a b \<Longrightarrow> touches uid b c \<Longrightarrow> touches uid a c"
  unfolding touches_def by auto

lemma touches_kept:
  assumes "kept_by_commit a" "touches uid a a'" "uid \<in> a_changed a' \<or> a_objects a' uid = a_objects a uid"
  shows "kept_by_commit a'"
  unfolding kept_by_commit_iff
proof (intro allI impI)
  fix v assume v: "v \<notin> a_changed a'"
  then have "a_objects a v = a_stored a v" using assms(1,2) unfolding kept_by_commit_iff touches_def by blast
  moreover have "a_objects a' v = a_objects a v" using assms(2,3) v unfolding touches_def by (cases "v = uid") auto
  ultimately show "a_objects a' v = a_stored a' v" using assms(2) by (simp add: touches_def)
qed

text \<open>\<open>in_place\<close>: besides, no user is marked and the users and names are the same.\<close>

definition in_place :: "bytes \<Rightarrow> admin \<Rightarrow> admin \<Rightarrow> bool" where
  "in_place uid a a' \<longleftrightarrow> touches uid a a' \<and> a_changed a' = a_changed a \<and> a_users a' = a_users a \<and>
     a_users_by_name a' = a_users_by_name a"

lemma in_place_refl [simp]: "in_place uid a a"
  by (simp add: in_place_def)

lemma add_user_cert_in_place: "preserves (in_place uid a) (add_user_cert E uid pem)"
  by (rule preservesI) (auto simp: add_user_cert_def with_user_def m_bind_def meth_simps in_place_def touches_def
      split: option.splits sum.splits prod.splits)

lemma del_user_certs_in_place: "preserves (in_place uid a) (del_user_certs v)"
proof (rule preservesI)
  fix b assume "in_place uid a b"
  moreover have "a_changed (snd (del_user_certs v b)) = a_changed b" "a_stored (snd (del_user_certs v b)) = a_stored b"
    "a_users_by_name (snd (del_user_certs v b)) = a_users_by_name b"
    by (simp_all add: del_user_certs_def with_user_def m_each_unchanged del_user_cert_def split: option.split prod.split)
  ultimately show "in_place uid a (snd (del_user_certs v b))"
    by (simp add: in_place_def touches_def del_user_certs_unchanged)
qed

lemma clear_certs_in_place: "preserves (in_place uid a) (with_user uid (\<lambda>user. set_user uid (f user)))"
  by (rule preservesI) (auto simp: with_user_def set_user_def meth_simps in_place_def touches_def split: option.splits)

lemma replace_certs_in_place: "in_place uid a (snd (replace_certs E uid pem a))"
proof -
  have "preserves (in_place uid a) (replace_certs E uid pem)"
    unfolding replace_certs_def
    by (intro preserves_if preserves_bind preserves_simps add_user_cert_in_place del_user_certs_in_place clear_certs_in_place)
  then show ?thesis using preservesD by fastforce
qed

lemma add_user_kept:
  assumes "kept_by_commit a"
  shows "kept_by_commit (snd (add_user E security appname oid salt uname pem password a))"
proof (cases "security (Some uname) password None None appname None")
  case (Inl e)
  then show ?thesis using assms by (simp add: add_user_def m_bind_def meth_simps)
next
  case (Inr r)
  obtain pw k where r: "r = (pw, k)" by fastforce
  define a1 where "a1 = a\<lparr>a_objects := (a_objects a)(oid \<mapsto> new_user E uname oid pw salt),
         a_users := (a_users a)(oid \<mapsto> oid), a_users_by_name := (a_users_by_name a)(uname \<mapsto> oid),
         a_changed := insert oid (a_changed a)\<rparr>"
  have run: "add_user E security appname oid salt uname pem password a =
      (if given pem then m_bind (add_user_cert E oid (the pem)) (\<lambda>_. m_return oid) else m_return oid) a1"
    by (simp add: add_user_def m_bind_def meth_simps Inr r a1_def)
  have a1: "touches oid a a1" "oid \<in> a_changed a1" by (auto simp: a1_def touches_def)
  have cert: "in_place oid a1 (snd (add_user_cert E oid (the pem) a1))"
    using preservesD [OF add_user_cert_in_place in_place_refl] .
  have "snd (add_user E security appname oid salt uname pem password a) =
      (if given pem then snd (add_user_cert E oid (the pem) a1) else a1)"
    unfolding run by (auto simp: m_bind_def meth_simps split: prod.splits sum.splits)
  then show ?thesis
    using touches_kept [OF assms a1(1)] touches_kept [OF assms touches_trans [OF a1(1)]] a1(2) cert
    by (simp add: in_place_def)
qed

lemma del_user_kept:
  assumes "kept_by_commit a"
  shows "kept_by_commit (snd (del_user name a))"
proof -
  have "a_objects (snd (del_user name a)) = a_objects a \<and> a_stored (snd (del_user name a)) = a_stored a \<and>
      a_changed (snd (del_user name a)) = a_changed a"
    using preservesD [OF del_user_certs_in_place in_place_refl] del_user_certs_unchanged
    by (auto simp: del_user_def Let_def in_place_def touches_def split: option.split)
  then show ?thesis using assms by (simp add: kept_by_commit_iff)
qed

lemma replace_password_touches:
  fixes E security appname name password uid a
  defines "r \<equiv> replace_password E security appname name password uid a"
  shows "touches uid a (snd r) \<and> (uid \<in> a_changed (snd r) \<or> a_objects (snd r) uid = a_objects a uid)"
    and "fst r = Inr () \<Longrightarrow> password \<noteq> None \<Longrightarrow>
      security (Some name) password None None appname None = Inr (Some x, k) \<Longrightarrow> uid \<in> a_changed (snd r)"
proof -
  show "touches uid a (snd r) \<and> (uid \<in> a_changed (snd r) \<or> a_objects (snd r) uid = a_objects a uid)"
  proof (cases "password = None")
    case True
    then show ?thesis by (simp add: r_def replace_password_def meth_simps)
  next
    case False
    then show ?thesis
      by (cases "security (Some name) password None None appname None"; cases "a_objects a uid")
        (auto simp: r_def replace_password_def m_bind_def meth_simps with_user_def set_user_def mark_changed_def
          touches_def change_password_def split: sum.splits prod.splits option.splits if_splits)
  qed
  assume "fst r = Inr ()" "password \<noteq> None" "security (Some name) password None None appname None = Inr (Some x, k)"
  then show "uid \<in> a_changed (snd r)"
    by (cases "a_objects a uid") (auto simp: r_def replace_password_def m_bind_def meth_simps with_user_def
        set_user_def mark_changed_def split: sum.splits)
qed

lemma change_cert_kept:
  fixes E security appname name pem password a
  defines "r \<equiv> change_cert E security appname name pem password a"
  assumes "kept_by_commit a"
    and "pem = None \<or> fst r = Inr () \<and> password \<noteq> None \<and>
      (\<exists>x k. security (Some name) password None None appname None = Inr (Some x, k))"
  shows "kept_by_commit (snd r)"
proof (cases "a_users_by_name a name")
  case None
  then show ?thesis using assms(2) by (simp add: r_def change_cert_def)
next
  case (Some uid)
  obtain x b where b: "replace_certs E uid pem a = (x, b)" by fastforce
  have tb: "touches uid a b" using replace_certs_in_place [of uid a E pem] by (simp add: b in_place_def)
  let ?c = "replace_password E security appname name password uid b"
  have r: "r = (case x of Inl e \<Rightarrow> (Inl e, b) | Inr _ \<Rightarrow> ?c)"
    by (simp add: r_def change_cert_halves Some m_bind_def b split: sum.split)
  note c = replace_password_touches [where uid = uid and a = b and E = E and security = security and appname = appname and name = name and password = password]
  show ?thesis
  proof (cases "pem = None")
    case True
    then have b: "b = a" and "x = Inr ()" using b by (simp_all add: replace_certs_def meth_simps)
    then have "r = ?c" by (simp add: r)
    moreover have "kept_by_commit (snd ?c)" using touches_kept [OF assms(2)] c(1) unfolding b by blast
    ultimately show ?thesis by simp
  next
    case False
    with assms(3) obtain h k where pw: "fst r = Inr ()" "password \<noteq> None"
        "security (Some name) password None None appname None = Inr (Some h, k)" by blast
    then have "r = ?c" by (cases x) (auto simp: r)
    then show ?thesis
      using touches_kept [OF assms(2) touches_trans [OF tb conjunct1 [OF c(1)]]] c(2) [OF _ pw(2,3)] pw(1) by simp
  qed
qed

section \<open>Properties\<close>

text \<open>
  C10: the user database stays consistent through every operation, with a certificate, a false one or
  none, also when it raises: users, their names, the certificate ids and the certificate text agree. Every
  live certificate is found under its user, no other certificate under a user, the
  placeholder certificate under none, and the text holds exactly these certificates. What a commit stores
  is this database, if it was before, except after changing certificates without assigning a password.
\<close>

theorem accounts_consistent:
  assumes "admin_inv E W nobody a" "pem_set W" "nobody \<in> W" "given pem \<longrightarrow> the pem \<in> W" "a_objects a oid = None"
  shows "(let added = add_user E security appname oid salt name pem password a;
       deleted = del_user name a;
       changed = change_cert E security appname name pem password a
     in admin_inv E W nobody (snd added) \<and> admin_inv E W nobody (snd deleted) \<and> admin_inv E W nobody (snd changed) \<and>
       (kept_by_commit a \<longrightarrow> kept_by_commit (snd added) \<and> kept_by_commit (snd deleted) \<and>
         (pem = None \<or> fst changed = Inr () \<and> password \<noteq> None \<and>
            (\<exists>x k. security (Some name) password None None appname None = Inr (Some x, k)) \<longrightarrow>
          kept_by_commit (snd changed))))"
proof -
  have U: "users_ok a" using assms(1) by (simp add: admin_inv_def)
  have pem: "\<And>q. pem = Some q \<Longrightarrow> q \<noteq> [] \<Longrightarrow> q \<in> W" using assms(4) by (auto simp: given_def)
  have change: "admin_inv E W nobody (snd (change_cert E security appname name pem password a))"
  proof (cases "a_users_by_name a name")
    case None
    then show ?thesis using assms(1) by (simp add: change_cert_halves)
  next
    case (Some uid)
    have "admin_inv E W nobody (snd (replace_certs E uid pem a))"
      by (rule replace_certs_inv(1) [OF assms(1-3)]) (use users_ok_name [OF U Some] pem in auto)
    then show ?thesis
      using Some preservesD [OF replace_password_inv]
      by (auto simp: change_cert_halves m_bind_def split: prod.splits sum.splits)
  qed
  show ?thesis
    unfolding Let_def
    by (intro conjI impI add_user_inv [OF assms(1,5)] del_user_inv(1) [OF assms(1-3)] change
        add_user_kept del_user_kept change_cert_kept pem)
qed

text \<open>
  A new database starts consistent, with the first user as its only user, under the
  id \<open>p64(2)\<close> that the server's own storage has, and with that user's certificate
  if one was given.
\<close>

theorem init_db_consistent:
  assumes "init_db Z E K nobody admin_oid user_oid salt name (Some pem) password = Inr a"
    and "pem_set W" "nobody \<in> W" "pem \<in> W"
  shows "admin_inv E W nobody a \<and> a_users a = [p64 Z 2 \<mapsto> p64 Z 2] \<and>
    a_users_by_name a = [name \<mapsto> p64 Z 2] \<and>
    (pem \<noteq> [] \<longrightarrow> (\<exists>der. get_der E pem = Inr der \<and> a_uids a der = Some (Some (p64 Z 2))))"
proof -
  let ?add = "add_user E (hash_password K) ''zerodb.com'' user_oid salt name (Some pem) password"
  from assms(1) obtain a0 where a0': "new_admin Z E admin_oid nobody = Inr a0"
    and run0: "(case ?add a0 of (Inl e, _) \<Rightarrow> Inl e
       | (Inr uid, a') \<Rightarrow> bindr (py_assert (uid = p64 Z 2)) (\<lambda>_. Inr (commit_users a'))) = Inr a"
    unfolding init_db_def bindr_eq_Inr by (elim exE conjE)
  obtain r a1 where r: "?add a0 = (r, a1)" by fastforce
  then have run: "?add a0 = (Inr (p64 Z 2), a1)" and a: "a = commit_users a1"
    using run0 unfolding r by (cases r; auto simp: bindr_eq_Inr)+
  obtain nd where a0: "a0 = \<lparr>a_objects = Map.empty, a_users = Map.empty, a_users_by_name = Map.empty,
            a_uids = [nd \<mapsto> None], a_certs = certs_text [nobody], a_stored = Map.empty, a_changed = {}\<rparr>"
    using new_admin_inv(2) [OF a0'] by blast
  from add_user_inv [OF new_admin_inv(1) [OF a0'] _ _, of user_oid "Some pem" W] run assms(4)
  have "admin_inv E W nobody a1"
    by (metis (no_types, lifting) a0 admin.select_convs(1) option.sel snd_conv)
  moreover have "user_oid = p64 Z 2 \<and> a_users a1 = [user_oid \<mapsto> user_oid] \<and>
      a_users_by_name a1 = [name \<mapsto> user_oid] \<and>
      (pem \<noteq> [] \<longrightarrow> (\<exists>der. get_der E pem = Inr der \<and> a_uids a1 der = Some (Some user_oid)))"
    using run
    by (cases "get_der E pem")
      (auto simp: add_user_def a0 m_bind_def meth_simps given_def add_user_cert_def with_user_def
        new_user_def Let_def split: prod.splits sum.splits if_splits)
  ultimately show ?thesis by (auto simp: a)
qed

text \<open>
  Deleting a user takes effect at once and on nobody else: the name is gone, none of
  the user's certificates is found any more, and all other certificates are as before.
\<close>

theorem del_user_revokes:
  assumes "admin_inv E W nobody a" "pem_set W" "nobody \<in> W" "a_users_by_name a name = Some uid"
  shows "\<exists>a'. del_user name a = (Inr (), a') \<and> a_users_by_name a' name = None \<and>
    (\<forall>der. a_uids a' der = (if a_uids a der = Some (Some uid) then None else a_uids a der))"
  using del_user_inv(2) [OF assms] by (cases "del_user name a") auto

text \<open>
  Changing a user's certificate makes the new one the only one of the user's that is
  found, and an empty one leaves the user without any; other users keep theirs.
\<close>

theorem change_cert_replaces:
  assumes "admin_inv E W nobody a" "pem_set W" "nobody \<in> W" "a_users_by_name a name = Some uid"
    and "pem \<in> W" "fst (change_cert E security appname name (Some pem) None a) = Inr ()"
  shows "\<exists>mine. (if pem = [] then mine = {} else \<exists>der. get_der E pem = Inr der \<and> mine = {der}) \<and>
    (\<forall>der. a_uids (snd (change_cert E security appname name (Some pem) None a)) der =
       (if der \<in> mine then Some (Some uid)
        else if a_uids a der = Some (Some uid) then None else a_uids a der))"
proof -
  have "users_ok a" using assms(1) by (simp add: admin_inv_def)
  then have uid: "a_users a uid = Some uid" using users_ok_name [OF _ assms(4)] by blast
  note spec = replace_certs_inv [OF assms(1-3) uid]
  have run: "change_cert E security appname name (Some pem) None a = replace_certs E uid (Some pem) a"
    using assms(4) by (simp add: change_cert_halves replace_password_def m_bind_def m_return_def
        split: prod.splits sum.splits)
  show ?thesis
  proof (cases "pem = []")
    case True
    then show ?thesis using spec(3) [of None] run by auto
  next
    case False
    then obtain der where "get_der E pem = Inr der" and
      "a_uids (snd (replace_certs E uid (Some pem) a)) =
        (\<lambda>d. if d = der then Some (Some uid) else if a_uids a d = Some (Some uid) then None else a_uids a d)"
      using spec(4) [of "Some pem" pem] assms(5,6) run by auto
    then show ?thesis using run False by (intro exI [of _ "{der}"]) simp
  qed
qed

text \<open>
  C40: A certificate that replaces the ones of a stored user, without a new password, is lost to the user object at
  the next commit: the ids and the text have it, the object that is read back has the old
  ones. If there were any, the user can neither be deleted nor be given other certificates any more, both raise
  KeyError; if there were none, the user can be deleted, and the certificate stays trusted and under the user's id.
\<close>

theorem replaced_certificate_lost:
  assumes "admin_inv E W nobody a" "pem_set W" "nobody \<in> W"
    and stored: "kept_by_commit a" "a_users_by_name a name = Some uid" "uid \<notin> a_changed a" "a_objects a uid = Some u"
    and pem: "pem \<in> W" "pem \<noteq> []" "get_der E pem = Inr der" "der \<notin> fst ` set (u_certs u)"
    and run: "change_cert E security appname name (Some pem) None a = (Inr (), a')"
    and b: "b = reload_users (commit_users a')"
  shows "a_uids b der = Some (Some uid) \<and> a_objects b uid = Some u \<and>
    (if u_certs u \<noteq> []
     then fst (del_user name b) = Inl KeyError \<and>
       (\<forall>q password. fst (change_cert E security appname name (Some q) password b) = Inl KeyError)
     else \<exists>c. del_user name b = (Inr (), c) \<and> a_users c uid = None \<and> a_users_by_name c name = None \<and>
       a_uids c der = Some (Some uid) \<and> a_certs c = a_certs a')"
proof -
  have U: "users_ok a" and X: "index_ok E W nobody (live_certs a) (a_uids a) (a_certs a)"
    using assms(1) by (simp_all add: admin_inv_def)
  have uid: "a_users a uid = Some uid" using users_ok_name [OF U stored(2)] by simp
  have half: "replace_certs E uid (Some pem) a = (Inr (), a')"
    using run stored(2) by (auto simp: change_cert_halves replace_password_def m_bind_def m_return_def
        split: prod.splits sum.splits)
  have same: "in_place uid a a'" using replace_certs_in_place [of uid a E "Some pem"] by (simp add: half)
  have "a_objects a uid = a_stored a uid" using stored(1,3) unfolding kept_by_commit_iff by blast
  then have u: "a_objects b uid = Some u"
    using same stored(3,4) by (simp add: b reload_users_def commit_users_def in_place_def touches_def)
  have names: "a_users b uid = Some uid" "a_users_by_name b name = Some uid" "a_uids b = a_uids a'" "a_certs b = a_certs a'"
    using same uid stored(2) by (simp_all add: b reload_users_def commit_users_def in_place_def)
  have "\<exists>d. get_der E pem = Inr d \<and> a_uids a' =
        (\<lambda>x. if x = d then Some (Some uid) else if a_uids a x = Some (Some uid) then None else a_uids a x)"
    using replace_certs_inv(4) [OF assms(1-3) uid _ refl pem(2)] half pem(1,2) by simp
  then have ids: "a_uids b = (\<lambda>x. if x = der then Some (Some uid) else if a_uids a x = Some (Some uid) then None else a_uids a x)"
    using pem(3) names(3) by simp
  then have new: "a_uids b der = Some (Some uid)" by simp
  show ?thesis
  proof (cases "u_certs u")
    case Nil
    then show ?thesis using u names(1,2,4) new by (simp add: del_user_def del_user_certs_def with_user_def meth_simps)
  next
    case (Cons c cs)
    obtain d p where c: "c = (d, p)" by fastforce
    have "(uid, d, p) \<in> live_certs a" using live_certs_user [OF uid stored(4)] Cons c by auto
    then have gone: "a_uids b d = None"
      using index_ok_holder [OF X] pem(4) Cons c ids by auto
    then have raises: "del_user_certs uid s = (Inl KeyError, s)" if "a_objects s uid = Some u" "a_uids s = a_uids b" for s
      using that by (simp add: del_user_certs_def with_user_def Cons c del_user_cert_def meth_simps)
    then show ?thesis
      using u names(1,2) new Cons by (simp add: del_user_def Let_def change_cert_def m_bind_def raises)
  qed
qed

section \<open>Instances\<close>

definition demo_accounts :: account_env where
  "demo_accounts = \<lparr>get_der = (\<lambda>p. if p = [] then Inl OtherError else Inr (''der-'' @ p)), sha256_of = rev\<rparr>"

definition demo_pems :: "string set" where
  "demo_pems = {''nobody'', ''cert-A'', ''cert-B''}"

definition demo_admin :: admin where
  "demo_admin = commit_users (snd (add_user demo_accounts (hash_password demo_kdf) ''zerodb.com'' (p64 demo_zodb 2) ''salt'' ''root''
     (Some ''cert-A'') (Some ''pass'') (projr (new_admin demo_zodb demo_accounts (p64 demo_zodb 1) ''nobody''))))"

lemma demo_pems_ok: "pem_set demo_pems" "''nobody'' \<in> demo_pems" "''cert-A'' \<in> demo_pems" "''cert-B'' \<in> demo_pems"
  by (simp_all add: pem_set_def demo_pems_def pem_ok_def pem_apart_def sep_def)

lemma demo_init:
  "init_db demo_zodb demo_accounts demo_kdf ''nobody'' (p64 demo_zodb 1) (p64 demo_zodb 2) ''salt'' ''root''
     (Some ''cert-A'') (Some ''pass'') = Inr demo_admin"
  by (simp add: init_db_def demo_admin_def new_admin_def demo_accounts_def add_user_def m_bind_def meth_simps
      hash_password_def kdf_salt_def demo_kdf_def given_def add_user_cert_def with_user_def new_user_def)

theorem init_db_consistent_witness:
  "admin_inv demo_accounts demo_pems ''nobody'' demo_admin \<and>
   a_users_by_name demo_admin ''root'' = Some (p64 demo_zodb 2)"
  using init_db_consistent [OF demo_init demo_pems_ok(1-3)] by simp

lemma demo_admin_inv: "admin_inv demo_accounts demo_pems ''nobody'' demo_admin"
proof -
  obtain a0 where a0: "new_admin demo_zodb demo_accounts (p64 demo_zodb 1) ''nobody'' = Inr a0"
    by (simp add: new_admin_def demo_accounts_def)
  obtain nd where "a0 = \<lparr>a_objects = Map.empty, a_users = Map.empty, a_users_by_name = Map.empty,
            a_uids = [nd \<mapsto> None], a_certs = certs_text [''nobody''], a_stored = Map.empty, a_changed = {}\<rparr>"
    using new_admin_inv(2) [OF a0] by blast
  then show ?thesis
    unfolding demo_admin_def a0 admin_inv_changed by (intro add_user_inv) (use new_admin_inv(1) [OF a0] demo_pems_ok in auto)
qed

lemma demo_ids: "''new'' \<noteq> p64 demo_zodb 2" "p64 demo_zodb 2 \<noteq> ''new''"
  by (auto simp: demo_zodb_def dest: arg_cong [of _ _ length])

lemma demo_admin_root:
  "a_users_by_name demo_admin ''root'' = Some (p64 demo_zodb 2)"
  "a_objects demo_admin ''new'' = None"
  "a_uids demo_admin ''der-cert-A'' = Some (Some (p64 demo_zodb 2))"
  "a_uids demo_admin ''der-cert-B'' = None"
  by (simp_all add: demo_admin_def new_admin_def demo_accounts_def add_user_def m_bind_def meth_simps
      hash_password_def kdf_salt_def demo_kdf_def given_def add_user_cert_def with_user_def new_user_def
      demo_ids)

lemma demo_kept: "kept_by_commit demo_admin" "a_changed demo_admin = {}"
proof -
  have "kept_by_commit (projr (new_admin demo_zodb demo_accounts (p64 demo_zodb 1) ''nobody''))"
    by (simp add: new_admin_def demo_accounts_def kept_by_commit_iff)
  then have "kept_by_commit (commit_users a)" if "kept_by_commit a" for a
    using that by (auto simp: kept_by_commit_iff commit_users_def)
  then show "kept_by_commit demo_admin"
    unfolding demo_admin_def by (blast intro: add_user_kept \<open>kept_by_commit (projr _)\<close>)
  show "a_changed demo_admin = {}" by (simp add: demo_admin_def commit_users_def)
qed

theorem accounts_consistent_witness:
  "let a = snd (add_user demo_accounts (hash_password demo_kdf) ''zerodb.com'' ''new'' ''salt'' ''joe'' (Some ''cert-B'') (Some ''pw'') demo_admin)
   in admin_inv demo_accounts demo_pems ''nobody'' a \<and> kept_by_commit a \<and>
      admin_inv demo_accounts demo_pems ''nobody'' (snd (del_user ''joe'' demo_admin))"
proof -
  have "given (Some ''cert-B'') \<longrightarrow> the (Some ''cert-B'') \<in> demo_pems" using demo_pems_ok(4) by simp
  from accounts_consistent [OF demo_admin_inv demo_pems_ok(1,2) this demo_admin_root(2)] demo_kept(1)
  show ?thesis unfolding Let_def by blast
qed

lemma demo_user:
  "\<exists>u. a_objects demo_admin (p64 demo_zodb 2) = Some u \<and> u_certs u = [(''der-cert-A'', ''cert-A'')]"
  by (simp add: demo_admin_def new_admin_def demo_accounts_def add_user_def m_bind_def meth_simps
      hash_password_def kdf_salt_def demo_kdf_def given_def add_user_cert_def with_user_def new_user_def Let_def)

theorem replaced_certificate_lost_witness:
  "\<exists>a'. change_cert demo_accounts (hash_password demo_kdf) ''zerodb.com'' ''root'' (Some ''cert-B'') None demo_admin = (Inr (), a') \<and>
     fst (del_user ''root'' (reload_users (commit_users a'))) = Inl KeyError"
proof -
  obtain u where u: "a_objects demo_admin (p64 demo_zodb 2) = Some u" "u_certs u = [(''der-cert-A'', ''cert-A'')]"
    using demo_user by blast
  obtain a' where a': "change_cert demo_accounts (hash_password demo_kdf) ''zerodb.com'' ''root'' (Some ''cert-B'') None demo_admin = (Inr (), a')"
    by (simp add: demo_admin_def new_admin_def demo_accounts_def add_user_def m_bind_def meth_simps
      hash_password_def kdf_salt_def demo_kdf_def given_def add_user_cert_def with_user_def new_user_def
      demo_zodb_def change_cert_def del_user_certs_def del_user_cert_def set_user_def)
  have "get_der demo_accounts ''cert-B'' = Inr ''der-cert-B''" by (simp add: demo_accounts_def)
  from replaced_certificate_lost [OF demo_admin_inv demo_pems_ok(1,2) demo_kept(1) demo_admin_root(1) _ u(1)
      demo_pems_ok(4) _ this _ a' refl] demo_kept(2) u(2) a'
  show ?thesis by auto
qed

theorem del_user_revokes_witness:
  "\<exists>a'. del_user ''root'' demo_admin = (Inr (), a') \<and> a_uids a' ''der-cert-A'' = None"
  using del_user_revokes [OF demo_admin_inv demo_pems_ok(1,2) demo_admin_root(1)] demo_admin_root(3) by fastforce

theorem change_cert_replaces_witness:
  "let a' = snd (change_cert demo_accounts (hash_password demo_kdf) ''zerodb.com'' ''root'' (Some ''cert-B'') None demo_admin)
   in a_uids a' ''der-cert-A'' = None \<and> a_uids a' ''der-cert-B'' = Some (Some (p64 demo_zodb 2))"
proof -
  have ok: "fst (change_cert demo_accounts (hash_password demo_kdf) ''zerodb.com'' ''root'' (Some ''cert-B'') None demo_admin) = Inr ()"
    by (simp add: demo_admin_def new_admin_def demo_accounts_def add_user_def m_bind_def meth_simps
      hash_password_def kdf_salt_def demo_kdf_def given_def add_user_cert_def with_user_def new_user_def
      demo_zodb_def change_cert_def del_user_certs_def del_user_cert_def set_user_def)
  show ?thesis
    using change_cert_replaces [OF demo_admin_inv demo_pems_ok(1,2) demo_admin_root(1) demo_pems_ok(4) ok]
      demo_admin_root
    by (auto simp: Let_def demo_accounts_def)
qed

end
