(* ===== verification/Transform.thy ===== *)
theory Transform
  imports Prelude "HOL-Library.AList"
begin

text \<open>
  zerodb/transform: compression and encryption of database records.
  \<^item> the global site manager \<open>_gsm\<close> as a record of its registrations: utilities by
    name, one map per interface (the unnamed registration is the default), and the
    encrypter classes in registration order;
  \<^item> compress_common.py: \<open>CommonCompressor\<close> and the module's \<open>compress\<close>/\<open>decompress\<close>;
  \<^item> encrypt_aes.py: \<open>AES256Encrypter\<close> and \<open>AES256EncrypterV0\<close>;
  \<^item> encrypt_common.py: \<open>CommonEncrypter\<close>, \<open>encrypt\<close>, \<open>decrypt\<close>,
    \<open>get_encryption_signature\<close> and \<open>init\<close>.
  The ciphers (zerodbext.aead and pycryptodome), sha256 and the random generator are
  parameters, collected in a record; what the code relies on is \<open>crypto_ok\<close>.
\<close>

section \<open>Compression\<close>

text \<open>A compressor object; \<open>_compress\<close> has its extra arguments already applied.\<close>

record compressor =
  c_name :: bytes
  c_compress :: "bytes \<Rightarrow> bytes"
  c_decompress :: "bytes \<Rightarrow> bytes res"

definition compressor_signature :: "compressor \<Rightarrow> bytes" where
  "compressor_signature c = (if c_name c = [] then [] else ''.c'' @ c_name c @ ''$'')"

definition compressor_compress :: "compressor \<Rightarrow> bytes \<Rightarrow> bytes" where
  "compressor_compress c data =
     (if \<not> startswith data (compressor_signature c) then
        let compressed = compressor_signature c @ c_compress c data in
        if length compressed < length data then compressed else data
      else data)"

definition compressor_decompress :: "compressor \<Rightarrow> bytes \<Rightarrow> bytes res" where
  "compressor_decompress c data =
     (if compressor_signature c \<noteq> [] \<and> startswith data (compressor_signature c)
      then c_decompress c (drop (length (compressor_signature c)) data)
      else Inr data)"

section \<open>The encrypter classes\<close>

datatype enc_class = AES256Encrypter | AES256EncrypterV0

fun class_name :: "enc_class \<Rightarrow> bytes" where
  "class_name AES256Encrypter = ''AES256-GCM''"
| "class_name AES256EncrypterV0 = ''AES256''"

fun class_iv_size :: "enc_class \<Rightarrow> nat" where
  "class_iv_size AES256Encrypter = 12"
| "class_iv_size AES256EncrypterV0 = 16"

definition key_size :: nat where "key_size = 32"

text \<open>
  An authenticated cipher: \<open>seal key iv data\<close> is the ciphertext and its tag,
  \<open>open_sealed key iv tag edata\<close> is \<open>None\<close> where the library raises CryptoError,
  \<open>reject_key\<close> is the exception that making the cipher from this key raises.
\<close>

record aead =
  seal :: "bytes option \<Rightarrow> bytes \<Rightarrow> bytes \<Rightarrow> bytes \<times> bytes"
  open_sealed :: "bytes option \<Rightarrow> bytes \<Rightarrow> bytes \<Rightarrow> bytes \<Rightarrow> bytes option"
  mac_len :: nat
  reject_key :: "bytes option \<Rightarrow> py_exc option"

record crypto =
  have_sodium :: bool
  sodium :: aead
  pycrypto :: aead
  sha256 :: "bytes \<Rightarrow> bytes"
  rand :: "nat \<Rightarrow> bytes"
  gsm_rank :: "(bytes \<times> enc_class) list \<Rightarrow> bytes \<times> enc_class \<Rightarrow> nat"

fun class_use_sodium :: "crypto \<Rightarrow> enc_class \<Rightarrow> bool" where
  "class_use_sodium P AES256Encrypter = have_sodium P"
| "class_use_sodium P AES256EncrypterV0 = False"

definition class_cipher :: "crypto \<Rightarrow> enc_class \<Rightarrow> aead" where
  "class_cipher P c = (if class_use_sodium P c then sodium P else pycrypto P)"

text \<open>An encrypter object. \<open>enc_id\<close> is its identity, which the registry compares.\<close>

record encrypter =
  enc_id :: nat
  enc_class_of :: enc_class
  enc_key :: "bytes option"

definition signature :: "encrypter \<Rightarrow> bytes" where
  "signature e = ''.e'' @ class_name (enc_class_of e) @ ''$''"

text \<open>\<open>_init_encryption(passphrase, key)\<close>: the key the object keeps.\<close>

definition init_encryption ::
  "crypto \<Rightarrow> enc_class \<Rightarrow> bytes option \<Rightarrow> bytes option \<Rightarrow> bytes option res" where
  "init_encryption P c passphrase key =
     bindr (case passphrase of
              Some p \<Rightarrow> bindr (py_assert (key = None)) (\<lambda>_. Inr (Some (sha256 P p)))
            | None \<Rightarrow> (case key of
                Some k \<Rightarrow> bindr (py_assert (length k = key_size)) (\<lambda>_. Inr (Some k))
              | None \<Rightarrow> Inr None))
       (\<lambda>k. if class_use_sodium P c
             then (case reject_key (sodium P) k of Some ex \<Rightarrow> Inl ex | None \<Rightarrow> Inr k)
             else Inr k)"

text \<open>\<open>_encrypt\<close>: IV, then tag, then ciphertext.\<close>

definition aes_encrypt :: "crypto \<Rightarrow> encrypter \<Rightarrow> bytes \<Rightarrow> bytes" where
  "aes_encrypt P e data =
     (let iv = rand P (class_iv_size (enc_class_of e));
          (edata, tag) = seal (class_cipher P (enc_class_of e)) (enc_key e) iv data
      in iv @ tag @ edata)"

text \<open>
  \<open>_decrypt\<close>: \<open>f.read(n)\<close> takes at most n bytes, \<open>f.read(-1)\<close> the rest. \<open>AES.new\<close> of PyCryptodome
  refuses an empty nonce.
\<close>

definition aes_decrypt :: "crypto \<Rightarrow> encrypter \<Rightarrow> bytes \<Rightarrow> bytes res" where
  "aes_decrypt P e edata =
     (let c = class_cipher P (enc_class_of e);
          iv_size = class_iv_size (enc_class_of e);
          iv = take iv_size edata;
          tag = take (mac_len c) (drop iv_size edata);
          data = drop (mac_len c) (drop iv_size edata)
      in if \<not> class_use_sodium P (enc_class_of e) \<and> iv = [] then Inl ValueError
         else case open_sealed c (enc_key e) iv tag data of
           Some d \<Rightarrow> Inr d
         | None \<Rightarrow> Inl WrongKeyError)"

section \<open>CommonEncrypter\<close>

definition encrypter_encrypt :: "crypto \<Rightarrow> encrypter \<Rightarrow> bytes \<Rightarrow> bool \<Rightarrow> bytes" where
  "encrypter_encrypt P e data no_cipher_name =
     (let sig = (if no_cipher_name then ''.e$'' else signature e)
      in sig @ aes_encrypt P e data)"

definition encrypter_decrypt :: "crypto \<Rightarrow> encrypter \<Rightarrow> bytes \<Rightarrow> bytes res" where
  "encrypter_decrypt P e data =
     (if startswith data (signature e) then aes_decrypt P e (drop (length (signature e)) data)
      else if startswith data ''.e$'' then aes_decrypt P e (drop 3 data)
      else Inr data)"

section \<open>The registry\<close>

record registry =
  compressors :: "(bytes \<times> compressor) list"
  encrypter_classes :: "(bytes \<times> enc_class) list"
  encrypters :: "(bytes \<times> encrypter) list"
  next_id :: nat

text \<open>\<open>getUtility(iface, name)\<close>; the default utility has the empty name.\<close>

definition getUtility :: "(bytes \<times> 'u) list \<Rightarrow> bytes \<Rightarrow> 'u res" where
  "getUtility regs name = (case map_of regs name of Some u \<Rightarrow> Inr u | None \<Rightarrow> Inl ComponentLookupError)"

definition compressor_register :: "registry \<Rightarrow> compressor \<Rightarrow> bool \<Rightarrow> registry" where
  "compressor_register g c is_default =
     (let g1 = g\<lparr>compressors := AList.update (c_name c) c (compressors g)\<rparr>
      in if is_default then g1\<lparr>compressors := AList.update [] c (compressors g1)\<rparr> else g1)"

definition decompress :: "registry \<Rightarrow> bytes \<Rightarrow> bytes res" where
  "decompress g data =
     (if startswith data ''.c'' then
        let name = py_slice data 2 (find_byte data (CHR ''$''))
        in bindr (getUtility (compressors g) name) (\<lambda>c. compressor_decompress c data)
      else Inr data)"

definition compress :: "registry \<Rightarrow> bytes \<Rightarrow> bytes" where
  "compress g data =
     (case getUtility (compressors g) [] of
        Inr c \<Rightarrow> compressor_compress c data
      | Inl e \<Rightarrow> data)"

text \<open>\<open>CommonEncrypter.register\<close>: without a default class nothing is registered.\<close>

definition encrypter_register :: "registry \<Rightarrow> encrypter \<Rightarrow> registry" where
  "encrypter_register g e =
     (case getUtility (encrypter_classes g) [] of
        Inl ex \<Rightarrow> g
      | Inr c \<Rightarrow>
          (let g1 = (if c = enc_class_of e
                     then g\<lparr>encrypters := AList.update [] e (encrypters g)\<rparr> else g)
           in g1\<lparr>encrypters := AList.update (class_name (enc_class_of e)) e (encrypters g1)\<rparr>))"

definition register_class :: "registry \<Rightarrow> enc_class \<Rightarrow> bool \<Rightarrow> registry" where
  "register_class g c is_default =
     (let g1 = g\<lparr>encrypter_classes := AList.update (class_name c) c (encrypter_classes g)\<rparr>
      in if is_default then g1\<lparr>encrypter_classes := AList.update [] c (encrypter_classes g1)\<rparr>
         else g1)"

text \<open>\<open>CommonEncrypter.__init__\<close>: the object is made, then registers itself.\<close>

definition encrypter_new ::
  "crypto \<Rightarrow> registry \<Rightarrow> enc_class \<Rightarrow> bytes option \<Rightarrow> bytes option \<Rightarrow> (encrypter \<times> registry) res" where
  "encrypter_new P g c passphrase key =
     bindr (init_encryption P c passphrase key)
       (\<lambda>k. let e = \<lparr>enc_id = next_id g, enc_class_of = c, enc_key = k\<rparr>
             in Inr (e, encrypter_register (g\<lparr>next_id := Suc (next_id g)\<rparr>) e))"

definition encrypt :: "crypto \<Rightarrow> registry \<Rightarrow> bytes \<Rightarrow> bool \<Rightarrow> bytes" where
  "encrypt P g data no_cipher_name =
     (case getUtility (encrypters g) [] of
        Inr e \<Rightarrow> encrypter_encrypt P e data no_cipher_name
      | Inl ex \<Rightarrow> data)"

definition get_encryption_signature :: "bytes \<Rightarrow> bytes option" where
  "get_encryption_signature data =
     (if startswith data ''.e'' then Some (py_slice data 2 (find_byte data (CHR ''$'')))
      else None)"

definition decrypt :: "crypto \<Rightarrow> registry \<Rightarrow> bytes \<Rightarrow> bytes res" where
  "decrypt P g data =
     (case get_encryption_signature data of
        Some sig \<Rightarrow> bindr (getUtility (encrypters g) sig) (\<lambda>e. encrypter_decrypt P e data)
      | None \<Rightarrow> Inr data)"

text \<open>
  \<open>unregisterUtility(utility)\<close> as \<open>init\<close> calls it names no registration, so it removes
  the default one, if that is this very object.
\<close>

definition unregister_default :: "registry \<Rightarrow> encrypter \<Rightarrow> registry" where
  "unregister_default g e =
     (if map_option enc_id (map_of (encrypters g) []) = Some (enc_id e)
      then g\<lparr>encrypters := AList.delete [] (encrypters g)\<rparr> else g)"

definition init_class ::
  "crypto \<Rightarrow> bytes option \<Rightarrow> bytes option \<Rightarrow> bytes \<times> enc_class \<Rightarrow> registry \<Rightarrow> registry res" where
  "init_class P passphrase key = (\<lambda>(name, c) g.
     if name = [] then Inr g
     else
       let g1 = (case getUtility (encrypters g) name of
                   Inr u \<Rightarrow> unregister_default g u | Inl ex \<Rightarrow> g)
       in bindr (encrypter_new P g1 c passphrase key)
            (\<lambda>(e, g2). Inr (encrypter_register g2 e)))"

text \<open>
  \<open>getUtilitiesFor\<close> gives the registered classes in an order that zope.component does not promise:
  that of a dictionary. \<open>gsm_rank\<close> stands for it, any ranking of the registrations.
\<close>

definition class_order :: "crypto \<Rightarrow> registry \<Rightarrow> (bytes \<times> enc_class) list" where
  "class_order P g = sort_key (gsm_rank P (encrypter_classes g)) (encrypter_classes g)"

lemma set_class_order [simp]: "set (class_order P g) = set (encrypter_classes g)"
  by (simp add: class_order_def)

definition init :: "crypto \<Rightarrow> bytes option \<Rightarrow> bytes option \<Rightarrow> registry \<Rightarrow> registry res" where
  "init P passphrase key g =
     foldr_res (init_class P passphrase key) (class_order P g) g"

text \<open>
  \<open>DB._init_default_crypto\<close>: the first class of \<open>DB.encrypter\<close> is the default, the
  others are registered to read older data; then one encrypter per class is made.
\<close>

definition register_defaults :: "enc_class list \<Rightarrow> compressor option \<Rightarrow> registry \<Rightarrow> registry" where
  "register_defaults classes default_compressor g =
     (let g1 = (case classes of
                  [] \<Rightarrow> g
                | c # cs \<Rightarrow> foldl (\<lambda>g c. register_class g c False) (register_class g c True) cs)
      in case default_compressor of None \<Rightarrow> g1 | Some z \<Rightarrow> compressor_register g1 z True)"

definition init_default_crypto ::
  "crypto \<Rightarrow> enc_class list \<Rightarrow> compressor option \<Rightarrow> bytes option \<Rightarrow> bytes option
     \<Rightarrow> registry \<Rightarrow> registry res" where
  "init_default_crypto P classes default_compressor passphrase key g =
     init P passphrase key (register_defaults classes default_compressor g)"

section \<open>What the code relies on\<close>

text \<open>
  Authenticated encryption: opening what was sealed with the same 256-bit key and IV
  gives the data back, and the tag has the length the cipher announces. A digest has
  32 bytes and \<open>rand n\<close> has n.
\<close>

definition aead_ok :: "aead \<Rightarrow> bool" where
  "aead_ok c \<longleftrightarrow>
     (\<forall>k iv d. length k = key_size \<longrightarrow>
        length (snd (seal c (Some k) iv d)) = mac_len c \<and>
        open_sealed c (Some k) iv (snd (seal c (Some k) iv d)) (fst (seal c (Some k) iv d)) = Some d)"

definition crypto_ok :: "crypto \<Rightarrow> bool" where
  "crypto_ok P \<longleftrightarrow> aead_ok (sodium P) \<and> aead_ok (pycrypto P) \<and>
     (\<forall>n. length (rand P n) = n) \<and> (\<forall>x. length (sha256 P x) = key_size) \<and>
     (\<forall>k. length k = key_size \<longrightarrow> reject_key (sodium P) (Some k) = None)"

definition key_ok :: "encrypter \<Rightarrow> bool" where
  "key_ok e \<longleftrightarrow> (\<exists>k. enc_key e = Some k \<and> length k = key_size)"

lemma aead_okD:
  assumes "aead_ok c" "length k = key_size" "seal c (Some k) iv d = (ed, tag)"
  shows "length tag = mac_len c" "open_sealed c (Some k) iv tag ed = Some d"
  using assms unfolding aead_ok_def by (metis snd_conv, metis fst_conv snd_conv)

lemma crypto_ok_cipher: "crypto_ok P \<Longrightarrow> aead_ok (class_cipher P c)"
  by (simp add: crypto_ok_def class_cipher_def)

section \<open>One encrypter\<close>

lemma aes_roundtrip:
  assumes "crypto_ok P" "key_ok e"
  shows "aes_decrypt P e (aes_encrypt P e d) = Inr d"
proof -
  let ?c = "class_cipher P (enc_class_of e)"
  let ?iv = "rand P (class_iv_size (enc_class_of e))"
  obtain k where k: "enc_key e = Some k" "length k = key_size"
    using assms by (auto simp: key_ok_def)
  obtain ed tag where s: "seal ?c (Some k) ?iv d = (ed, tag)" by fastforce
  have "length tag = mac_len ?c" "open_sealed ?c (Some k) ?iv tag ed = Some d"
    using aead_okD [OF crypto_ok_cipher [OF assms(1)] k(2) s] by simp_all
  moreover have "length ?iv = class_iv_size (enc_class_of e)"
    using assms(1) by (simp add: crypto_ok_def)
  moreover have "class_iv_size (enc_class_of e) > 0" by (cases "enc_class_of e") simp_all
  ultimately show ?thesis
    by (auto simp: aes_encrypt_def aes_decrypt_def k s Let_def)
qed

lemma class_name_no_dollar: "CHR ''$'' \<notin> set (class_name c)"
  by (cases c) auto

lemma class_name_nonempty [simp]: "class_name c \<noteq> []"
  by (cases c) auto

lemma class_name_nonempty' [simp]: "[] \<noteq> class_name c"
  by (cases c) auto

lemma class_name_inj [simp]: "class_name c = class_name c' \<longleftrightarrow> c = c'"
  by (cases c; cases c') auto

lemma encrypt_signature:
  "get_encryption_signature (encrypter_encrypt P e d nn) =
     Some (if nn then [] else class_name (enc_class_of e))"
proof (cases nn)
  case True
  then show ?thesis
    by (simp add: get_encryption_signature_def encrypter_encrypt_def py_slice_def slice_bound_def)
next
  case False
  have pre: "encrypter_encrypt P e d nn = ''.e'' @ class_name (enc_class_of e) @ CHR ''$'' # aes_encrypt P e d"
    using False by (simp add: encrypter_encrypt_def signature_def)
  have "find_byte (''.e'' @ class_name (enc_class_of e) @ CHR ''$'' # aes_encrypt P e d) (CHR ''$'')
      = int (length (''.e'' @ class_name (enc_class_of e)))"
    using class_name_no_dollar [of "enc_class_of e"]
    by (subst append_assoc [symmetric], subst find_byte_append) auto
  then show ?thesis
    unfolding pre get_encryption_signature_def
    using False py_slice_prefix [of "''.e''" "class_name (enc_class_of e)"]
    by (simp add: numeral_2_eq_2)
qed

lemma encrypter_roundtrip:
  assumes "crypto_ok P" "key_ok e" "enc_class_of e' = enc_class_of e" "enc_key e' = enc_key e"
  shows "encrypter_decrypt P e' (encrypter_encrypt P e d nn) = Inr d"
proof -
  have sig: "signature e' = signature e" using assms by (simp add: signature_def)
  have dec: "aes_decrypt P e' x = aes_decrypt P e x" for x
    by (simp add: aes_decrypt_def Let_def assms(3,4))
  have "\<not> startswith (''.e$'' @ x) (signature e)" for x
    by (cases "enc_class_of e") (auto simp: signature_def)
  then show ?thesis
    using aes_roundtrip [OF assms(1,2), of d]
    by (auto simp: encrypter_decrypt_def encrypter_encrypt_def sig dec Let_def)
qed

section \<open>The registry\<close>

text \<open>
  Looking a name up after each registry operation. The lookups are the only thing the
  rest of the theory reads, so these equations carry the proofs.
\<close>

abbreviation enc_at :: "registry \<Rightarrow> bytes \<Rightarrow> encrypter option" where
  "enc_at g \<equiv> map_of (encrypters g)"

abbreviation class_at :: "registry \<Rightarrow> bytes \<Rightarrow> enc_class option" where
  "class_at g \<equiv> map_of (encrypter_classes g)"

lemma getUtility_map_of:
  "getUtility regs n = (case map_of regs n of Some u \<Rightarrow> Inr u | None \<Rightarrow> Inl ComponentLookupError)"
  by (simp add: getUtility_def)

lemma enc_at_register:
  "enc_at (encrypter_register g e) n =
     (if class_at g [] = None then enc_at g n
      else if n = class_name (enc_class_of e) then Some e
      else if n = [] \<and> class_at g [] = Some (enc_class_of e) then Some e
      else enc_at g n)"
  by (auto simp: encrypter_register_def getUtility_def update_conv' split: option.splits)

lemma enc_at_unregister:
  "enc_at (unregister_default g e) n =
     (if n = [] \<and> map_option enc_id (enc_at g []) = Some (enc_id e) then None else enc_at g n)"
  by (auto simp: unregister_default_def delete_conv')

lemma register_frame [simp]:
  "encrypter_classes (encrypter_register g e) = encrypter_classes g"
  "next_id (encrypter_register g e) = next_id g"
  "compressors (encrypter_register g e) = compressors g"
  by (auto simp: encrypter_register_def Let_def split: sum.splits)

lemma unregister_frame [simp]:
  "encrypter_classes (unregister_default g e) = encrypter_classes g"
  "next_id (unregister_default g e) = next_id g"
  "compressors (unregister_default g e) = compressors g"
  by (auto simp: unregister_default_def)

text \<open>
  The registry invariant: a named encrypter is of the class of that name, and two
  registrations with one identity are one object, made before \<open>next_id\<close>.
\<close>

definition registry_inv :: "registry \<Rightarrow> bool" where
  "registry_inv g \<longleftrightarrow>
     (\<forall>n e. enc_at g n = Some e \<longrightarrow> n = [] \<or> n = class_name (enc_class_of e)) \<and>
     (\<forall>n e. enc_at g n = Some e \<longrightarrow> enc_id e < next_id g) \<and>
     (\<forall>n e n' e'. enc_at g n = Some e \<longrightarrow> enc_at g n' = Some e' \<longrightarrow> enc_id e = enc_id e' \<longrightarrow> e = e')"

text \<open>
  What \<open>init_class\<close> does for one named class: it fails only where \<open>_init_encryption\<close>
  does; otherwise the class has a new encrypter \<open>e\<close> under its name, and \<open>e\<close> is the
  default if the class is the default class.
\<close>

definition fresh_encrypter :: "registry \<Rightarrow> enc_class \<Rightarrow> bytes option \<Rightarrow> encrypter" where
  "fresh_encrypter g c k = \<lparr>enc_id = next_id g, enc_class_of = c, enc_key = k\<rparr>"

definition enc_after ::
  "registry \<Rightarrow> bytes \<Rightarrow> enc_class \<Rightarrow> bytes option \<Rightarrow> bytes \<Rightarrow> encrypter option" where
  "enc_after g n c k = (\<lambda>m. if m = class_name c then Some (fresh_encrypter g c k)
          else if m = [] then
            (if class_at g [] = Some c then Some (fresh_encrypter g c k)
             else if \<exists>u d. enc_at g n = Some u \<and> enc_at g [] = Some d \<and> enc_id d = enc_id u
               then None else enc_at g [])
          else enc_at g m)"

lemma init_class_result:
  assumes "n \<noteq> []" "class_at g [] \<noteq> None" "init_class P pw key (n, c) g = Inr g'"
  obtains k where "init_encryption P c pw key = Inr k"
    and "enc_at g' = enc_after g n c k"
    and "encrypter_classes g' = encrypter_classes g" "next_id g' = Suc (next_id g)"
    and "compressors g' = compressors g"
proof -
  let ?g1 = "case getUtility (encrypters g) n of Inr u \<Rightarrow> unregister_default g u | Inl ex \<Rightarrow> g"
  have frame: "encrypter_classes ?g1 = encrypter_classes g" "next_id ?g1 = next_id g"
    "compressors ?g1 = compressors g" by (auto split: sum.splits)
  have g1: "enc_at ?g1 = (\<lambda>m. if m = [] \<and> (\<exists>u d. enc_at g n = Some u \<and> enc_at g [] = Some d \<and> enc_id d = enc_id u)
        then None else enc_at g m)"
    by (auto simp: getUtility_def enc_at_unregister fun_eq_iff split: option.splits)
  from assms obtain k where k: "init_encryption P c pw key = Inr k"
    and g': "g' = encrypter_register (encrypter_register (?g1\<lparr>next_id := Suc (next_id ?g1)\<rparr>)
       (fresh_encrypter ?g1 c k)) (fresh_encrypter ?g1 c k)"
    by (auto simp: init_class_def encrypter_new_def bindr_eq_Inr Let_def fresh_encrypter_def)
  have f: "fresh_encrypter ?g1 c k = fresh_encrypter g c k"
    by (simp add: fresh_encrypter_def frame)
  have "enc_at g' = enc_after g n c k"
    unfolding g' f using assms(1,2)
    by (auto simp: enc_after_def fun_eq_iff enc_at_register frame g1 fresh_encrypter_def)
  then show thesis
    using that k g' frame by simp
qed

definition derived_key :: "crypto \<Rightarrow> bytes option \<Rightarrow> bytes option \<Rightarrow> bytes option" where
  "derived_key P passphrase key =
     (case passphrase of Some p \<Rightarrow> Some (sha256 P p) | None \<Rightarrow> key)"

lemma init_encryption_key:
  assumes "init_encryption P c pw key = Inr k"
  shows "k = derived_key P pw key"
  using assms by (auto simp: init_encryption_def derived_key_def bindr_eq_Inr split: option.splits if_splits)

lemma init_encryption_length:
  assumes "init_encryption P c pw key = Inr k" "crypto_ok P" "k = Some b"
  shows "length b = key_size"
  using assms by (auto simp: init_encryption_def crypto_ok_def bindr_eq_Inr split: option.splits if_splits)

lemma init_class_inv:
  assumes "registry_inv g" "class_at g [] \<noteq> None"
    "init_class P pw key (class_name c, c) g = Inr g'"
  shows "registry_inv g'"
proof -
  from init_class_result [OF class_name_nonempty assms(2,3)] obtain k where
    e': "enc_at g' = enc_after g (class_name c) c k" and n': "next_id g' = Suc (next_id g)" by blast
  have old: "e = fresh_encrypter g c k \<and> (m = [] \<or> m = class_name c) \<or> enc_at g m = Some e"
    if "enc_at g' m = Some e" for m e
    using that unfolding e' enc_after_def by (auto split: if_splits)
  have inv: "\<And>m e. enc_at g m = Some e \<Longrightarrow> m = [] \<or> m = class_name (enc_class_of e)"
    "\<And>m e. enc_at g m = Some e \<Longrightarrow> enc_id e < next_id g"
    "\<And>m e m' e'. enc_at g m = Some e \<Longrightarrow> enc_at g m' = Some e' \<Longrightarrow> enc_id e = enc_id e' \<Longrightarrow> e = e'"
    using assms(1) by (auto simp: registry_inv_def)
  show ?thesis
    unfolding registry_inv_def n'
  proof (intro conjI allI impI)
    fix m e assume "enc_at g' m = Some e"
    from old [OF this] inv(1) show "m = [] \<or> m = class_name (enc_class_of e)"
      by (auto simp: fresh_encrypter_def)
  next
    fix m e assume "enc_at g' m = Some e"
    from old [OF this] inv(2) show "enc_id e < Suc (next_id g)"
      by (auto simp: fresh_encrypter_def less_Suc_eq)
  next
    fix m e m' e'
    assume "enc_at g' m = Some e" and "enc_at g' m' = Some e'" and ids: "enc_id e = enc_id e'"
    then consider "e = fresh_encrypter g c k" "e' = fresh_encrypter g c k"
      | "e = fresh_encrypter g c k" "enc_at g m' = Some e'"
      | "enc_at g m = Some e" "e' = fresh_encrypter g c k"
      | "enc_at g m = Some e" "enc_at g m' = Some e'"
      using old by blast
    then show "e = e'"
      by cases (use inv(2) [of m e] inv(2) [of m' e'] inv(3) [OF _ _ ids] ids in
          \<open>simp_all add: fresh_encrypter_def\<close>)
  qed
qed

text \<open>The state of \<open>init\<close> after the classes \<open>D\<close> have been processed.\<close>

definition initialized ::
  "bytes option \<Rightarrow> enc_class \<Rightarrow> enc_class set \<Rightarrow> registry \<Rightarrow> bool" where
  "initialized K c0 D g \<longleftrightarrow>
     registry_inv g \<and> class_at g [] = Some c0 \<and>
     (\<forall>c \<in> D. \<exists>e. enc_at g (class_name c) = Some e \<and> enc_class_of e = c \<and> enc_key e = K) \<and>
     (c0 \<in> D \<longrightarrow> enc_at g [] = enc_at g (class_name c0))"

lemma init_class_initialized:
  assumes J: "initialized (derived_key P pw key) c0 D g"
    and step: "init_class P pw key (class_name c, c) g = Inr g'"
  shows "initialized (derived_key P pw key) c0 (insert c D) g'"
proof -
  have c0: "class_at g [] = Some c0" and inv: "registry_inv g"
    using J by (auto simp: initialized_def)
  then have "class_at g [] \<noteq> None" by simp
  from init_class_result [OF class_name_nonempty this step] obtain k where
    k: "init_encryption P c pw key = Inr k" and
    e': "enc_at g' = enc_after g (class_name c) c k" and cl: "encrypter_classes g' = encrypter_classes g" by blast
  have key: "enc_key (fresh_encrypter g c k) = derived_key P pw key"
    using init_encryption_key [OF k] by (simp add: fresh_encrypter_def)
  have named: "\<exists>e. enc_at g' (class_name d) = Some e \<and> enc_class_of e = d \<and>
      enc_key e = derived_key P pw key" if "d \<in> insert c D" for d
  proof (cases "d = c")
    case True
    then show ?thesis using key unfolding e' enc_after_def by (simp add: fresh_encrypter_def)
  next
    case False
    with that J show ?thesis unfolding e' enc_after_def by (simp add: initialized_def)
  qed
  have default: "enc_at g' [] = enc_at g' (class_name c0)" if "c0 \<in> insert c D"
  proof (cases "c0 = c")
    case True
    then show ?thesis unfolding e' enc_after_def by (simp add: c0)
  next
    case False
    with that have "c0 \<in> D" by simp
    with J obtain e0 where e0: "enc_at g (class_name c0) = Some e0" "enc_class_of e0 = c0"
      and "enc_at g [] = enc_at g (class_name c0)" by (auto simp: initialized_def)
    then have e0': "enc_at g [] = Some e0" by simp
    have "enc_id e0 \<noteq> enc_id u" if u: "enc_at g (class_name c) = Some u" for u
    proof
      assume "enc_id e0 = enc_id u"
      then have "e0 = u" using inv e0(1) u unfolding registry_inv_def by blast
      moreover have "class_name c = class_name (enc_class_of u)"
        using inv u class_name_nonempty unfolding registry_inv_def by blast
      ultimately show False using e0(2) False by simp
    qed
    then show ?thesis unfolding e' enc_after_def using False e0 e0' by (auto simp: c0)
  qed
  show ?thesis
    unfolding initialized_def
    using named default init_class_inv [OF inv _ step] c0 cl by simp
qed

lemma init_fold_initialized:
  assumes "foldr_res (init_class P pw key) cs g = Inr g'"
    and "\<forall>(n, c) \<in> set cs. n = [] \<or> n = class_name c"
    and "initialized (derived_key P pw key) c0 D g"
  shows "initialized (derived_key P pw key) c0 (D \<union> {c. (class_name c, c) \<in> set cs}) g'"
  using assms
proof (induction cs arbitrary: g D)
  case Nil
  then show ?case by simp
next
  case (Cons nc cs)
  obtain n c where nc: "nc = (n, c)" by fastforce
  from Cons.prems(1) obtain h where h: "init_class P pw key (n, c) g = Inr h"
    "foldr_res (init_class P pw key) cs h = Inr g'" by (auto simp: bindr_eq_Inr nc)
  show ?case
  proof (cases "n = []")
    case True
    with h(1) have "h = g" by (simp add: init_class_def)
    with Cons.IH [OF h(2)] Cons.prems True show ?thesis by (simp add: nc)
  next
    case False
    with Cons.prems have n: "n = class_name c" by (simp add: nc)
    have "initialized (derived_key P pw key) c0 (insert c D) h"
      using init_class_initialized [OF Cons.prems(3)] h(1) n by simp
    from Cons.IH [OF h(2) _ this] Cons.prems(2) show ?thesis
      by (simp add: nc n Un_commute insert_commute Collect_disj_eq)
  qed
qed

section \<open>From registered classes to a working registry\<close>

definition classes_wf :: "registry \<Rightarrow> bool" where
  "classes_wf g \<longleftrightarrow> distinct (map fst (encrypter_classes g)) \<and>
     (\<forall>n c. class_at g n = Some c \<longrightarrow> n = [] \<or> n = class_name c)"

lemma classes_wf_set:
  "classes_wf g \<Longrightarrow> \<forall>(n, c) \<in> set (encrypter_classes g). n = [] \<or> n = class_name c"
  unfolding classes_wf_def by (auto dest: map_of_is_SomeI)

lemma classes_wf_order:
  "classes_wf g \<Longrightarrow> \<forall>(n, c) \<in> set (class_order P g). n = [] \<or> n = class_name c"
  unfolding set_class_order by (rule classes_wf_set)

lemma class_at_register:
  "class_at (register_class g c is_default) =
     (if is_default then (class_at g)(class_name c \<mapsto> c, [] \<mapsto> c) else (class_at g)(class_name c \<mapsto> c))"
  by (auto simp: register_class_def Let_def update_conv')

lemma classes_wf_register:
  assumes "classes_wf g"
  shows "classes_wf (register_class g c is_default)"
proof -
  have "distinct (map fst (encrypter_classes (register_class g c is_default)))"
    using assms by (simp add: classes_wf_def register_class_def Let_def distinct_update)
  moreover have "n = [] \<or> n = class_name d"
    if "class_at (register_class g c is_default) n = Some d" for n d
    using that assms unfolding class_at_register classes_wf_def by (auto split: if_splits)
  ultimately show ?thesis unfolding classes_wf_def by blast
qed

lemma register_class_encrypters [simp]:
  "encrypters (register_class g c is_default) = encrypters g"
  "next_id (register_class g c is_default) = next_id g"
  by (simp_all add: register_class_def Let_def)

lemma register_classes_fold:
  assumes "classes_wf g" "class_at g [] = Some c0"
    and "g' = foldl (\<lambda>g c. register_class g c False) g cs"
  shows "classes_wf g' \<and> class_at g' [] = Some c0 \<and> encrypters g' = encrypters g \<and>
    next_id g' = next_id g \<and>
    (\<forall>c. c \<in> set cs \<or> class_at g (class_name c) = Some c \<longrightarrow> class_at g' (class_name c) = Some c)"
  using assms
proof (induction cs arbitrary: g)
  case Nil
  then show ?case by simp
next
  case (Cons c cs)
  have "classes_wf (register_class g c False)" "class_at (register_class g c False) [] = Some c0"
    using Cons.prems(1,2) classes_wf_register by (auto simp: class_at_register)
  from Cons.IH [OF this] Cons.prems(3) show ?case
    by (simp add: class_at_register)
qed

lemma init_total:
  assumes "crypto_ok P" "initialized (derived_key P pw key) c0 D g"
    and "case pw of Some p \<Rightarrow> key = None | None \<Rightarrow> \<exists>k. key = Some k \<and> length k = key_size"
    and "\<forall>(n, c) \<in> set cs. n = [] \<or> n = class_name c"
  shows "\<exists>g'. foldr_res (init_class P pw key) cs g = Inr g'"
  using assms(2,4)
proof (induction cs arbitrary: g D)
  case Nil
  then show ?case by simp
next
  case (Cons nc cs)
  obtain n c where nc: "nc = (n, c)" by fastforce
  show ?case
  proof (cases "n = []")
    case True
    with Cons show ?thesis by (simp add: nc init_class_def)
  next
    case False
    with Cons.prems have n: "n = class_name c" by (simp add: nc)
    have "\<exists>k. init_encryption P c pw key = Inr k"
      using assms(1,3) by (auto simp: init_encryption_def crypto_ok_def split: option.splits)
    then obtain h where h: "init_class P pw key (class_name c, c) g = Inr h"
      by (auto simp: init_class_def encrypter_new_def Let_def)
    from Cons.IH [OF init_class_initialized [OF Cons.prems(1) h]] Cons.prems(2) show ?thesis
      by (auto simp: nc n h)
  qed
qed

text \<open>
  A registry ready to encrypt: the default encrypter has a 256-bit key, and the
  encrypter registered under its class's name has the same class and key.
\<close>

definition encryption_ready :: "registry \<Rightarrow> bool" where
  "encryption_ready g \<longleftrightarrow>
     (\<exists>e e'. enc_at g [] = Some e \<and> key_ok e \<and> enc_at g (class_name (enc_class_of e)) = Some e' \<and>
        enc_class_of e' = enc_class_of e \<and> enc_key e' = enc_key e)"

text \<open>When a byte string survives encryption and decryption.\<close>

definition encryption_ok :: "crypto \<Rightarrow> registry \<Rightarrow> bytes \<Rightarrow> bool" where
  "encryption_ok P g d \<longleftrightarrow> crypto_ok P \<and>
     (if enc_at g [] = None then \<not> startswith d ''.e'' else encryption_ready g)"

lemma encrypt_roundtrip:
  assumes "encryption_ok P g d"
  shows "decrypt P g (encrypt P g d nn) = Inr d"
proof (cases "enc_at g []")
  case None
  with assms show ?thesis
    by (simp add: encryption_ok_def encrypt_def decrypt_def getUtility_def get_encryption_signature_def)
next
  case (Some e)
  with assms obtain e' where e': "key_ok e" "enc_at g (class_name (enc_class_of e)) = Some e'"
    "enc_class_of e' = enc_class_of e" "enc_key e' = enc_key e" and P: "crypto_ok P"
    by (auto simp: encryption_ok_def encryption_ready_def)
  have enc: "encrypt P g d nn = encrypter_encrypt P e d nn"
    by (simp add: encrypt_def getUtility_def Some)
  show ?thesis
    using encrypter_roundtrip [OF P e'(1) e'(3,4)] encrypter_roundtrip [OF P e'(1) refl refl]
    by (simp add: enc decrypt_def encrypt_signature getUtility_def Some e'(2))
qed

interpretation encryption: codec
  "\<lambda>(P, g, nn). encryption_ok P g" "\<lambda>(P, g, nn) d. encrypt P g d nn" "\<lambda>(P, g, nn). decrypt P g"
  by unfold_locales (auto simp: encrypt_roundtrip)

section \<open>Compression round trip\<close>

abbreviation compressor_at :: "registry \<Rightarrow> bytes \<Rightarrow> compressor option" where
  "compressor_at g \<equiv> map_of (compressors g)"

text \<open>
  When a byte string survives compression: it does not itself start with the marker
  \<open>.c\<close>, and the default compressor is registered under its name, without a \<open>$\<close> in it,
  with a decompression that inverts its compression.
\<close>

definition compression_ok :: "registry \<Rightarrow> bytes \<Rightarrow> bool" where
  "compression_ok g d \<longleftrightarrow> \<not> startswith d ''.c'' \<and>
     (case compressor_at g [] of
        None \<Rightarrow> True
      | Some c \<Rightarrow> c_name c \<noteq> [] \<longrightarrow> CHR ''$'' \<notin> set (c_name c) \<and>
          (case compressor_at g (c_name c) of
             None \<Rightarrow> False
           | Some c' \<Rightarrow> c_name c' = c_name c \<and> c_decompress c' (c_compress c d) = Inr d))"

lemma compress_length: "length (compress g d) \<le> length d"
  by (auto simp: compress_def compressor_compress_def Let_def split: sum.splits)

lemma decompress_marked:
  assumes "c_name c \<noteq> []" "CHR ''$'' \<notin> set (c_name c)"
    "compressor_at g (c_name c) = Some c'" "c_name c' = c_name c"
  shows "decompress g (compressor_signature c @ x) = c_decompress c' x"
proof -
  have sig: "compressor_signature c @ x = ''.c'' @ c_name c @ CHR ''$'' # x"
    using assms(1) by (simp add: compressor_signature_def)
  have "find_byte (''.c'' @ c_name c @ CHR ''$'' # x) (CHR ''$'') = int (length (''.c'' @ c_name c))"
    using assms(2) by (subst append_assoc [symmetric], subst find_byte_append) auto
  then have "py_slice (''.c'' @ c_name c @ CHR ''$'' # x) 2 (find_byte (''.c'' @ c_name c @ CHR ''$'' # x) (CHR ''$'')) = c_name c"
    using py_slice_prefix [of "''.c''" "c_name c"] by (simp add: numeral_2_eq_2)
  moreover have "compressor_signature c' = compressor_signature c" "compressor_signature c \<noteq> []"
    using assms(1,4) by (simp_all add: compressor_signature_def)
  then have "compressor_decompress c' (compressor_signature c @ x) = c_decompress c' x"
    by (simp add: compressor_decompress_def)
  ultimately show ?thesis
    unfolding decompress_def using assms(3) by (simp add: sig getUtility_def Let_def)
qed

lemma compress_roundtrip:
  assumes "compression_ok g d"
  shows "decompress g (compress g d) = Inr d"
proof -
  have plain: "decompress g d = Inr d"
    using assms by (simp add: compression_ok_def decompress_def)
  show ?thesis
  proof (cases "compress g d = d")
    case True
    with plain show ?thesis by simp
  next
    case False
    then obtain c where c: "compressor_at g [] = Some c"
      and z: "compress g d = compressor_signature c @ c_compress c d" and "\<not> startswith d (compressor_signature c)"
      by (auto simp: compress_def compressor_compress_def getUtility_def Let_def
          split: option.splits if_splits)
    then have "c_name c \<noteq> []" by (auto simp: compressor_signature_def)
    with assms c obtain c' where "CHR ''$'' \<notin> set (c_name c)" "compressor_at g (c_name c) = Some c'"
      "c_name c' = c_name c" "c_decompress c' (c_compress c d) = Inr d"
      by (auto simp: compression_ok_def split: option.splits)
    with \<open>c_name c \<noteq> []\<close> show ?thesis
      by (simp add: z decompress_marked)
  qed
qed

interpretation compression: codec compression_ok compress decompress
  by unfold_locales (rule compress_roundtrip)

text \<open>
  Without a registered compressor, a byte string that happens to start with \<open>.c\<close> is
  stored as it is and can no longer be read: its reader looks for a compressor.
\<close>

lemma compress_marker_unreadable:
  assumes "compressors g = []" "startswith d ''.c''"
  shows "compress g d = d" "decompress g (compress g d) = Inl ComponentLookupError"
  using assms by (simp_all add: compress_def decompress_def getUtility_def Let_def)

section \<open>Properties\<close>

lemma register_defaults_initialized:
  assumes "classes_wf g" "registry_inv g"
  shows "initialized K c0 {} (register_defaults (c0 # cs) z g)"
    "classes_wf (register_defaults (c0 # cs) z g)"
    "c \<in> set (c0 # cs) \<Longrightarrow>
       (class_name c, c) \<in> set (encrypter_classes (register_defaults (c0 # cs) z g))"
proof -
  let ?g2 = "register_defaults (c0 # cs) z g"
  let ?g1 = "foldl (\<lambda>g c. register_class g c False) (register_class g c0 True) cs"
  have comp: "encrypters ?g2 = encrypters ?g1" "encrypter_classes ?g2 = encrypter_classes ?g1"
    "next_id ?g2 = next_id ?g1"
    by (auto simp: register_defaults_def compressor_register_def Let_def split: option.splits)
  have r: "classes_wf (register_class g c0 True)" "class_at (register_class g c0 True) [] = Some c0"
    "class_at (register_class g c0 True) (class_name c0) = Some c0"
    using assms(1) by (simp_all add: classes_wf_register class_at_register)
  note f = register_classes_fold [OF r(1,2) refl, of cs]
  show "initialized K c0 {} ?g2"
    using f assms(2) by (simp add: initialized_def registry_inv_def comp)
  show "classes_wf ?g2" using f by (simp add: classes_wf_def comp)
  show "(class_name c, c) \<in> set (encrypter_classes ?g2)" if "c \<in> set (c0 # cs)"
  proof -
    have "class_at ?g1 (class_name c) = Some c" using that f r(3) by auto
    then show ?thesis by (simp add: comp map_of_SomeD)
  qed
qed

lemma init_class_classes:
  "init_class P pw key nc g = Inr g' \<Longrightarrow> encrypter_classes g' = encrypter_classes g"
  by (cases nc)
    (auto simp: init_class_def encrypter_new_def bindr_eq_Inr Let_def split: if_splits sum.splits)

lemma init_classes:
  assumes "foldr_res (init_class P pw key) cs g = Inr g'"
  shows "encrypter_classes g' = encrypter_classes g"
  by (rule foldr_res_invariant [OF assms, where P = "\<lambda>h. encrypter_classes h = encrypter_classes g"])
    (simp_all add: init_class_classes)

text \<open>
  What opening a database does to the registry: every class of \<open>DB.encrypter\<close> has an encrypter with
  the database's key, and the first one's is the default.
\<close>

lemma init_default_crypto_keys:
  assumes "classes_wf g" "registry_inv g" "init_default_crypto P (c0 # cs) z pw key g = Inr g'"
  shows "registry_inv g'" "classes_wf g'" "enc_at g' [] = enc_at g' (class_name c0)"
    and "c \<in> set (c0 # cs) \<Longrightarrow>
      \<exists>e. enc_at g' (class_name c) = Some e \<and> enc_class_of e = c \<and> enc_key e = derived_key P pw key"
proof -
  let ?g2 = "register_defaults (c0 # cs) z g"
  note g2 = register_defaults_initialized [OF assms(1,2), where cs = cs and z = z]
  have g': "foldr_res (init_class P pw key) (class_order P ?g2) ?g2 = Inr g'"
    using assms(3) by (simp add: init_default_crypto_def init_def)
  have J: "initialized (derived_key P pw key) c0 {c. (class_name c, c) \<in> set (encrypter_classes ?g2)} g'"
    using init_fold_initialized [OF g' classes_wf_order [OF g2(2)] g2(1)] by simp
  then show "registry_inv g'" by (simp add: initialized_def)
  show "classes_wf g'" using g2(2) init_classes [OF g'] by (simp add: classes_wf_def)
  show "enc_at g' [] = enc_at g' (class_name c0)" using J g2(3) [of c0] by (simp add: initialized_def)
  show "\<exists>e. enc_at g' (class_name c) = Some e \<and> enc_class_of e = c \<and> enc_key e = derived_key P pw key"
    if "c \<in> set (c0 # cs)" using J g2(3) [OF that] unfolding initialized_def by blast
qed

lemma init_default_crypto_total:
  assumes "crypto_ok P" "classes_wf g" "registry_inv g"
    and "case pw of Some p \<Rightarrow> key = None | None \<Rightarrow> \<exists>k. key = Some k \<and> length k = key_size"
  shows "\<exists>g'. init_default_crypto P (c0 # cs) z pw key g = Inr g'"
proof -
  note g2 = register_defaults_initialized [OF assms(2,3), where cs = cs and z = z]
  show ?thesis
    using init_total [OF assms(1) g2(1) assms(4) classes_wf_order [OF g2(2), of P]]
    by (simp add: init_default_crypto_def init_def)
qed

text \<open>
  C9: opening a database with a passphrase or a 256-bit key always ends with a working
  cipher: every byte string the default encrypter writes, with or without the cipher's
  name, is read back unchanged, and so is everything an encrypter of any of the
  registered classes (the older ones too) ever wrote with the same key.
\<close>

theorem default_crypto_roundtrip:
  assumes "crypto_ok P" "classes_wf g" "registry_inv g"
    and "case pw of Some p \<Rightarrow> key = None | None \<Rightarrow> \<exists>k. key = Some k \<and> length k = key_size"
  shows "\<exists>g'. init_default_crypto P (c0 # cs) z pw key g = Inr g' \<and>
    (\<forall>d nn. decrypt P g' (encrypt P g' d nn) = Inr d) \<and>
    (\<forall>e d. enc_class_of e \<in> set (c0 # cs) \<and> enc_key e = derived_key P pw key \<longrightarrow>
       decrypt P g' (encrypter_encrypt P e d False) = Inr d)"
proof -
  let ?K = "derived_key P pw key"
  obtain g' where g': "init_default_crypto P (c0 # cs) z pw key g = Inr g'"
    using init_default_crypto_total [OF assms] by blast
  note K = init_default_crypto_keys [OF assms(2,3) g']
  note named = K(4)
  obtain e0 where e0: "enc_at g' (class_name c0) = Some e0" "enc_class_of e0 = c0" "enc_key e0 = ?K"
    using named by auto
  have default: "enc_at g' [] = Some e0" using K(3) e0(1) by simp
  have key: "\<exists>k. ?K = Some k \<and> length k = key_size"
    using assms(1,4) by (auto simp: derived_key_def crypto_ok_def split: option.splits)
  have "encryption_ok P g' d" for d
    using assms(1) default e0 key
    by (auto simp: encryption_ok_def encryption_ready_def key_ok_def)
  then have rt: "decrypt P g' (encrypt P g' d nn) = Inr d" for d nn
    by (rule encrypt_roundtrip)
  have old: "decrypt P g' (encrypter_encrypt P e d False) = Inr d"
    if mem: "enc_class_of e \<in> set (c0 # cs)" and key_e: "enc_key e = ?K" for e d
  proof -
    obtain u where "enc_at g' (class_name (enc_class_of e)) = Some u"
      "enc_class_of u = enc_class_of e" "enc_key u = ?K" using named [OF mem] by blast
    then show ?thesis
      using encrypter_roundtrip [OF assms(1), of e u] key_e key
      by (simp add: decrypt_def encrypt_signature getUtility_def key_ok_def)
  qed
  show ?thesis using g' rt old by blast
qed

text \<open>A concrete cipher for the witnesses: the tag authenticates the key.\<close>

definition demo_aead :: aead where
  "demo_aead = \<lparr>
     seal = (\<lambda>k iv d. (rev d, case k of Some b \<Rightarrow> take 16 b | None \<Rightarrow> [])),
     open_sealed = (\<lambda>k iv tag ed. if k \<noteq> None \<and> tag = take 16 (the k) then Some (rev ed) else None),
     mac_len = 16, reject_key = (\<lambda>k. if k = None then Some TypeError else None)\<rparr>"

definition demo_crypto :: crypto where
  "demo_crypto = \<lparr>have_sodium = True, sodium = demo_aead, pycrypto = demo_aead,
     sha256 = (\<lambda>x. take key_size (x @ replicate key_size CHR ''0'')),
     rand = (\<lambda>n. replicate n CHR ''r''), gsm_rank = (\<lambda>_ _. 0)\<rparr>"

definition empty_registry :: registry where
  "empty_registry = \<lparr>compressors = [], encrypter_classes = [], encrypters = [], next_id = 0\<rparr>"

lemma demo_crypto_ok: "crypto_ok demo_crypto"
  by (auto simp: crypto_ok_def demo_crypto_def aead_ok_def demo_aead_def key_size_def)

lemma empty_registry_ok: "classes_wf empty_registry" "registry_inv empty_registry"
  by (simp_all add: classes_wf_def registry_inv_def empty_registry_def)

theorem default_crypto_roundtrip_witness:
  "\<exists>g'. init_default_crypto demo_crypto [AES256Encrypter, AES256EncrypterV0] None
          (Some ''Hello world'') None empty_registry = Inr g' \<and>
     decrypt demo_crypto g' (encrypt demo_crypto g' ''Test text'' False) = Inr ''Test text''"
proof -
  have "case Some ''Hello world'' of Some p \<Rightarrow> (None :: bytes option) = None
      | None \<Rightarrow> \<exists>k. None = Some k \<and> length (k :: bytes) = key_size" by simp
  from default_crypto_roundtrip [OF demo_crypto_ok empty_registry_ok this,
      of AES256Encrypter "[AES256EncrypterV0]" None]
  show ?thesis by blast
qed

text \<open>
  A byte string that the compressor can handle is read back unchanged, and
  compression never makes a record longer.
\<close>

theorem compression_roundtrip_shrinks:
  "compression_ok g d \<Longrightarrow>
     decompress g (compress g d) = Inr d \<and> length (compress g d) \<le> length d"
  by (simp add: compression.dec_enc compress_length)

definition demo_compressor :: compressor where
  "demo_compressor = \<lparr>c_name = ''zlib'', c_compress = (\<lambda>d. [char_of (length d), hd d]),
     c_decompress = (\<lambda>z. Inr (replicate (of_char (hd z)) (hd (tl z))))\<rparr>"

theorem compression_roundtrip_shrinks_witness:
  "let g = compressor_register empty_registry demo_compressor True; d = replicate 20 CHR ''x''
   in compression_ok g d \<and> length (compress g d) < length d \<and>
      decompress g (compress g d) = Inr d \<and> length (compress g d) \<le> length d"
proof -
  let ?g = "compressor_register empty_registry demo_compressor True"
  let ?d = "replicate 20 CHR ''x''"
  have ok: "compression_ok ?g ?d" by code_simp
  have "length (compress ?g ?d) < length ?d" by code_simp
  with ok compression_roundtrip_shrinks [OF ok] show ?thesis by (simp add: Let_def)
qed

text \<open>
  Reading a record either gives its plaintext or raises one of three errors: no
  encrypter is registered under the record's name, the key does not open it, or nothing
  follows the name. A record without the encryption marker is returned as it is.
\<close>

lemma aes_decrypt_raises: "aes_decrypt P e x = Inl ex \<Longrightarrow> ex = WrongKeyError \<or> ex = ValueError"
  by (simp add: aes_decrypt_def Let_def split: if_splits option.splits)

lemma encrypter_decrypt_raises: "encrypter_decrypt P e x = Inl ex \<Longrightarrow> ex = WrongKeyError \<or> ex = ValueError"
  by (auto simp: encrypter_decrypt_def dest: aes_decrypt_raises split: if_splits)

theorem decrypt_outcome:
  "(case decrypt P g x of
      Inl ex \<Rightarrow> startswith x ''.e'' \<and> (ex = ComponentLookupError \<or> ex = WrongKeyError \<or> ex = ValueError)
    | Inr d \<Rightarrow> startswith x ''.e'' \<or> d = x)"
  by (auto simp: decrypt_def get_encryption_signature_def getUtility_def bindr_def
      dest: encrypter_decrypt_raises split: option.splits sum.splits)

end
