(* ===== verification/Transforming_Storage.thy ===== *)
theory Transforming_Storage
  imports Storage_Layers Transform
begin

text \<open>
  zerodb/storage/transforming.py: the client's storage, which compresses and encrypts
  every record before it goes to the server and undoes both on the way back. The root
  record carries the cipher's name, the others only the mark \<open>.e$\<close>.
\<close>

record transforming =
  ts_root_oid :: bytes
  ts_debug :: bool
  ts_download_size :: nat
  ts_download_count :: nat

definition ts_transform :: "crypto \<Rightarrow> registry \<Rightarrow> bytes \<Rightarrow> bytes" where
  "ts_transform P g data = encrypt P g (compress g data) True"

definition ts_transform_named :: "crypto \<Rightarrow> registry \<Rightarrow> bytes \<Rightarrow> bytes" where
  "ts_transform_named P g data = encrypt P g (compress g data) False"

definition ts_untransform :: "crypto \<Rightarrow> registry \<Rightarrow> bytes \<Rightarrow> bytes res" where
  "ts_untransform P g data = bindr (decrypt P g data) (decompress g)"

text \<open>
  \<open>__init__\<close>: the default encrypter becomes the one the root record was written with, if
  that record names one. A root record that does not exist is \<open>None[0]\<close>.
\<close>

definition ts_init ::
  "zodb_utils \<Rightarrow> 's storage_ops \<Rightarrow> bytes \<Rightarrow> bool \<Rightarrow> 's \<Rightarrow> registry \<Rightarrow> (transforming \<times> registry) res" where
  "ts_init Z base root debug s g =
     bindr (s_loadBefore base s root (maxtid Z)) (\<lambda>r. case r of
       None \<Rightarrow> Inl TypeError
     | Some (data, serial, nxt) \<Rightarrow>
         bindr (case get_encryption_signature data of
                  None \<Rightarrow> Inr g
                | Some sig \<Rightarrow>
                    if sig = [] then Inr g
                    else bindr (getUtility (encrypters g) sig)
                      (\<lambda>e. Inr (g\<lparr>encrypters := AList.update [] e (encrypters g)\<rparr>)))
           (\<lambda>g'. Inr (\<lparr>ts_root_oid = root, ts_debug = debug,
                      ts_download_size = 0, ts_download_count = 0\<rparr>, g')))"

text \<open>
  \<open>loadBefore\<close>. \<open>in_cache\<close> is the ZEO cache's answer for the object and \<open>debug_loads\<close> the
  exception, if any, of unpickling it for the log; both are third-party code.
\<close>

definition ts_loadBefore ::
  "crypto \<Rightarrow> registry \<Rightarrow> (bytes \<Rightarrow> bool) \<Rightarrow> (bytes \<Rightarrow> py_exc option) \<Rightarrow> 's storage_ops
     \<Rightarrow> transforming \<Rightarrow> 's \<Rightarrow> bytes \<Rightarrow> bytes \<Rightarrow> ((bytes \<times> bytes \<times> bytes option) \<times> transforming) res" where
  "ts_loadBefore P g in_cache debug_loads base ts s oid tid =
     bindr (s_loadBefore base s oid tid) (\<lambda>r. case r of
       None \<Rightarrow> Inl TypeError
     | Some (data, serial, tend) \<Rightarrow>
         bindr (ts_untransform P g data) (\<lambda>out_data.
           if ts_debug ts \<and> \<not> in_cache oid then
             (case debug_loads out_data of
                Some ex \<Rightarrow> Inl ex
              | None \<Rightarrow> Inr ((out_data, serial, tend),
                  ts\<lparr>ts_download_size := ts_download_size ts + length data,
                     ts_download_count := ts_download_count ts + 1\<rparr>))
           else Inr ((out_data, serial, tend), ts)))"

definition ts_store ::
  "crypto \<Rightarrow> registry \<Rightarrow> 's storage_ops \<Rightarrow> transforming \<Rightarrow> 's \<Rightarrow> bytes \<Rightarrow> bytes \<Rightarrow> bytes \<Rightarrow> 's res" where
  "ts_store P g base ts s oid serial data =
     s_store base s oid serial
       (if oid = ts_root_oid ts then ts_transform_named P g data else ts_transform P g data)"

section \<open>The transformation\<close>

interpretation transform: codec_chain
  compression_ok compress decompress
  "\<lambda>(P, g, nn). encryption_ok P g" "\<lambda>(P, g, nn) d. encrypt P g d nn" "\<lambda>(P, g, nn). decrypt P g"
  by unfold_locales

definition transform_ok :: "crypto \<Rightarrow> registry \<Rightarrow> bytes \<Rightarrow> bool" where
  "transform_ok P g d \<longleftrightarrow> compression_ok g d \<and> encryption_ok P g (compress g d)"

lemma untransform_transform:
  assumes "transform_ok P g d"
  shows "ts_untransform P g (ts_transform P g d) = Inr d"
    and "ts_untransform P g (ts_transform_named P g d) = Inr d"
  using assms transform.chain.dec_enc [of "(g, P, g, True)" d]
    transform.chain.dec_enc [of "(g, P, g, False)" d]
  by (simp_all add: transform_ok_def ts_untransform_def ts_transform_def ts_transform_named_def)

section \<open>The storage layer\<close>

text \<open>The storage as its callers see it, without the debug counters.\<close>

definition ts_wire :: "crypto \<times> registry \<times> transforming \<Rightarrow> bytes \<Rightarrow> bytes \<Rightarrow> bytes" where
  "ts_wire = (\<lambda>(P, g, ts) oid d.
     if oid = ts_root_oid ts then ts_transform_named P g d else ts_transform P g d)"

definition ts_layer :: "crypto \<times> registry \<times> transforming \<Rightarrow> 's storage_ops \<Rightarrow> 's storage_ops" where
  "ts_layer = (\<lambda>(P, g, ts) base.
     \<lparr>s_loadBefore = (\<lambda>s oid tid.
        bindr (ts_loadBefore P g (\<lambda>_. True) (\<lambda>_. None) base ts s oid tid) (\<lambda>(r, ts'). Inr (Some r))),
      s_store = ts_store P g base ts\<rparr>)"

lemma ts_loadBefore_cong:
  "s_loadBefore base s oid tid = s_loadBefore base t oid tid \<Longrightarrow>
     ts_loadBefore P g c dl base ts s oid tid = ts_loadBefore P g c dl base ts t oid tid"
  by (simp add: ts_loadBefore_def)

lemma ts_loadBefore_wire:
  assumes "transform_ok P g d"
    and "s_loadBefore base s oid tid = Inr (Some (ts_wire (P, g, ts) oid d, ser, nxt))"
  shows "ts_loadBefore P g (\<lambda>_. True) dl base ts s oid tid = Inr ((d, ser, nxt), ts)"
  using assms by (simp add: ts_loadBefore_def ts_wire_def untransform_transform split: if_splits)

interpretation ts: storage_layer ts_layer ts_wire "\<lambda>(P, g, ts) oid d. transform_ok P g d"
  by unfold_locales
    (auto simp: ts_layer_def ts_store_def ts_wire_def ts_loadBefore_wire [unfolded ts_wire_def]
      cong: ts_loadBefore_cong)

section \<open>Properties\<close>

text \<open>
  Opening a database makes the cipher of its root record the default one: what
  was written with an older cipher is extended with that cipher, whatever class the
  client prefers for new databases, and the registry stays able to read its own records.
\<close>

theorem ts_init_keeps_cipher:
  assumes "crypto_ok P" "s_loadBefore base s root (maxtid Z) = Inr (Some (encrypter_encrypt P e d False, ser, nxt))"
    and "initialized (Some k) c0 D g" "enc_class_of e \<in> D" "length k = key_size"
  shows "\<exists>ts g'. ts_init Z base root debug s g = Inr (ts, g') \<and> ts_root_oid ts = root \<and>
     map_option enc_class_of (enc_at g' []) = Some (enc_class_of e) \<and>
     (\<forall>d nn. decrypt P g' (encrypt P g' d nn) = Inr d)"
proof -
  obtain u where u: "enc_at g (class_name (enc_class_of e)) = Some u"
    "enc_class_of u = enc_class_of e" "enc_key u = Some k"
    using assms(3,4) by (auto simp: initialized_def)
  let ?g' = "g\<lparr>encrypters := AList.update [] u (encrypters g)\<rparr>"
  have at: "enc_at ?g' [] = Some u" "enc_at ?g' (class_name (enc_class_of u)) = Some u"
    by (simp_all add: update_conv' u)
  then have "encryption_ok P ?g' x" for x
    using assms(1,5) u(3) by (auto simp: encryption_ok_def encryption_ready_def key_ok_def)
  then have "\<forall>d nn. decrypt P ?g' (encrypt P ?g' d nn) = Inr d"
    by (blast intro: encrypt_roundtrip)
  moreover have "ts_init Z base root debug s g =
      Inr (\<lparr>ts_root_oid = root, ts_debug = debug, ts_download_size = 0, ts_download_count = 0\<rparr>, ?g')"
    using assms(2) u(1) by (simp add: ts_init_def encrypt_signature getUtility_def)
  ultimately show ?thesis using at u(2) by simp
qed

theorem ts_init_keeps_cipher_witness:
  "let K = replicate 32 CHR ''k'';
       old = \<lparr>enc_id = 0, enc_class_of = AES256EncrypterV0, enc_key = Some K\<rparr>;
       new = \<lparr>enc_id = 1, enc_class_of = AES256Encrypter, enc_key = Some K\<rparr>;
       g = \<lparr>compressors = [],
            encrypter_classes = [([], AES256Encrypter), (class_name AES256Encrypter, AES256Encrypter)],
            encrypters = [([], new), (class_name AES256Encrypter, new), (class_name AES256EncrypterV0, old)],
            next_id = 2\<rparr>;
       s = [(''root'', encrypter_encrypt demo_crypto old ''data'' False)]
   in \<exists>ts g'. ts_init demo_zodb demo_storage ''root'' False s g = Inr (ts, g') \<and>
        ts_root_oid ts = ''root'' \<and>
        map_option enc_class_of (enc_at g' []) = Some AES256EncrypterV0 \<and>
        (\<forall>d nn. decrypt demo_crypto g' (encrypt demo_crypto g' d nn) = Inr d)"
proof -
  define K :: bytes where "K = replicate 32 CHR ''k''"
  define old where "old = \<lparr>enc_id = 0, enc_class_of = AES256EncrypterV0, enc_key = Some K\<rparr>"
  define new where "new = \<lparr>enc_id = 1, enc_class_of = AES256Encrypter, enc_key = Some K\<rparr>"
  define g where "g = \<lparr>compressors = [],
            encrypter_classes = [([], AES256Encrypter), (class_name AES256Encrypter, AES256Encrypter)],
            encrypters = [([], new), (class_name AES256Encrypter, new), (class_name AES256EncrypterV0, old)],
            next_id = 2\<rparr>"
  define s where "s = [(''root'', encrypter_encrypt demo_crypto old ''data'' False)]"
  have load: "s_loadBefore demo_storage s ''root'' (maxtid demo_zodb) =
      Inr (Some (encrypter_encrypt demo_crypto old ''data'' False, ''t'', None))"
    by (simp add: demo_storage_def s_def)
  have J: "initialized (Some K) AES256Encrypter {AES256Encrypter, AES256EncrypterV0} g"
    by (auto simp: initialized_def registry_inv_def g_def new_def old_def)
  have "length K = key_size" "enc_class_of old \<in> {AES256Encrypter, AES256EncrypterV0}"
    by (simp_all add: K_def key_size_def old_def)
  from ts_init_keeps_cipher [OF demo_crypto_ok load J this(2,1), of False]
  have "\<exists>ts g'. ts_init demo_zodb demo_storage ''root'' False s g = Inr (ts, g') \<and>
      ts_root_oid ts = ''root'' \<and> map_option enc_class_of (enc_at g' []) = Some (enc_class_of old) \<and>
      (\<forall>d nn. decrypt demo_crypto g' (encrypt demo_crypto g' d nn) = Inr d)" .
  then show ?thesis
    by (simp add: Let_def s_def g_def old_def new_def K_def)
qed

end
