(* ===== verification/Owner_Storage.thy ===== *)
theory Owner_Storage
  imports Transforming_Storage
begin

text \<open>
  zerodb/permissions/ownerstorage.py: the server's storage for one user. Every record
  ends with the id of the user who wrote it; a user can read and overwrite a record
  that ends with the user's id, the record of the user's own root (the object whose id
  is the user's), and object 0. Also zerodb/permissions/userstats.py, which adds the
  sizes of transactions up by the same record suffix.
\<close>

section \<open>Operations\<close>

definition check_permissions :: "zodb_utils \<Rightarrow> bytes \<Rightarrow> bytes \<Rightarrow> bytes \<Rightarrow> unit res" where
  "check_permissions Z user_id data oid =
     (if \<not> (endswith data user_id \<or> oid = user_id \<or> oid = z64 Z) then Inl StorageError
      else Inr ())"

text \<open>\<open>data[:-len(self.user_id)]\<close>\<close>

definition strip_owner :: "bytes \<Rightarrow> bytes \<Rightarrow> bytes" where
  "strip_owner user_id data = py_slice data 0 (- int (length user_id))"

definition os_loadBefore ::
  "zodb_utils \<Rightarrow> 's storage_ops \<Rightarrow> bytes \<Rightarrow> 's \<Rightarrow> bytes \<Rightarrow> bytes \<Rightarrow> (bytes \<times> bytes \<times> bytes option) option res" where
  "os_loadBefore Z base user_id s oid tid =
     bindr (s_loadBefore base s oid tid) (\<lambda>r. case r of
       Some (data, serial, after) \<Rightarrow>
         bindr (check_permissions Z user_id data oid)
           (\<lambda>_. Inr (Some (strip_owner user_id data, serial, after)))
     | None \<Rightarrow> Inr None)"

text \<open>\<open>loadSerial\<close> reads the name \<open>tid\<close>, which its body does not bind.\<close>

definition os_loadSerial :: "'s storage_ops \<Rightarrow> bytes \<Rightarrow> 's \<Rightarrow> bytes \<Rightarrow> bytes \<Rightarrow> bytes res" where
  "os_loadSerial base user_id s oid serial = Inl NameError"

text \<open>\<open>store\<close>: a POSKeyError of the first load means that the object is new.\<close>

definition os_store ::
  "zodb_utils \<Rightarrow> 's storage_ops \<Rightarrow> bytes \<Rightarrow> 's \<Rightarrow> bytes \<Rightarrow> bytes \<Rightarrow> bytes \<Rightarrow> 's res" where
  "os_store Z base user_id s oid serial data =
     bindr (case s_loadBefore base s oid (maxtid Z) of
              Inl ex \<Rightarrow> if ex = POSKeyError then Inr () else Inl ex
            | Inr None \<Rightarrow> Inl TypeError
            | Inr (Some (old_data, _, _)) \<Rightarrow> check_permissions Z user_id old_data oid)
       (\<lambda>_. s_store base s oid serial (data @ user_id))"

text \<open>
  Attributes of the storage: its own methods, the names set to None in the class, and everything
  else, which \<open>__getattr__\<close> takes from the storage below.
\<close>

datatype os_member = Own | Disabled | Delegated

definition os_getattr :: "string \<Rightarrow> os_member" where
  "os_getattr name =
     (if name \<in> {''history'', ''load'', ''restore'', ''iterator'', ''undo'', ''undoLog'', ''undoInfo'', ''record_iternext'',
                 ''storeBlob'', ''loadBlob'', ''restoreBlob''} then Disabled
      else if name \<in> {''__iter__'', ''supportsUndo'', ''__init__'', ''__getattr__'', ''_check_permissions'', ''loadBefore'',
                      ''loadSerial'', ''store'', ''__len__'', ''user_id'', ''storage''} then Own
      else Delegated)"

text \<open>
  userstats.py. A transaction of the file: its size (\<open>_tend - _tpos + 8\<close>) and its
  records' data, \<open>None\<close> where the record has none. The first record with data tells
  the user; \<open>totals\<close> is the dictionary, in insertion order.
\<close>

fun first_data :: "bytes option list \<Rightarrow> bytes option" where
  "first_data [] = None"
| "first_data (None # rs) = first_data rs"
| "first_data (Some d # rs) = (if d \<noteq> [] then Some d else first_data rs)"

definition record_owner :: "bytes \<Rightarrow> bytes" where
  "record_owner data = drop (length data - 8) data"

definition add_total :: "bytes \<Rightarrow> int \<Rightarrow> (bytes \<times> int) list \<Rightarrow> (bytes \<times> int) list" where
  "add_total uid n totals =
     AList.update uid ((case map_of totals uid of Some t \<Rightarrow> t | None \<Rightarrow> 0) + n) totals"

fun user_totals :: "(int \<times> bytes option list) list \<Rightarrow> (bytes \<times> int) list \<Rightarrow> (bytes \<times> int) list" where
  "user_totals [] totals = totals"
| "user_totals ((nbytes, records) # ts) totals =
     user_totals ts (case first_data records of
       None \<Rightarrow> totals | Some d \<Rightarrow> add_total (record_owner d) nbytes totals)"

text \<open>The report names each user; an id without a user is a KeyError.\<close>

definition userstats ::
  "(bytes \<Rightarrow> string option) \<Rightarrow> (int \<times> bytes option list) list \<Rightarrow> (bytes \<times> string \<times> int) list res" where
  "userstats user_name ts =
     foldr_res (\<lambda>(uid, total) out. case user_name uid of
         None \<Rightarrow> Inl KeyError | Some name \<Rightarrow> Inr (out @ [(uid, name, total)]))
       (user_totals ts []) []"

section \<open>The storage layer\<close>

lemma strip_owner_append: "user_id \<noteq> [] \<Longrightarrow> strip_owner user_id (d @ user_id) = d"
  by (simp add: strip_owner_def py_slice_def slice_bound_def)

definition os_layer :: "zodb_utils \<times> bytes \<Rightarrow> 's storage_ops \<Rightarrow> 's storage_ops" where
  "os_layer = (\<lambda>(Z, user_id) base.
     \<lparr>s_loadBefore = os_loadBefore Z base user_id, s_store = os_store Z base user_id\<rparr>)"

lemma os_store_wire:
  "os_store Z base u s oid serial d = Inr s' \<Longrightarrow> s_store base s oid serial (d @ u) = Inr s'"
  by (auto simp: os_store_def bindr_eq_Inr)

lemma os_loadBefore_own:
  "u \<noteq> [] \<Longrightarrow> s_loadBefore base s oid tid = Inr (Some (d @ u, ser, nxt)) \<Longrightarrow>
     os_loadBefore Z base u s oid tid = Inr (Some (d, ser, nxt))"
  by (simp add: os_loadBefore_def check_permissions_def strip_owner_append)

interpretation os: storage_layer os_layer "\<lambda>(Z, u) oid d. d @ u" "\<lambda>(Z, u) oid d. u \<noteq> []"
  by unfold_locales
    (auto simp: os_layer_def os_store_wire os_loadBefore_own, auto simp: os_loadBefore_def)

text \<open>The client's storage on top of the server's.\<close>

interpretation client_server: storage_stack
  ts_layer ts_wire "\<lambda>(P, g, ts) oid d. transform_ok P g d"
  os_layer "\<lambda>(Z, u) oid d. d @ u" "\<lambda>(Z, u) oid d. u \<noteq> []"
  by unfold_locales

section \<open>Access\<close>

text \<open>The record is closed to \<open>u\<close>: written by another user, and not one of the two exceptions.\<close>

definition foreign_record :: "zodb_utils \<Rightarrow> bytes \<Rightarrow> bytes \<Rightarrow> bytes \<Rightarrow> bool" where
  "foreign_record Z u oid data \<longleftrightarrow>
     (\<exists>owner. endswith data owner \<and> length owner = length u \<and> owner \<noteq> u) \<and> oid \<noteq> u \<and> oid \<noteq> z64 Z"

lemma foreign_record_refused:
  "foreign_record Z u oid data \<Longrightarrow> check_permissions Z u data oid = Inl StorageError"
  by (auto simp: foreign_record_def check_permissions_def dest: endswith_unique)

section \<open>Properties\<close>

text \<open>
  C1: what a client stores, it reads back: through encryption and compression on the
  client and ownership on the server, the current revision of the object is the data
  that was stored, every other object is as it was, and what the server holds starts
  with the encryption mark and ends with the user's id.
\<close>

theorem client_server_roundtrip:
  assumes "storage_ok Z base" "u \<noteq> []" "crypto_ok P" "encryption_ready g" "compression_ok g d"
    and "s_store (ts_layer (P, g, ts) (os_layer (Z, u) base)) s oid serial d = Inr s'"
  shows "\<exists>rec ser nxt.
    s_loadBefore (ts_layer (P, g, ts) (os_layer (Z, u) base)) s' oid (maxtid Z) = Inr (Some (d, ser, nxt)) \<and>
    s_loadBefore base s' oid (maxtid Z) = Inr (Some (rec, ser, nxt)) \<and>
    startswith rec ''.e'' \<and> endswith rec u \<and>
    (\<forall>oid' tid. oid' \<noteq> oid \<longrightarrow>
       s_loadBefore (ts_layer (P, g, ts) (os_layer (Z, u) base)) s' oid' tid =
       s_loadBefore (ts_layer (P, g, ts) (os_layer (Z, u) base)) s oid' tid)"
proof -
  have "transform_ok P g d"
    using assms(3-5) by (auto simp: transform_ok_def encryption_ok_def encryption_ready_def)
  then obtain ser nxt where
    "s_loadBefore base s' oid (maxtid Z) = Inr (Some (ts_wire (P, g, ts) oid d @ u, ser, nxt))"
    "s_loadBefore (ts_layer (P, g, ts) (os_layer (Z, u) base)) s' oid (maxtid Z) = Inr (Some (d, ser, nxt))"
    using client_server.stack.stored_is_read [OF assms(1), of "((P, g, ts), (Z, u))" oid d s serial s'] assms(2,6)
    by auto
  moreover have "startswith (ts_wire (P, g, ts) oid d @ u) ''.e''"
    using assms(4)
    by (auto simp: ts_wire_def ts_transform_def ts_transform_named_def encrypt_def getUtility_def
        encryption_ready_def encrypter_encrypt_def signature_def)
  moreover have "oid' \<noteq> oid \<Longrightarrow>
       s_loadBefore (ts_layer (P, g, ts) (os_layer (Z, u) base)) s' oid' tid =
       s_loadBefore (ts_layer (P, g, ts) (os_layer (Z, u) base)) s oid' tid" for oid' tid
    using client_server.stack.others_unchanged [OF assms(1), of "((P, g, ts), (Z, u))" s oid serial d s'] assms(6)
    by simp
  ultimately show ?thesis using endswith_append by blast
qed

text \<open>
  C2: a user's records are closed to other users: neither a load nor a store of a
  record that another user wrote gets past the permission check, unless it is the
  user's own root or object 0; and a store makes the record the writer's, so that from
  then on it is closed to everybody else in the same way.
\<close>

theorem owner_isolation:
  assumes "storage_ok Z base" "length u = length v" "u \<noteq> v" "oid \<noteq> v" "oid \<noteq> z64 Z"
    and "os_store Z base u s oid serial d = Inr s'"
  shows "os_loadBefore Z base v s' oid (maxtid Z) = Inl StorageError \<and>
    os_store Z base v s' oid serial' d' = Inl StorageError"
proof -
  obtain ser nxt where "s_loadBefore base s' oid (maxtid Z) = Inr (Some (d @ u, ser, nxt))"
    using storage_ok_stored [OF assms(1) os_store_wire [OF assms(6)]] by blast
  moreover have "foreign_record Z v oid (d @ u)"
    using assms(2-5) endswith_append unfolding foreign_record_def by blast
  ultimately show ?thesis
    by (simp add: os_loadBefore_def os_store_def foreign_record_refused)
qed

theorem owner_isolation_witness:
  "let u = replicate 7 CHR ''0'' @ ''8''; v = replicate 7 CHR ''0'' @ ''9''; oid = ''object_1'';
       S = demo_storage; s' = [(oid, ''data'' @ u)]
   in os_store demo_zodb S u [] oid ''t'' ''data'' = Inr s' \<and>
      os_loadBefore demo_zodb S v s' oid (maxtid demo_zodb) = Inl StorageError \<and>
      os_store demo_zodb S v s' oid ''t'' ''mine'' = Inl StorageError"
proof -
  define u v oid where "u = replicate 7 CHR ''0'' @ ''8''" and "v = replicate 7 CHR ''0'' @ ''9''"
    and "oid = ''object_1''"
  have st: "os_store demo_zodb demo_storage u [] oid ''t'' ''data'' = Inr [(oid, ''data'' @ u)]"
    by (simp add: os_store_def demo_storage_def)
  have "length u = length v" "u \<noteq> v" "oid \<noteq> v" "oid \<noteq> z64 demo_zodb"
    by (simp_all add: u_def v_def oid_def demo_zodb_def numeral_eq_Suc)
  from owner_isolation [OF demo_storage_ok this st, of "''t''" "''mine''"] st
  show ?thesis by (simp add: Let_def u_def v_def oid_def)
qed

theorem client_server_roundtrip_witness:
  "let K = replicate 32 CHR ''k''; u = ''00000008''; d = ''some data'';
       e = \<lparr>enc_id = 0, enc_class_of = AES256Encrypter, enc_key = Some K\<rparr>;
       g = empty_registry\<lparr>encrypters := [([], e), (class_name AES256Encrypter, e)]\<rparr>;
       ts = \<lparr>ts_root_oid = ''00000008'', ts_debug = False, ts_download_size = 0, ts_download_count = 0\<rparr>;
       S = ts_layer (demo_crypto, g, ts) (os_layer (demo_zodb, u) demo_storage)
   in \<exists>s'. s_store S [] ''object_1'' ''t'' d = Inr s' \<and>
        (\<exists>ser nxt. s_loadBefore S s' ''object_1'' (maxtid demo_zodb) = Inr (Some (d, ser, nxt)))"
proof -
  define K :: bytes where "K = replicate 32 CHR ''k''"
  define e where "e = \<lparr>enc_id = 0, enc_class_of = AES256Encrypter, enc_key = Some K\<rparr>"
  define g where "g = empty_registry\<lparr>encrypters := [([], e), (class_name AES256Encrypter, e)]\<rparr>"
  define ts where "ts = \<lparr>ts_root_oid = ''00000008'', ts_debug = False, ts_download_size = 0, ts_download_count = 0\<rparr>"
  let ?S = "ts_layer (demo_crypto, g, ts) (os_layer (demo_zodb, ''00000008'') demo_storage)"
  have ready: "encryption_ready g"
    by (simp add: encryption_ready_def g_def e_def key_ok_def K_def key_size_def)
  have cok: "compression_ok g ''some data''"
    by (simp add: compression_ok_def g_def empty_registry_def)
  have u: "(''00000008'' :: bytes) \<noteq> []" by simp
  obtain s' where st: "s_store ?S [] ''object_1'' ''t'' ''some data'' = Inr s'"
    by (simp add: ts_layer_def os_layer_def ts_store_def os_store_def demo_storage_def)
  show ?thesis
    using client_server_roundtrip [OF demo_storage_ok u demo_crypto_ok ready cok st] st
    by (auto simp: Let_def ts_def g_def e_def K_def)
qed

lemma user_totals_lookup:
  "map_of (user_totals ts totals) uid =
     (let mine = filter (\<lambda>(n, rs). map_option record_owner (first_data rs) = Some uid) ts in
      if mine = [] then map_of totals uid
      else Some ((case map_of totals uid of Some t \<Rightarrow> t | None \<Rightarrow> 0) + sum_list (map fst mine)))"
  by (induction ts totals rule: user_totals.induct)
    (auto simp: Let_def add_total_def update_conv' split: option.splits)

text \<open>
  The user statistics add up, for each user, the sizes of exactly the transactions
  whose first record with data ends with that user's id.
\<close>

theorem user_totals_correct:
  "map_of (user_totals ts []) uid =
     (let mine = filter (\<lambda>(n, rs). map_option record_owner (first_data rs) = Some uid) ts in
      if mine = [] then None else Some (sum_list (map fst mine)))"
  by (simp add: user_totals_lookup Let_def)

end
