(* ===== verification/Server.thy ===== *)
theory Server
  imports Accounts Owner_Storage
begin

text \<open>
  zerodb/permissions/subdb.py: the ZEO server with one storage and many users. A
  connection registers with a client certificate and, maybe, with credentials; from then
  on it works on the storage wrapped for its user. Transactions are announced only to
  the connections of the user who made them. ZEO's own \<open>register\<close> and the storage's user
  database are parameters; the database is an \<open>admin\<close> object of theory \<open>Accounts\<close>.
\<close>

section \<open>Connections\<close>

text \<open>What a connection's \<open>self.storage\<close> is: none yet, the server's own, or one wrapped.\<close>

datatype server_storage =
  No_Storage | Base_Storage | Owner_Storage_Of server_storage "bytes option"

record zeo_storage =
  zs_user_id :: "bytes option"
  zs_storage :: server_storage

definition fresh_connection :: zeo_storage where
  "fresh_connection = \<lparr>zs_user_id = None, zs_storage = No_Storage\<rparr>"

text \<open>
  \<open>register\<close>: \<open>super\<close> is ZEO's register, \<open>admin\<close> the user database the storage holds,
  \<open>der\<close> the peer's certificate; credentials are a name and a password.
\<close>

definition look_up_cert :: "admin \<Rightarrow> bytes \<Rightarrow> (zeo_storage, unit) meth" where
  "look_up_cert admin der =
     (case a_uids admin der of
        None \<Rightarrow> m_raise KeyError
      | Some uid \<Rightarrow> m_modify (\<lambda>zs. zs\<lparr>zs_user_id := uid\<rparr>))"

definition check_credentials ::
  "account_env \<Rightarrow> admin \<Rightarrow> bytes \<Rightarrow> bytes \<Rightarrow> (zeo_storage, unit) meth" where
  "check_credentials E admin name password zs =
     (case a_users_by_name admin name of
        None \<Rightarrow> (Inl KeyError, zs)
      | Some uid \<Rightarrow>
          (case a_objects admin uid of
             None \<Rightarrow> (Inl POSKeyError, zs)
           | Some user \<Rightarrow>
               if Some (u_id user) \<noteq> zs_user_id zs \<and> zs_user_id zs \<noteq> None then (Inl AuthError, zs)
               else (case check_password E user password of
                       Inl e \<Rightarrow> (Inl e, zs)
                     | Inr False \<Rightarrow> (Inl AuthError, zs)
                     | Inr True \<Rightarrow> (Inr (), zs\<lparr>zs_user_id := Some (u_id user)\<rparr>))))"

definition register ::
  "(zeo_storage, unit) meth \<Rightarrow> account_env \<Rightarrow> admin \<Rightarrow> bytes \<Rightarrow> (bytes \<times> bytes) option
     \<Rightarrow> (zeo_storage, unit) meth" where
  "register super E admin der credentials =
     m_bind super (\<lambda>_.
     m_bind (look_up_cert admin der) (\<lambda>_.
     m_bind (\<lambda>zs. if zs_user_id zs = None \<and> credentials = None then (Inl AuthError, zs) else (Inr (), zs)) (\<lambda>_.
     m_bind (case credentials of
               None \<Rightarrow> m_return ()
             | Some (name, password) \<Rightarrow> check_credentials E admin name password) (\<lambda>_.
     m_modify (\<lambda>zs. zs\<lparr>zs_storage := Owner_Storage_Of (zs_storage zs) (zs_user_id zs)\<rparr>)))))"

definition get_root_id :: "zeo_storage \<Rightarrow> bytes option" where
  "get_root_id zs = zs_user_id zs"

text \<open>
  \<open>Acceptor\<close>: the names of the server's storages, of which there must be one, and the context of each
  new connection, which trusts the certificates in the user database as it is then. The context
  that the server creates and \<open>load_verify_locations\<close> are arguments.
\<close>

definition acceptor_storage_id :: "bytes list \<Rightarrow> bytes res" where
  "acceptor_storage_id storages = (case storages of [storage_id] \<Rightarrow> Inr storage_id | _ \<Rightarrow> Inl ValueError)"

definition acceptor_ssl_context :: "'ctx \<Rightarrow> ('ctx \<Rightarrow> string \<Rightarrow> 'ctx) \<Rightarrow> admin \<Rightarrow> 'ctx" where
  "acceptor_ssl_context created load_verify_locations admin = load_verify_locations created (a_certs admin)"

text \<open>What ZEO's own register leaves: the connection has the server's storage.\<close>

definition super_ok :: "(zeo_storage, unit) meth \<Rightarrow> bool" where
  "super_ok super \<longleftrightarrow>
     (\<forall>zs. case super zs of
        (Inr _, zs') \<Rightarrow> zs_storage zs' = Base_Storage
      | (Inl _, zs') \<Rightarrow> zs_storage zs' = zs_storage zs)"

definition demo_super :: "(zeo_storage, unit) meth" where
  "demo_super zs =
     (if zs_storage zs = No_Storage then (Inr (), zs\<lparr>zs_storage := Base_Storage\<rparr>) else (Inl ValueError, zs))"

lemma demo_super_ok: "super_ok demo_super"
  by (simp add: super_ok_def demo_super_def)

section \<open>Announcing a transaction\<close>

datatype ('oid, 'info) message = InvalidateTransaction bytes "'oid list" | Info 'info

text \<open>
  \<open>invalidate\<close>: \<open>conns\<close> are the storage's connections by an identity of theirs, with
  their user ids; the caller \<open>conn\<close> is one of them or None.
\<close>

record ('oid, 'info) storage_server =
  ss_invq :: "bytes \<Rightarrow> (bytes \<times> 'oid list) list option"
  ss_invq_bound :: nat
  ss_connections :: "bytes \<Rightarrow> (nat \<times> bytes option) list option"
  ss_cert_storage_id :: bytes
  ss_sent :: "(nat \<times> ('oid, 'info) message) list"
  ss_cert_invalidated :: "(bytes \<times> 'oid list) list"

definition push_invq ::
  "bytes \<Rightarrow> bytes \<Rightarrow> 'oid list \<Rightarrow> (('oid, 'info) storage_server, unit) meth" where
  "push_invq storage_id tid invalidated s =
     (case ss_invq s storage_id of
        None \<Rightarrow> (Inl KeyError, s)
      | Some invq \<Rightarrow>
          if length invq \<ge> ss_invq_bound s \<and> invq = [] then (Inl IndexError, s)
          else (let invq' = (if length invq \<ge> ss_invq_bound s then butlast invq else invq)
                in (Inr (), s\<lparr>ss_invq := (ss_invq s)(storage_id \<mapsto> (tid, invalidated) # invq')\<rparr>)))"

definition message_for ::
  "(nat \<times> bytes option) option \<Rightarrow> bytes \<Rightarrow> 'oid list \<Rightarrow> 'info option \<Rightarrow> nat \<times> bytes option
     \<Rightarrow> (nat \<times> ('oid, 'info) message) list" where
  "message_for conn tid invalidated info zs =
     (case conn of
        None \<Rightarrow> []
      | Some c \<Rightarrow>
          if snd zs = snd c then
            (if invalidated \<noteq> [] \<and> fst zs \<noteq> fst c then [(fst zs, InvalidateTransaction tid invalidated)]
             else case info of None \<Rightarrow> [] | Some i \<Rightarrow> [(fst zs, Info i)])
          else [])"

definition invalidate ::
  "(nat \<times> bytes option) option \<Rightarrow> bytes \<Rightarrow> bytes \<Rightarrow> 'oid list \<Rightarrow> 'info option
     \<Rightarrow> (('oid, 'info) storage_server, unit) meth" where
  "invalidate conn storage_id tid invalidated info =
     m_bind (if invalidated \<noteq> [] then push_invq storage_id tid invalidated else m_return ()) (\<lambda>_ s.
       case ss_connections s storage_id of
         None \<Rightarrow> (Inl KeyError, s)
       | Some conns \<Rightarrow>
           (Inr (), s\<lparr>
             ss_sent := ss_sent s @ concat (map (message_for conn tid invalidated info) conns),
             ss_cert_invalidated := ss_cert_invalidated s @
               (if storage_id = ss_cert_storage_id s then [(tid, invalidated)] else [])\<rparr>))"

section \<open>Properties\<close>

text \<open>The user a certificate and credentials show the peer to be.\<close>

definition authenticated ::
  "account_env \<Rightarrow> admin \<Rightarrow> bytes \<Rightarrow> (bytes \<times> bytes) option \<Rightarrow> bytes \<Rightarrow> bool" where
  "authenticated E admin der credentials uid \<longleftrightarrow>
     a_users admin uid = Some uid \<and>
     (case credentials of
        None \<Rightarrow> a_uids admin der = Some (Some uid)
      | Some (name, password) \<Rightarrow>
          (a_uids admin der = Some (Some uid) \<or> a_uids admin der = Some None) \<and>
          a_users_by_name admin name = Some uid \<and>
          (\<exists>user salt. a_objects admin uid = Some user \<and> u_salt user = Some salt \<and>
             u_password user = Some (user_hash_password E password salt)))"

lemma look_up_cert_cases:
  "look_up_cert admin der zs =
     (case a_uids admin der of None \<Rightarrow> (Inl KeyError, zs) | Some uid \<Rightarrow> (Inr (), zs\<lparr>zs_user_id := uid\<rparr>))"
  by (simp add: look_up_cert_def meth_simps split: option.splits)

lemma users_ok_holder:
  assumes "admin_inv E W nobody admin" "a_uids admin der = Some (Some uid)"
  shows "a_users admin uid = Some uid"
proof -
  have "index_ok E W nobody (live_certs admin) (a_uids admin) (a_certs admin)"
    using assms(1) by (simp add: admin_inv_def)
  from index_ok_uids [OF this, of der uid] assms(2) show ?thesis by (auto simp: live_certs_def)
qed

lemma register_Inr:
  assumes "admin_inv E W nobody admin"
    and "register super E admin der credentials zs = (Inr (), zs')" "super_ok super"
  shows "\<exists>uid. authenticated E admin der credentials uid \<and> zs_user_id zs' = Some uid \<and>
    zs_storage zs' = Owner_Storage_Of Base_Storage (Some uid)"
proof -
  have U: "users_ok admin" using assms(1) by (simp add: admin_inv_def)
  obtain z1 where z1: "super zs = (Inr (), z1)"
    using assms(2) by (cases "super zs"; cases "fst (super zs)") (auto simp: register_def meth_simps)
  then have base: "zs_storage z1 = Base_Storage"
    using assms(3) unfolding super_ok_def by (metis (mono_tags, lifting) case_prod_conv old.sum.simps(6))
  obtain cu where cu: "a_uids admin der = Some cu"
    using assms(2) z1 by (cases "a_uids admin der") (auto simp: register_def meth_simps look_up_cert_cases)
  show ?thesis
  proof (cases credentials)
    case None
    then obtain uid where "cu = Some uid"
      using assms(2) z1 cu by (cases cu) (auto simp: register_def meth_simps look_up_cert_cases)
    with None assms(2) z1 cu base show ?thesis
      using users_ok_holder [OF assms(1)]
      by (auto simp: register_def meth_simps look_up_cert_cases authenticated_def)
  next
    case (Some c)
    obtain name pw where c: "c = (name, pw)" by fastforce
    let ?z2 = "z1\<lparr>zs_user_id := cu\<rparr>"
    have run: "m_bind (check_credentials E admin name pw)
        (\<lambda>_. m_modify (\<lambda>zs. zs\<lparr>zs_storage := Owner_Storage_Of (zs_storage zs) (zs_user_id zs)\<rparr>)) ?z2 = (Inr (), zs')"
      using assms(2) z1 cu by (simp add: register_def meth_simps look_up_cert_cases Some c)
    then obtain uid user where n: "a_users_by_name admin name = Some uid" "a_objects admin uid = Some user"
      "check_password E user pw = Inr True" "cu = None \<or> cu = Some (u_id user)"
      "zs' = ?z2\<lparr>zs_user_id := Some (u_id user), zs_storage := Owner_Storage_Of (zs_storage ?z2) (Some (u_id user))\<rparr>"
      by (auto simp: check_credentials_def m_bind_def meth_simps
          split: option.splits if_splits sum.splits bool.splits prod.splits)
    have "u_id user = uid" "a_users admin uid = Some uid"
      using users_ok_name [OF U n(1)] users_ok_user [OF U, of uid uid] n(2) by auto
    moreover obtain salt where "u_salt user = Some salt" "u_password user = Some (user_hash_password E pw salt)"
      using n(3) by (auto simp: check_password_def split: option.splits)
    ultimately show ?thesis
      using n cu base by (auto simp: authenticated_def Some c)
  qed
qed

text \<open>
  C3: who gets in is who he shows to be: when \<open>register\<close> returns, the connection works on
  the server's storage wrapped for one registered user, which is the holder of the
  certificate or, with the placeholder certificate, the named user; and where credentials
  are given the password was right. In particular the placeholder certificate alone, or
  another user's certificate with right credentials, does not get in.
\<close>

theorem login_sound:
  assumes "admin_inv E W nobody admin" "super_ok super"
    and "register super E admin der credentials zs = (Inr (), zs')"
  shows "\<exists>uid. authenticated E admin der credentials uid \<and> get_root_id zs' = Some uid \<and>
    zs_storage zs' = Owner_Storage_Of Base_Storage (Some uid)"
  using register_Inr [OF assms(1,3,2)] by (simp add: get_root_id_def)

theorem login_sound_witness:
  "let r = register demo_super demo_accounts demo_admin ''der-cert-A'' None fresh_connection
   in fst r = Inr () \<and>
      (\<exists>uid. authenticated demo_accounts demo_admin ''der-cert-A'' None uid \<and> get_root_id (snd r) = Some uid)"
proof -
  obtain zs' where r: "register demo_super demo_accounts demo_admin ''der-cert-A'' None fresh_connection = (Inr (), zs')"
    by (simp add: register_def demo_super_def fresh_connection_def meth_simps m_bind_def
        look_up_cert_cases demo_admin_root)
  from login_sound [OF demo_admin_inv demo_super_ok r] r show ?thesis by auto
qed

lemma server_password_nonempty:
  assumes "kdf_ok K" "server_password K name password appname = Inr h"
  shows "h \<noteq> []"
proof -
  obtain x where "h = sha256_digest K x"
    using assms(2) by (auto simp: server_password_def bindr_eq_Inr)
  then have "length h = 32" using assms(1) by (simp add: kdf_ok_def)
  then show ?thesis by auto
qed

text \<open>A user made with a password, without a certificate.\<close>

lemma add_user_password:
  assumes "kdf_ok K" "password \<noteq> []"
    and "add_user E (run_kdf K f) appname oid salt name None (Some password) a = (Inr uid, a')"
  obtains h where "server_password K name password appname = Inr h" "uid = oid"
    "a_users_by_name a' name = Some oid" "a_uids a' = a_uids a"
    "a_objects a' oid = Some \<lparr>u_name = name, u_id = oid, u_certs = [], u_salt = Some salt,
       u_password = Some (user_hash_password E h salt)\<rparr>"
proof -
  from assms(3) obtain pw k where pw: "run_kdf K f (Some name) (Some password) None None appname None = Inr (pw, k)"
    by (cases "run_kdf K f (Some name) (Some password) None None appname None")
      (auto simp: add_user_def m_bind_def meth_simps)
  from run_kdf_password [OF assms(2) pw] obtain h where
    h: "pw = Some h" "server_password K name password appname = Inr h" by auto
  from server_password_nonempty [OF assms(1) h(2)] show thesis
    using assms(3) pw h
    by (intro that [of h])
      (auto simp: add_user_def m_bind_def meth_simps given_def new_user_def Let_def)
qed

text \<open>
  C4: a password works from end to end: whichever key derivation function the account
  was made with and whichever the client's library chooses, the credentials the client
  computes from the same name, password and application let it in with the placeholder
  certificate, as that user.
\<close>

theorem password_login:
  assumes "kdf_ok K" "password \<noteq> []" "super_ok super" "super zs = (Inr (), z1)"
    and "a_uids a der = Some None"
    and "add_user E (run_kdf K f) appname oid salt name None (Some password) a = (Inr uid, a')"
    and "db_credentials K None (Some name) (Some password) key_file cert_file appname key = Inr (Some (Some name, h), k)"
  shows "\<exists>zs'. register super E a' der (Some (name, h)) zs = (Inr (), zs') \<and>
    get_root_id zs' = Some uid \<and> zs_storage zs' = Owner_Storage_Of Base_Storage (Some uid)"
proof -
  obtain h' where a': "server_password K name password appname = Inr h'" "uid = oid"
    "a_users_by_name a' name = Some oid" "a_uids a' = a_uids a"
    "a_objects a' oid = Some \<lparr>u_name = name, u_id = oid, u_certs = [], u_salt = Some salt,
       u_password = Some (user_hash_password E h' salt)\<rparr>"
    by (rule add_user_password [OF assms(1,2,6)])
  from assms(7) obtain g w where "run_kdf K g (Some name) (Some password) key_file cert_file appname key = Inr (w, k)"
    and "Some (Some name, h) = (if given w then Some (Some name, the w) else None)"
    by (auto simp: db_credentials_def bindr_eq_Inr split: if_splits)
  with run_kdf_password [OF assms(2)] a'(1) have "h = h'"
    by (fastforce split: if_splits)
  moreover have "zs_storage z1 = Base_Storage"
    using assms(3,4) unfolding super_ok_def by (metis (mono_tags, lifting) case_prod_conv old.sum.simps(6))
  ultimately show ?thesis
    using a' assms(4,5)
    by (simp add: register_def m_bind_def meth_simps look_up_cert_cases check_credentials_def
        check_password_def get_root_id_def)
qed

theorem password_login_witness:
  "\<exists>h a' zs'. fst (add_user demo_accounts (run_kdf demo_kdf Hash_password) ''app'' ''new'' ''salt'' ''joe'' None (Some ''pw'') demo_admin)
       = Inr ''new'' \<and>
     register demo_super demo_accounts a' ''der-nobody'' (Some (''joe'', h)) fresh_connection = (Inr (), zs') \<and>
     get_root_id zs' = Some ''new''"
proof -
  obtain a' where a': "add_user demo_accounts (run_kdf demo_kdf Hash_password) ''app'' ''new'' ''salt'' ''joe'' None (Some ''pw'') demo_admin
      = (Inr ''new'', a')"
    by (simp add: add_user_def m_bind_def meth_simps given_def hash_password_def kdf_salt_def demo_kdf_def)
  obtain h k where h: "db_credentials demo_kdf None (Some ''joe'') (Some ''pw'') None None ''app'' None = Inr (Some (Some ''joe'', h), k)"
    by (simp add: db_credentials_def guess_def key_from_password_def kdf_salt_def demo_kdf_def given_def)
  have super: "demo_super fresh_connection = (Inr (), fresh_connection\<lparr>zs_storage := Base_Storage\<rparr>)"
    by (simp add: demo_super_def fresh_connection_def)
  have pw: "(''pw'' :: bytes) \<noteq> []" by simp
  have nobody: "a_uids demo_admin ''der-nobody'' = Some None"
    by (simp add: demo_admin_def new_admin_def demo_accounts_def add_user_def m_bind_def meth_simps
      hash_password_def kdf_salt_def demo_kdf_def given_def add_user_cert_def with_user_def new_user_def)
  from password_login [OF demo_kdf_ok pw demo_super_ok super nobody a' h] a' show ?thesis by auto
qed

text \<open>
  A login that fails after ZEO's register leaves the connection with the server's storage,
  not wrapped, and with a user id that no password has confirmed.
\<close>

lemma failed_login_unwrapped:
  assumes "super zs = (Inr (), z1)" "a_uids admin der = Some None"
  shows "register super E admin der None zs = (Inl AuthError, z1\<lparr>zs_user_id := None\<rparr>)"
  using assms by (simp add: register_def m_bind_def look_up_cert_cases)

text \<open>
  C28: a transaction is announced to the connections of its user and to no others: every
  message sent goes to a connection with the caller's user id; every other connection of
  that user gets the transaction's object ids; and the queue of recent transactions starts
  with this one and, once within its bound, stays within it.
\<close>

theorem invalidate_confined:
  assumes "invalidate (Some c) storage_id tid invalidated info s = (Inr (), s')"
    and "ss_connections s storage_id = Some conns" "invalidated \<noteq> []"
  shows "\<exists>msgs q. ss_sent s' = ss_sent s @ msgs \<and>
    (\<forall>i m. (i, m) \<in> set msgs \<longrightarrow> (i, snd c) \<in> set conns) \<and>
    (\<forall>i. (i, snd c) \<in> set conns \<and> i \<noteq> fst c \<longrightarrow> (i, InvalidateTransaction tid invalidated) \<in> set msgs) \<and>
    ss_invq s' storage_id = Some ((tid, invalidated) # q) \<and>
    (length (the (ss_invq s storage_id)) \<le> ss_invq_bound s \<longrightarrow>
       length ((tid, invalidated) # q) \<le> ss_invq_bound s)"
proof -
  from assms(1,3) obtain s1 where s1: "push_invq storage_id tid invalidated s = (Inr (), s1)"
    by (cases "push_invq storage_id tid invalidated s"; cases "fst (push_invq storage_id tid invalidated s)")
      (auto simp: invalidate_def m_bind_def)
  then obtain q0 where q0: "ss_invq s storage_id = Some q0" "length q0 \<ge> ss_invq_bound s \<Longrightarrow> q0 \<noteq> []"
    and s1': "s1 = s\<lparr>ss_invq := (ss_invq s)(storage_id \<mapsto>
      (tid, invalidated) # (if length q0 \<ge> ss_invq_bound s then butlast q0 else q0))\<rparr>"
    by (auto simp: push_invq_def Let_def split: option.splits if_splits)
  let ?msgs = "concat (map (message_for (Some c) tid invalidated info) conns)"
  have sent: "ss_sent s' = ss_sent s @ ?msgs" "ss_invq s' = ss_invq s1"
    using assms s1 s1' by (auto simp: invalidate_def m_bind_def)
  have "\<forall>i m. (i, m) \<in> set ?msgs \<longrightarrow> (i, snd c) \<in> set conns"
    by (auto simp: message_for_def split: if_splits option.splits)
  moreover have "\<forall>i. (i, snd c) \<in> set conns \<and> i \<noteq> fst c \<longrightarrow>
      (i, InvalidateTransaction tid invalidated) \<in> set ?msgs"
    using assms(3) by (force simp: message_for_def)
  moreover have "ss_invq s' storage_id =
      Some ((tid, invalidated) # (if length q0 \<ge> ss_invq_bound s then butlast q0 else q0))"
    using sent(2) by (simp add: s1')
  moreover have "length q0 \<le> ss_invq_bound s \<longrightarrow>
      length ((tid, invalidated) # (if length q0 \<ge> ss_invq_bound s then butlast q0 else q0)) \<le> ss_invq_bound s"
    using q0(2) by (cases q0) auto
  ultimately show ?thesis
    using sent(1) unfolding q0(1) option.sel by blast
qed

definition demo_server :: "(nat, unit) storage_server" where
  "demo_server = \<lparr>ss_invq = [''1'' \<mapsto> [(''t1'', [7]), (''t0'', [8])]], ss_invq_bound = 2,
     ss_connections = [''1'' \<mapsto> [(0, Some ''joe''), (1, Some ''ann''), (2, Some ''joe'')]],
     ss_cert_storage_id = ''1'', ss_sent = [], ss_cert_invalidated = []\<rparr>"

theorem invalidate_confined_witness:
  "let r = invalidate (Some (0, Some ''joe'')) ''1'' ''t2'' [9] None demo_server
   in fst r = Inr () \<and> (2, InvalidateTransaction ''t2'' [9]) \<in> set (ss_sent (snd r)) \<and>
      length (the (ss_invq (snd r) ''1'')) \<le> 2"
proof -
  obtain s' where s': "invalidate (Some (0, Some ''joe'')) ''1'' ''t2'' [9] None demo_server = (Inr (), s')"
    by (simp add: invalidate_def m_bind_def push_invq_def demo_server_def)
  have c: "ss_connections demo_server ''1'' = Some [(0, Some ''joe''), (1, Some ''ann''), (2, Some ''joe'')]"
    "[9::nat] \<noteq> []" by (simp_all add: demo_server_def)
  from invalidate_confined [OF s' c] s' show ?thesis
    by (auto simp: demo_server_def)
qed

end
