(* ===== verification/Document_Index.thy ===== *)
theory Document_Index
  imports Prelude
begin

text \<open>
  What every index of the catalog is for its callers (locale \<open>document_index\<close>): a map
  from document ids to values, with an operation that sets a document's value and one
  that forgets it. The lemmas in it are what the indexing queue and the models rely on:
  a batch of operations is the batch of map updates, and only the last operation on a
  document counts. Also the mixin of zerodb/catalog/indexes/common.py, which finds a
  document's value.
\<close>

section \<open>The interface\<close>

datatype 'v doc_op = Put int 'v | Del int

fun op_doc :: "'v doc_op \<Rightarrow> int" where
  "op_doc (Put d v) = d"
| "op_doc (Del d) = d"

fun map_op :: "'v doc_op \<Rightarrow> (int \<Rightarrow> 'v option) \<Rightarrow> int \<Rightarrow> 'v option" where
  "map_op (Put d v) m = m(d \<mapsto> v)"
| "map_op (Del d) m = m(d := None)"

lemma map_op_other: "d \<noteq> op_doc x \<Longrightarrow> map_op x m d = m d"
  by (cases x) auto

lemma map_op_absorb: "op_doc x = op_doc y \<Longrightarrow> map_op y (map_op x m) = map_op y m"
  by (cases x; cases y) auto

lemma map_op_commute: "op_doc x \<noteq> op_doc y \<Longrightarrow> map_op y (map_op x m) = map_op x (map_op y m)"
  by (cases x; cases y) (auto simp: fun_upd_twist)

text \<open>Some indexes take only certain values.\<close>

fun valid_op :: "('v \<Rightarrow> bool) \<Rightarrow> 'v doc_op \<Rightarrow> bool" where
  "valid_op valid (Put d v) = valid v"
| "valid_op valid (Del d) = True"

lemma valid_op_all [simp]: "valid_op (\<lambda>_. True) x"
  by (cases x) simp_all

locale document_index =
  fixes inv :: "'s \<Rightarrow> bool"
    and valid :: "'v \<Rightarrow> bool"
    and view :: "'s \<Rightarrow> int \<Rightarrow> 'v option"
    and put :: "int \<Rightarrow> 'v \<Rightarrow> 's \<Rightarrow> 's"
    and del :: "int \<Rightarrow> 's \<Rightarrow> 's"
  assumes put_inv: "inv s \<Longrightarrow> valid v \<Longrightarrow> inv (put d v s)"
    and put_view: "inv s \<Longrightarrow> valid v \<Longrightarrow> view (put d v s) = (view s)(d \<mapsto> v)"
    and del_inv: "inv s \<Longrightarrow> inv (del d s)"
    and del_view: "inv s \<Longrightarrow> view (del d s) = (view s)(d := None)"
begin

fun run_op :: "'v doc_op \<Rightarrow> 's \<Rightarrow> 's" where
  "run_op (Put d v) s = put d v s"
| "run_op (Del d) s = del d s"

lemma run_op_inv: "inv s \<Longrightarrow> valid_op valid x \<Longrightarrow> inv (run_op x s)"
  by (cases x) (simp_all add: put_inv del_inv)

lemma run_op_view: "inv s \<Longrightarrow> valid_op valid x \<Longrightarrow> view (run_op x s) = map_op x (view s)"
  by (cases x) (simp_all add: put_view del_view)

lemma run_inv: "inv s \<Longrightarrow> \<forall>x \<in> set xs. valid_op valid x \<Longrightarrow> inv (fold run_op xs s)"
  by (induction xs arbitrary: s) (simp_all add: run_op_inv)

lemma run_view:
  "inv s \<Longrightarrow> \<forall>x \<in> set xs. valid_op valid x \<Longrightarrow> view (fold run_op xs s) = fold map_op xs (view s)"
  by (induction xs arbitrary: s) (simp_all add: run_op_inv run_op_view)

text \<open>An operation that a later one on the same document overtakes can be left out.\<close>

lemma run_overtaken:
  assumes "inv s" "op_doc x = op_doc y" "\<forall>z \<in> set (xs @ x # ys @ y # zs). valid_op valid z"
  shows "view (fold run_op (xs @ x # ys @ y # zs) s) = view (fold run_op (xs @ ys @ y # zs) s)"
proof -
  have "fold map_op (x # ys @ [y]) m = fold map_op (ys @ [y]) m" for m
  proof (induction ys arbitrary: m)
    case Nil
    then show ?case using assms(2) by (simp add: map_op_absorb)
  next
    case (Cons z ys)
    show ?case
    proof (cases "op_doc z = op_doc x")
      case True
      then show ?thesis by (simp add: map_op_absorb)
    next
      case False
      then have "map_op z (map_op x m) = map_op x (map_op z m)" by (simp add: map_op_commute)
      then show ?thesis using Cons.IH [of "map_op z m"] by simp
    qed
  qed
  then show ?thesis
    using run_view [OF assms(1,3)] run_view [OF assms(1), of "xs @ ys @ y # zs"] assms(3)
    by simp
qed

text \<open>Setting the value a document has already changes nothing.\<close>

lemma put_same: "inv s \<Longrightarrow> valid v \<Longrightarrow> view s d = Some v \<Longrightarrow> view (put d v s) = view s"
  by (simp add: put_view fun_upd_idem)

end

section \<open>Finding a document's value\<close>

text \<open>
  What an attribute or a virtual field gives: no value (also the empty tuple, which is
  the code's marker for it), an object that no index takes, or a value.
\<close>

datatype 'v attr = Missing | Persistent_Object | Broken_Object | Value 'v

text \<open>
  \<open>CallableDiscriminatorMixin\<close>: a discriminator is the name of an attribute, or of a
  virtual field of the object's class, a function which may raise.
\<close>

record ('o, 'v) object_model =
  om_getattr :: "'o \<Rightarrow> string \<Rightarrow> 'v attr"
  om_virtuals :: "'o \<Rightarrow> string \<Rightarrow> ('o \<Rightarrow> 'v attr res) option"

datatype discriminator = Attribute string | Virtual string

text \<open>\<open>_init_discriminator\<close>: a name, a 1-tuple of a name, or something else.\<close>

datatype discriminator_arg = Arg_String string | Arg_Tuple "string list" | Arg_Other

fun init_discriminator :: "discriminator_arg \<Rightarrow> discriminator res" where
  "init_discriminator (Arg_Tuple [d]) = Inr (Virtual d)"
| "init_discriminator (Arg_Tuple _) = Inl ValueError"
| "init_discriminator (Arg_String d) = Inr (Attribute d)"
| "init_discriminator Arg_Other = Inl ValueError"

definition discriminate :: "('o, 'v) object_model \<Rightarrow> discriminator \<Rightarrow> 'o \<Rightarrow> 'v attr" where
  "discriminate M d obj =
     (case d of
        Attribute name \<Rightarrow> om_getattr M obj name
      | Virtual name \<Rightarrow>
          (case om_virtuals M obj name of
             None \<Rightarrow> Missing
           | Some f \<Rightarrow> (case f obj of Inl _ \<Rightarrow> Missing | Inr v \<Rightarrow> v)))"

text \<open>
  The mixin's \<open>index_doc\<close>. The state is \<open>_not_indexed\<close> and the index of the class behind
  \<open>CatalogIndex\<close>, whose two operations are arguments.
\<close>

definition mixin_index_doc ::
  "('o, 'v) object_model \<Rightarrow> discriminator \<Rightarrow> (int \<Rightarrow> 's \<Rightarrow> 's) \<Rightarrow> (int \<Rightarrow> 'v \<Rightarrow> 's \<Rightarrow> 's)
     \<Rightarrow> int \<Rightarrow> 'o \<Rightarrow> (int set \<times> 's, unit) meth" where
  "mixin_index_doc M d unindex index docid obj = (\<lambda>(not_indexed, s).
     case discriminate M d obj of
       Missing \<Rightarrow> (Inr (), insert docid not_indexed, unindex docid s)
     | Persistent_Object \<Rightarrow> (Inl ValueError, not_indexed, s)
     | Broken_Object \<Rightarrow> (Inl ValueError, not_indexed, s)
     | Value v \<Rightarrow> (Inr (), not_indexed - {docid}, index docid v s))"

end
