(* ===== verification/Field_Index.thy ===== *)
theory Field_Index
  imports Document_Index
begin

text \<open>
  zerodb/catalog/indexes/field.py: the index from values to document ids. A value with one
  document has its id, one with a few a tuple of ids, one with many a TreeSet. The BTrees
  are maps, read in the order of their keys; TreeSets are sets, read in ascending order;
  lazy sequences are the lists they run through. The abstract view of an index is the
  map from document ids to values.
\<close>

section \<open>State\<close>

datatype docset = One int | Tup "int list" | Tree "int set"

record 'v field_index =
  fi_fwd :: "'v \<Rightarrow> docset option"
  fi_rev :: "int \<Rightarrow> 'v option"
  fi_not_indexed :: "int set"
  fi_num_docs :: int

definition threshold :: nat where "threshold = 10"

definition new_field_index :: "'v field_index" where
  "new_field_index = \<lparr>fi_fwd = Map.empty, fi_rev = Map.empty, fi_not_indexed = {}, fi_num_docs = 0\<rparr>"

section \<open>Updates\<close>

text \<open>\<open>unindex_doc\<close>; a KeyError in the forward index is ignored.\<close>

definition drop_doc :: "int \<Rightarrow> 'v \<Rightarrow> ('v \<Rightarrow> docset option) \<Rightarrow> 'v \<Rightarrow> docset option" where
  "drop_doc docid v fwd =
     (case fwd v of
        None \<Rightarrow> fwd
      | Some (One _) \<Rightarrow> fwd(v := None)
      | Some (Tup docids) \<Rightarrow>
          (let newtuple = filter (\<lambda>i. i \<noteq> docid) docids
           in if newtuple = [] then fwd(v := None) else fwd(v \<mapsto> Tup newtuple))
      | Some (Tree S) \<Rightarrow>
          if docid \<in> S
          then (if S - {docid} = {} then fwd(v := None) else fwd(v \<mapsto> Tree (S - {docid})))
          else fwd)"

definition unindex_doc :: "int \<Rightarrow> 'v field_index \<Rightarrow> 'v field_index" where
  "unindex_doc docid f =
     (let f = f\<lparr>fi_not_indexed := fi_not_indexed f - {docid}\<rparr> in
      case fi_rev f docid of
        None \<Rightarrow> f
      | Some v \<Rightarrow> f\<lparr>fi_rev := (fi_rev f)(docid := None), fi_fwd := drop_doc docid v (fi_fwd f),
                     fi_num_docs := fi_num_docs f - 1\<rparr>)"

definition up_to_date :: "int \<Rightarrow> 'v \<Rightarrow> 'v field_index \<Rightarrow> bool" where
  "up_to_date docid v f =
     (case fi_fwd f v of
        None \<Rightarrow> False
      | Some (One d) \<Rightarrow> d = docid
      | Some (Tup docids) \<Rightarrow> docid \<in> set docids
      | Some (Tree S) \<Rightarrow> docid \<in> S)"

definition add_doc :: "int \<Rightarrow> docset option \<Rightarrow> docset" where
  "add_doc docid cur =
     (case cur of
        None \<Rightarrow> One docid
      | Some (One d) \<Rightarrow> Tup [d, docid]
      | Some (Tup docids) \<Rightarrow>
          if length docids \<ge> threshold - 1 then Tree (insert docid (set docids)) else Tup (docids @ [docid])
      | Some (Tree S) \<Rightarrow> Tree (insert docid S))"

definition inner_index_doc :: "int \<Rightarrow> 'v \<Rightarrow> 'v field_index \<Rightarrow> 'v field_index" where
  "inner_index_doc docid v f =
     (if fi_rev f docid \<noteq> None \<and> up_to_date docid v f then f
      else
        (let f = (if fi_rev f docid \<noteq> None then unindex_doc docid f else f)
         in f\<lparr>fi_fwd := (fi_fwd f)(v \<mapsto> add_doc docid (fi_fwd f v)),
              fi_num_docs := fi_num_docs f + 1,
              fi_rev := (fi_rev f)(docid \<mapsto> v)\<rparr>))"

text \<open>\<open>index_doc\<close>; \<open>base_unindex\<close> is the \<open>unindex_doc\<close> of the class behind \<open>CatalogIndex\<close>.\<close>

definition index_doc ::
  "('o, 'v) object_model \<Rightarrow> discriminator \<Rightarrow> (int \<Rightarrow> ('v field_index, unit) meth) \<Rightarrow> int \<Rightarrow> 'o
     \<Rightarrow> ('v field_index, unit) meth" where
  "index_doc M d base_unindex docid obj =
     (case discriminate M d obj of
        Missing \<Rightarrow> m_bind (base_unindex docid) (\<lambda>_.
          m_modify (\<lambda>f. f\<lparr>fi_not_indexed := insert docid (fi_not_indexed f)\<rparr>))
      | Persistent_Object \<Rightarrow> m_raise ValueError
      | Broken_Object \<Rightarrow> m_raise ValueError
      | Value v \<Rightarrow> m_modify (\<lambda>f.
          inner_index_doc docid v (f\<lparr>fi_not_indexed := fi_not_indexed f - {docid}\<rparr>)))"

section \<open>Queries\<close>

text \<open>\<open>NewTreeItems\<close>: an id reads as the 1-tuple of it.\<close>

fun docs_list :: "docset \<Rightarrow> int list" where
  "docs_list (One d) = [d]"
| "docs_list (Tup ds) = ds"
| "docs_list (Tree S) = sorted_list_of_set S"

text \<open>\<open>_fwd_index.values(start, end, excludemin, excludemax)\<close>; a bound of None is no bound.\<close>

definition in_bounds :: "'v::linorder option \<Rightarrow> 'v option \<Rightarrow> bool \<Rightarrow> bool \<Rightarrow> 'v \<Rightarrow> bool" where
  "in_bounds lo hi excludemin excludemax v \<longleftrightarrow>
     (case lo of None \<Rightarrow> True | Some l \<Rightarrow> if excludemin then l < v else l \<le> v) \<and>
     (case hi of None \<Rightarrow> True | Some h \<Rightarrow> if excludemax then v < h else v \<le> h)"

definition fwd_values ::
  "'v::linorder field_index \<Rightarrow> 'v option \<Rightarrow> 'v option \<Rightarrow> bool \<Rightarrow> bool \<Rightarrow> docset list" where
  "fwd_values f lo hi excludemin excludemax =
     map (\<lambda>v. the (fi_fwd f v))
       (filter (in_bounds lo hi excludemin excludemax) (sorted_list_of_set (dom (fi_fwd f))))"

definition applyInRange ::
  "'v::linorder field_index \<Rightarrow> 'v option \<Rightarrow> 'v option \<Rightarrow> bool \<Rightarrow> bool \<Rightarrow> int list" where
  "applyInRange f lo hi excludemin excludemax =
     concat (map docs_list (fwd_values f lo hi excludemin excludemax))"

definition applyEq :: "'v field_index \<Rightarrow> 'v \<Rightarrow> int list" where
  "applyEq f v =
     (case fi_fwd f v of
        None \<Rightarrow> []
      | Some (One d) \<Rightarrow> sorted_list_of_set {d}
      | Some (Tup ds) \<Rightarrow> sorted_list_of_set (set ds)
      | Some (Tree S) \<Rightarrow> sorted_list_of_set S)"

text \<open>
  \<open>scan_forward\<close>, a generator, as the list of what it yields: the inner loop over the
  ids of one value also tells whether the limit stopped it. A limit of None or 0 is none.
\<close>

definition limit_reached :: "int option \<Rightarrow> int \<Rightarrow> bool" where
  "limit_reached limit n = (case limit of None \<Rightarrow> False | Some l \<Rightarrow> l \<noteq> 0 \<and> n \<ge> l)"

fun scan_ids :: "int set \<Rightarrow> int option \<Rightarrow> int \<Rightarrow> int list \<Rightarrow> int list \<times> int \<times> bool" where
  "scan_ids docids limit n [] = ([], n, False)"
| "scan_ids docids limit n (d # ds) =
     (if d \<in> docids then
        (if limit_reached limit (n + 1) then ([d], n + 1, True)
         else (case scan_ids docids limit (n + 1) ds of (out, m, stop) \<Rightarrow> (d # out, m, stop)))
      else scan_ids docids limit n ds)"

fun scan_values :: "int set \<Rightarrow> int option \<Rightarrow> int \<Rightarrow> docset list \<Rightarrow> int list" where
  "scan_values docids limit n [] = []"
| "scan_values docids limit n (cur # rest) =
     (case cur of
        One d \<Rightarrow>
          if d \<in> docids then
            (if limit_reached limit (n + 1) then [d] else d # scan_values docids limit (n + 1) rest)
          else scan_values docids limit n rest
      | _ \<Rightarrow>
          (case scan_ids docids limit n (docs_list cur) of
             (out, m, stop) \<Rightarrow> if stop then out else out @ scan_values docids limit m rest))"

definition scan_forward :: "'v::linorder field_index \<Rightarrow> int set \<Rightarrow> int option \<Rightarrow> int list" where
  "scan_forward f docids limit = scan_values docids limit 0 (fwd_values f None None False False)"

text \<open>\<open>search\<close>: the set operations of the tree family are arguments.\<close>

datatype 'v search_query = Range_Value "'v option" "'v option" | Single_Value 'v

record set_family =
  sf_intersection :: "int set \<Rightarrow> int set option \<Rightarrow> int set"
  sf_multiunion :: "int set list \<Rightarrow> int set"
  sf_sort :: "int set list \<Rightarrow> int set list"

definition multiunion1 :: "docset list \<Rightarrow> int set" where
  "multiunion1 seqs = fold (\<lambda>s result. result \<union> set (docs_list s)) seqs {}"

definition query_set :: "'v::linorder field_index \<Rightarrow> 'v search_query \<Rightarrow> int set" where
  "query_set f q =
     (case q of
        Range_Value lo hi \<Rightarrow> multiunion1 (fwd_values f lo hi False False)
      | Single_Value v \<Rightarrow> multiunion1 (fwd_values f (Some v) (Some v) False False))"

definition search :: "set_family \<Rightarrow> 'v::linorder field_index \<Rightarrow> 'v search_query list \<Rightarrow> string \<Rightarrow> int set option" where
  "search F f queries operator =
     (let sets = map (query_set f) queries in
      if length sets = 1 then Some (hd sets)
      else if operator = ''and'' then
        fold (\<lambda>s result. Some (sf_intersection F s result)) (sf_sort F sets) None
      else Some (sf_multiunion F sets))"

section \<open>The invariant\<close>

fun docs_of :: "docset \<Rightarrow> int set" where
  "docs_of (One d) = {d}"
| "docs_of (Tup ds) = set ds"
| "docs_of (Tree S) = S"

text \<open>A tuple stays short and without duplicates, and nothing is kept empty.\<close>

fun docset_ok :: "docset \<Rightarrow> bool" where
  "docset_ok (One d) \<longleftrightarrow> True"
| "docset_ok (Tup ds) \<longleftrightarrow> distinct ds \<and> ds \<noteq> [] \<and> length ds < threshold"
| "docset_ok (Tree S) \<longleftrightarrow> finite S \<and> S \<noteq> {}"

definition fwd_docs :: "('v \<Rightarrow> docset option) \<Rightarrow> 'v \<Rightarrow> int set" where
  "fwd_docs fwd v = (case fwd v of None \<Rightarrow> {} | Some D \<Rightarrow> docs_of D)"

definition fwd_ok :: "('v \<Rightarrow> docset option) \<Rightarrow> bool" where
  "fwd_ok fwd \<longleftrightarrow> finite (dom fwd) \<and> (\<forall>v D. fwd v = Some D \<longrightarrow> docset_ok D)"

definition field_inv :: "'v field_index \<Rightarrow> bool" where
  "field_inv f \<longleftrightarrow> fwd_ok (fi_fwd f) \<and> finite (dom (fi_rev f)) \<and>
     (\<forall>v d. d \<in> fwd_docs (fi_fwd f) v \<longleftrightarrow> fi_rev f d = Some v) \<and>
     fi_num_docs f = int (card (dom (fi_rev f))) \<and> fi_not_indexed f \<inter> dom (fi_rev f) = {}"

lemma docset_okD: "fwd_ok fwd \<Longrightarrow> fwd v = Some D \<Longrightarrow> docset_ok D"
  by (simp add: fwd_ok_def)

lemma fwd_docs_upd [simp]:
  "fwd_docs (fwd(v := None)) = (fwd_docs fwd)(v := {})"
  "fwd_docs (fwd(v \<mapsto> D)) = (fwd_docs fwd)(v := docs_of D)"
  by (auto simp: fwd_docs_def fun_eq_iff)

lemma fwd_ok_upd:
  "fwd_ok fwd \<Longrightarrow> fwd_ok (fwd(v := None))"
  "fwd_ok fwd \<Longrightarrow> docset_ok D \<Longrightarrow> fwd_ok (fwd(v \<mapsto> D))"
  by (auto simp: fwd_ok_def split: if_splits)

lemma drop_doc_ok:
  assumes "fwd_ok fwd" "docid \<in> fwd_docs fwd v"
  shows "fwd_ok (drop_doc docid v fwd)"
    and "fwd_docs (drop_doc docid v fwd) = (fwd_docs fwd)(v := fwd_docs fwd v - {docid})"
proof -
  obtain D where D: "fwd v = Some D" using assms(2) by (auto simp: fwd_docs_def split: option.splits)
  have ok: "docset_ok D" by (rule docset_okD [OF assms(1) D])
  have "fwd_ok (drop_doc docid v fwd) \<and>
    fwd_docs (drop_doc docid v fwd) = (fwd_docs fwd)(v := fwd_docs fwd v - {docid})"
  proof (cases D)
    case (One d)
    then show ?thesis using D assms fwd_ok_upd(1) by (auto simp: drop_doc_def fwd_docs_def)
  next
    case (Tup ds)
    let ?n = "filter (\<lambda>i. i \<noteq> docid) ds"
    have n: "fwd_docs fwd v - {docid} = set ?n" using D Tup by (auto simp: fwd_docs_def)
    have "?n \<noteq> [] \<Longrightarrow> docset_ok (Tup ?n)"
      using ok Tup le_less_trans [OF length_filter_le] by auto
    then show ?thesis
      unfolding n using D Tup fwd_ok_upd [OF assms(1)]
      by (cases "?n = []") (auto simp: drop_doc_def Let_def)
  next
    case (Tree S)
    have n: "fwd_docs fwd v - {docid} = S - {docid}" "docid \<in> S"
      using D Tree assms(2) by (auto simp: fwd_docs_def)
    have fin: "finite S" using ok Tree by simp
    show ?thesis
    proof (cases "S - {docid} = {}")
      case True
      then have "drop_doc docid v fwd = fwd(v := None)" using D Tree n(2) by (simp add: drop_doc_def)
      then show ?thesis unfolding n(1) True using fwd_ok_upd(1) [OF assms(1)] by simp
    next
      case False
      then have "drop_doc docid v fwd = fwd(v \<mapsto> Tree (S - {docid}))" using D Tree n(2) by (simp add: drop_doc_def)
      then show ?thesis unfolding n(1) using fwd_ok_upd(2) [OF assms(1)] fin False by simp
    qed
  qed
  then show "fwd_ok (drop_doc docid v fwd)"
    and "fwd_docs (drop_doc docid v fwd) = (fwd_docs fwd)(v := fwd_docs fwd v - {docid})" by simp_all
qed

lemma add_doc_ok:
  assumes "fwd_ok fwd" "docid \<notin> fwd_docs fwd v"
  shows "docset_ok (add_doc docid (fwd v))"
    and "docs_of (add_doc docid (fwd v)) = insert docid (fwd_docs fwd v)"
  using assms(2) docset_okD [OF assms(1), of v]
  by (auto simp: add_doc_def fwd_docs_def threshold_def split: option.splits docset.splits)

lemma up_to_date_iff: "up_to_date docid v f \<longleftrightarrow> docid \<in> fwd_docs (fi_fwd f) v"
  by (auto simp: up_to_date_def fwd_docs_def split: option.splits docset.splits)

lemma unindex_doc_rev [simp]: "fi_rev (unindex_doc docid f) = (fi_rev f)(docid := None)"
  by (auto simp: unindex_doc_def Let_def fun_eq_iff split: option.splits)

lemma unindex_doc_not_indexed: "fi_not_indexed (unindex_doc docid f) = fi_not_indexed f - {docid}"
  by (simp add: unindex_doc_def Let_def split: option.splits)

lemma unindex_doc_inv:
  assumes I: "field_inv f"
  shows "field_inv (unindex_doc docid f)"
proof (cases "fi_rev f docid")
  case None
  then show ?thesis using I by (auto simp: unindex_doc_def Let_def field_inv_def)
next
  case (Some v)
  have ok: "fwd_ok (fi_fwd f)" and v: "docid \<in> fwd_docs (fi_fwd f) v"
    using I Some by (auto simp: field_inv_def)
  let ?f = "unindex_doc docid f"
  have f: "fi_fwd ?f = drop_doc docid v (fi_fwd f)" "fi_num_docs ?f = fi_num_docs f - 1"
    using Some by (simp_all add: unindex_doc_def Let_def)
  have "int (card (dom (fi_rev f) - {docid})) = int (card (dom (fi_rev f))) - 1"
    by (rule card_filter_remove_int) (use I Some in \<open>auto simp: field_inv_def\<close>)
  moreover have "d \<in> fwd_docs (fi_fwd ?f) w \<longleftrightarrow> ((fi_rev f)(docid := None)) d = Some w" for d w
  proof -
    have "d \<in> fwd_docs (fi_fwd f) w \<longleftrightarrow> fi_rev f d = Some w" using I by (simp add: field_inv_def)
    then show ?thesis using Some by (auto simp: f drop_doc_ok(2) [OF ok v])
  qed
  ultimately show ?thesis
    using I drop_doc_ok(1) [OF ok v] by (auto simp: field_inv_def f unindex_doc_not_indexed)
qed

lemma insert_doc_inv:
  assumes I: "field_inv f" and new: "fi_rev f docid = None" "docid \<notin> fi_not_indexed f"
  shows "field_inv (f\<lparr>fi_fwd := (fi_fwd f)(v \<mapsto> add_doc docid (fi_fwd f v)), fi_num_docs := fi_num_docs f + 1,
           fi_rev := (fi_rev f)(docid \<mapsto> v)\<rparr>)"
proof -
  have iff: "d \<in> fwd_docs (fi_fwd f) w \<longleftrightarrow> fi_rev f d = Some w" for d w
    using I by (simp add: field_inv_def)
  have ok: "fwd_ok (fi_fwd f)" "docid \<notin> fwd_docs (fi_fwd f) v"
    using I new by (simp_all add: field_inv_def)
  have "d \<in> fwd_docs ((fi_fwd f)(v \<mapsto> add_doc docid (fi_fwd f v))) w \<longleftrightarrow> ((fi_rev f)(docid \<mapsto> v)) d = Some w" for d w
    using new by (auto simp: add_doc_ok(2) [OF ok] iff)
  moreover have "card (dom ((fi_rev f)(docid \<mapsto> v))) = card (dom (fi_rev f)) + 1"
    using card_dom_update [of "fi_rev f" docid v] I new by (simp add: field_inv_def domIff)
  ultimately show ?thesis
    using I new(2) fwd_ok_upd(2) [OF ok(1) add_doc_ok(1) [OF ok]] by (auto simp: field_inv_def)
qed

lemma inner_index_doc_ok:
  assumes I: "field_inv f" and "docid \<notin> fi_not_indexed f"
  shows "field_inv (inner_index_doc docid v f)"
    and "fi_rev (inner_index_doc docid v f) = (fi_rev f)(docid \<mapsto> v)"
proof -
  let ?f = "if fi_rev f docid \<noteq> None then unindex_doc docid f else f"
  have f: "field_inv ?f" "fi_rev ?f docid = None" "docid \<notin> fi_not_indexed ?f"
    "(fi_rev ?f)(docid \<mapsto> v) = (fi_rev f)(docid \<mapsto> v)"
    using I unindex_doc_inv [OF I] assms(2) by (auto simp: unindex_doc_not_indexed)
  have current: "fi_rev f docid = Some v" if "up_to_date docid v f"
    using that I by (simp add: up_to_date_iff field_inv_def)
  show "field_inv (inner_index_doc docid v f)"
    using insert_doc_inv [OF f(1-3), of v] I by (auto simp: inner_index_doc_def Let_def)
  show "fi_rev (inner_index_doc docid v f) = (fi_rev f)(docid \<mapsto> v)"
    using current f(4) by (auto simp: inner_index_doc_def Let_def)
qed

text \<open>The field index is a document index: \<open>put\<close> is \<open>index_doc\<close> for an object with a value.\<close>

definition field_put :: "int \<Rightarrow> 'v \<Rightarrow> 'v field_index \<Rightarrow> 'v field_index" where
  "field_put docid v f = inner_index_doc docid v (f\<lparr>fi_not_indexed := fi_not_indexed f - {docid}\<rparr>)"

lemma field_inv_not_indexed: "field_inv f \<Longrightarrow> field_inv (f\<lparr>fi_not_indexed := fi_not_indexed f - {docid}\<rparr>)"
  by (auto simp: field_inv_def)

interpretation field: document_index field_inv "\<lambda>_. True" fi_rev field_put unindex_doc
proof unfold_locales
  fix f :: "'v field_index" and d v
  assume I: "field_inv f"
  let ?f = "f\<lparr>fi_not_indexed := fi_not_indexed f - {d}\<rparr>"
  show "field_inv (field_put d v f)" "fi_rev (field_put d v f) = (fi_rev f)(d \<mapsto> v)"
    using inner_index_doc_ok [OF field_inv_not_indexed [OF I], of d d v] by (simp_all add: field_put_def)
  show "field_inv (unindex_doc d f)" "fi_rev (unindex_doc d f) = (fi_rev f)(d := None)"
    using unindex_doc_inv [OF I] by simp_all
qed

lemma index_doc_value:
  "discriminate M d obj = Value v \<Longrightarrow> index_doc M d base_unindex docid obj f = (Inr (), field_put docid v f)"
  by (simp add: index_doc_def m_modify_def field_put_def)

lemma new_field_index_inv: "field_inv new_field_index"
  by (simp add: field_inv_def new_field_index_def fwd_ok_def fwd_docs_def)

section \<open>Reading\<close>

lemma docs_list_ok:
  "docset_ok D \<Longrightarrow> distinct (docs_list D) \<and> set (docs_list D) = docs_of D"
  by (cases D) auto

text \<open>The ids under some keys, in their order.\<close>

definition docs_at :: "'v field_index \<Rightarrow> 'v list \<Rightarrow> int list" where
  "docs_at f ks = concat (map docs_list (map (\<lambda>v. the (fi_fwd f v)) ks))"

lemma docs_list_at:
  assumes "field_inv f" "v \<in> dom (fi_fwd f)"
  shows "distinct (docs_list (the (fi_fwd f v))) \<and>
    set (docs_list (the (fi_fwd f v))) = {d. fi_rev f d = Some v}"
proof -
  from assms(2) obtain D where D: "fi_fwd f v = Some D" by blast
  have "docset_ok D" using assms(1) D docset_okD by (auto simp: field_inv_def)
  moreover have "docs_of D = {d. fi_rev f d = Some v}"
  proof -
    have "d \<in> fwd_docs (fi_fwd f) v \<longleftrightarrow> fi_rev f d = Some v" for d
      using assms(1) by (simp add: field_inv_def)
    then show ?thesis using D by (auto simp: fwd_docs_def)
  qed
  ultimately show ?thesis using D docs_list_ok by simp
qed

lemma docs_at_simps [simp]:
  "docs_at f [] = []" "docs_at f (k # ks) = docs_list (the (fi_fwd f k)) @ docs_at f ks"
  by (simp_all add: docs_at_def)

lemma docs_at_ok:
  assumes I: "field_inv f"
  shows "distinct ks \<Longrightarrow> set ks \<subseteq> dom (fi_fwd f) \<Longrightarrow> distinct (docs_at f ks)"
    and "set ks \<subseteq> dom (fi_fwd f) \<Longrightarrow> set (docs_at f ks) = {d. \<exists>v \<in> set ks. fi_rev f d = Some v}"
proof -
  show set_eq: "set (docs_at f ks) = {d. \<exists>v \<in> set ks. fi_rev f d = Some v}"
    if "set ks \<subseteq> dom (fi_fwd f)" for ks
    using that docs_list_at [OF I] by (induction ks) auto
  show "distinct (docs_at f ks)" if "distinct ks" "set ks \<subseteq> dom (fi_fwd f)"
    using that
  proof (induction ks)
    case (Cons k ks)
    then show ?case
      using docs_list_at [OF I, of k] set_eq [of ks] by auto
  qed simp
qed

lemma sorted_const:
  fixes k :: "'v::linorder"
  shows "\<forall>x \<in> set xs. g x = k \<Longrightarrow> sorted (map g xs)"
  by (induction xs) auto

lemma docs_at_sorted:
  fixes f :: "'v::linorder field_index"
  assumes I: "field_inv f" and "sorted ks" "set ks \<subseteq> dom (fi_fwd f)"
  shows "sorted (map (\<lambda>d. the (fi_rev f d)) (docs_at f ks))"
  using assms(2,3)
proof (induction ks)
  case (Cons k ks)
  have "set (docs_at f ks) = {d. \<exists>v \<in> set ks. fi_rev f d = Some v}"
    using docs_at_ok(2) [OF I] Cons.prems by simp
  then have "\<forall>d \<in> set (docs_at f ks). k \<le> the (fi_rev f d)"
    using Cons.prems(1) by auto
  moreover have "\<forall>d \<in> set (docs_list (the (fi_fwd f k))). the (fi_rev f d) = k"
    using docs_list_at [OF I, of k] Cons.prems(2) by auto
  ultimately show ?case
    using Cons sorted_const [of "docs_list (the (fi_fwd f k))" "\<lambda>d. the (fi_rev f d)" k]
    by (simp add: sorted_append)
qed simp

lemma applyInRange_docs_at:
  "applyInRange f lo hi em eM =
     docs_at f (filter (in_bounds lo hi em eM) (sorted_list_of_set (dom (fi_fwd f))))"
  by (simp add: applyInRange_def fwd_values_def docs_at_def)

lemma range_keys:
  assumes "field_inv f"
  shows "set (filter (in_bounds lo hi em eM) (sorted_list_of_set (dom (fi_fwd f)))) =
      {v \<in> dom (fi_fwd f). in_bounds lo hi em eM v}"
    and "distinct (filter (in_bounds lo hi em eM) (sorted_list_of_set (dom (fi_fwd f))))"
    and "sorted (filter (in_bounds lo hi em eM) (sorted_list_of_set (dom (fi_fwd f))))"
proof -
  have "finite (dom (fi_fwd f))" using assms by (simp add: field_inv_def fwd_ok_def)
  then show "set (filter (in_bounds lo hi em eM) (sorted_list_of_set (dom (fi_fwd f)))) =
      {v \<in> dom (fi_fwd f). in_bounds lo hi em eM v}" by auto
  show "distinct (filter (in_bounds lo hi em eM) (sorted_list_of_set (dom (fi_fwd f))))" by simp
  show "sorted (filter (in_bounds lo hi em eM) (sorted_list_of_set (dom (fi_fwd f))))"
    by (rule sorted_wrt_filter) simp
qed

lemma rev_fwd: "field_inv f \<Longrightarrow> fi_rev f d = Some v \<Longrightarrow> v \<in> dom (fi_fwd f)"
proof -
  assume "field_inv f" "fi_rev f d = Some v"
  then have "d \<in> fwd_docs (fi_fwd f) v" by (simp add: field_inv_def)
  then show ?thesis by (cases "fi_fwd f v") (auto simp: fwd_docs_def)
qed

lemma range_docs:
  assumes I: "field_inv f"
  shows "set (applyInRange f lo hi em eM) = {d. \<exists>v. fi_rev f d = Some v \<and> in_bounds lo hi em eM v}"
    and "distinct (applyInRange f lo hi em eM)"
    and "sorted (map (\<lambda>d. the (fi_rev f d)) (applyInRange f lo hi em eM))"
proof -
  note keys = range_keys [OF I, of lo hi em eM]
  have sub: "set (filter (in_bounds lo hi em eM) (sorted_list_of_set (dom (fi_fwd f)))) \<subseteq> dom (fi_fwd f)"
    unfolding keys(1) by blast
  show "distinct (applyInRange f lo hi em eM)"
    unfolding applyInRange_docs_at by (rule docs_at_ok(1) [OF I keys(2) sub])
  show "sorted (map (\<lambda>d. the (fi_rev f d)) (applyInRange f lo hi em eM))"
    unfolding applyInRange_docs_at by (rule docs_at_sorted [OF I keys(3) sub])
  show "set (applyInRange f lo hi em eM) = {d. \<exists>v. fi_rev f d = Some v \<and> in_bounds lo hi em eM v}"
    unfolding applyInRange_docs_at docs_at_ok(2) [OF I sub] keys(1) using rev_fwd [OF I] by blast
qed

text \<open>What the limit leaves of a sequence when \<open>n\<close> ids have been found before.\<close>

definition limited :: "int option \<Rightarrow> int \<Rightarrow> 'a list \<Rightarrow> 'a list" where
  "limited limit n xs =
     (case limit of None \<Rightarrow> xs | Some l \<Rightarrow> if l = 0 then xs else take (nat (l - n)) xs)"

definition below_limit :: "int option \<Rightarrow> int \<Rightarrow> bool" where
  "below_limit limit n \<longleftrightarrow> (\<forall>l. limit = Some l \<longrightarrow> l = 0 \<or> n < l)"

lemma limited_Cons:
  assumes "below_limit limit n"
  shows "limit_reached limit (n + 1) \<Longrightarrow> limited limit n (d # xs) = [d]"
    and "\<not> limit_reached limit (n + 1) \<Longrightarrow>
      below_limit limit (n + 1) \<and> limited limit n (d # xs) = d # limited limit (n + 1) xs"
proof -
  show "limited limit n (d # xs) = [d]" if "limit_reached limit (n + 1)"
  proof (cases limit)
    case (Some l)
    then have "l = n + 1" using assms that by (auto simp: limit_reached_def below_limit_def)
    then show ?thesis using that Some by (simp add: limited_def limit_reached_def)
  qed (use that in \<open>simp add: limit_reached_def\<close>)
  show "below_limit limit (n + 1) \<and> limited limit n (d # xs) = d # limited limit (n + 1) xs"
    if "\<not> limit_reached limit (n + 1)"
  proof (cases limit)
    case (Some l)
    have "nat (l - n) = Suc (nat (l - (n + 1)))" if "n + 1 < l" using that by simp
    then show ?thesis
      using assms that Some by (auto simp: limited_def limit_reached_def below_limit_def)
  qed (simp add: limited_def below_limit_def)
qed

lemma scan_ids_result:
  "below_limit limit n \<Longrightarrow> scan_ids docids limit n ds =
     (let out = limited limit n (filter (\<lambda>d. d \<in> docids) ds); m = n + int (length out)
      in (out, m, limit_reached limit m))"
proof (induction docids limit n ds rule: scan_ids.induct)
  case (1 docids limit n)
  then show ?case
    by (auto simp: limited_def Let_def limit_reached_def below_limit_def split: option.splits)
next
  case (2 docids limit n d ds)
  show ?case
  proof (cases "d \<in> docids")
    case False
    then show ?thesis using 2 by simp
  next
    case hit: True
    show ?thesis
    proof (cases "limit_reached limit (n + 1)")
      case True
      then show ?thesis using hit limited_Cons(1) [OF 2(3) True, where xs = "filter (\<lambda>d. d \<in> docids) ds"] by (simp add: Let_def)
    next
      case False
      with limited_Cons(2) [OF 2(3) False, where xs = "filter (\<lambda>d. d \<in> docids) ds"] 2(1) [OF hit False] hit show ?thesis
        by (simp add: Let_def algebra_simps)
    qed
  qed
qed

lemma limited_append:
  fixes xs ys :: "'a list"
  assumes "below_limit limit n"
  defines "out \<equiv> limited limit n xs"
  shows "limited limit n (xs @ ys) =
      (if limit_reached limit (n + int (length out)) then out
       else out @ limited limit (n + int (length out)) ys)"
    and "\<not> limit_reached limit (n + int (length out)) \<Longrightarrow> below_limit limit (n + int (length out))"
proof -
  show "limited limit n (xs @ ys) =
      (if limit_reached limit (n + int (length out)) then out
       else out @ limited limit (n + int (length out)) ys)"
  proof (cases limit)
    case (Some l)
    have "nat (l - n) - length xs = nat (l - (n + int (length xs)))" by simp
    then show ?thesis
      using assms(1) Some unfolding out_def
      by (auto simp: limited_def limit_reached_def below_limit_def min_def)
  qed (simp add: out_def limited_def limit_reached_def)
  show "below_limit limit (n + int (length out))" if "\<not> limit_reached limit (n + int (length out))"
    using that by (auto simp: below_limit_def limit_reached_def)
qed

lemma scan_values_result:
  "below_limit limit n \<Longrightarrow>
     scan_values docids limit n Ds = limited limit n (filter (\<lambda>d. d \<in> docids) (concat (map docs_list Ds)))"
proof (induction docids limit n Ds rule: scan_values.induct)
  case (1 docids limit n)
  then show ?case by (simp add: limited_def split: option.split)
next
  case (2 docids limit n cur rest)
  let ?hits = "filter (\<lambda>d. d \<in> docids) (docs_list cur)"
  let ?rest = "filter (\<lambda>d. d \<in> docids) (concat (map docs_list rest))"
  have "limited limit n (?hits @ ?rest) = scan_values docids limit n (cur # rest)"
  proof (cases "\<exists>d. cur = One d")
    case True
    then obtain d where d: "cur = One d" by auto
    then show ?thesis
      using 2 limited_Cons [OF 2(5), where xs = ?rest] by (cases "d \<in> docids"; cases "limit_reached limit (n + 1)") auto
  next
    case False
    note app = limited_append(1) [OF 2(5), where xs = ?hits and ys = ?rest]
      limited_append(2) [OF 2(5), where xs = ?hits]
    obtain out m stop where r: "scan_ids docids limit n (docs_list cur) = (out, m, stop)"
      by (cases "scan_ids docids limit n (docs_list cur)") auto
    then have out: "out = limited limit n ?hits" "m = n + int (length out)" "stop = limit_reached limit m"
      using scan_ids_result [OF 2(5), of docids "docs_list cur"] by (auto simp: Let_def)
    have "scan_values docids limit m rest = limited limit m ?rest" if "\<not> stop"
      using False 2(3,4) [OF _ r [symmetric]] app(2) out that by (cases cur) auto
    then show ?thesis
      using False r out app(1) by (cases cur) auto
  qed
  then show ?case by simp
qed

section \<open>Properties\<close>

definition demo_field :: "int field_index" where
  "demo_field = fold (\<lambda>(d, v). field_put d v) [(1, 10), (2, 20), (3, 10)] new_field_index"

lemma demo_field_inv: "field_inv demo_field"
  by (simp add: demo_field_def field.put_inv new_field_index_inv)

lemma demo_field_rev: "fi_rev demo_field = [1 \<mapsto> 10, 2 \<mapsto> 20, 3 \<mapsto> 10]"
  by (simp add: demo_field_def field.put_view field.put_inv new_field_index_inv)
    (simp add: new_field_index_def)

text \<open>
  C19: the field index is the map from documents to values: indexing an object that has a
  value sets it, unindexing removes it, and both keep the forward index (with its three
  forms of a set of ids, the tuples short and free of duplicates), the reverse index, the
  counter and the set of documents without a value consistent with each other.
\<close>

theorem field_index_refines_map:
  assumes "field_inv f" "discriminate M dis obj = Value v"
  shows "(\<exists>f'. index_doc M dis base_unindex docid obj f = (Inr (), f') \<and> field_inv f' \<and>
      fi_rev f' = (fi_rev f)(docid \<mapsto> v) \<and> fi_num_docs f' = int (card (dom (fi_rev f')))) \<and>
    field_inv (unindex_doc docid f) \<and> fi_rev (unindex_doc docid f) = (fi_rev f)(docid := None)"
  using field.put_inv [OF assms(1), of docid v] field.put_view [OF assms(1), of docid v]
    field.del_inv [OF assms(1)] field.del_view [OF assms(1)] index_doc_value [OF assms(2)]
  by (simp_all add: field_inv_def)

lemma index_doc_missing:
  assumes "field_inv f" "discriminate M dis obj = Missing"
    and "\<And>g. field_inv g \<Longrightarrow> \<exists>g'. base_unindex docid g = (Inr (), g') \<and> field_inv g' \<and>
      fi_rev g' = (fi_rev g)(docid := None)"
  shows "\<exists>f'. index_doc M dis base_unindex docid obj f = (Inr (), f') \<and> field_inv f' \<and>
    fi_rev f' = (fi_rev f)(docid := None) \<and> docid \<in> fi_not_indexed f'"
proof -
  obtain g where g: "base_unindex docid f = (Inr (), g)" "field_inv g" "fi_rev g = (fi_rev f)(docid := None)"
    using assms(3) [OF assms(1)] by auto
  then have "field_inv (g\<lparr>fi_not_indexed := insert docid (fi_not_indexed g)\<rparr>)"
    by (auto simp: field_inv_def)
  then show ?thesis
    using g by (simp add: index_doc_def assms(2) m_bind_def meth_simps)
qed

text \<open>
  An object without a value for the index, indexed again, is out of the index and
  remembered as such, provided that the base class's \<open>unindex_doc\<close> unindexes it.
\<close>

theorem missing_value_unindexes:
  assumes "field_inv f" "discriminate M dis obj = Missing"
    and "\<And>g. field_inv g \<Longrightarrow> \<exists>g'. base_unindex docid g = (Inr (), g') \<and> field_inv g' \<and>
      fi_rev g' = (fi_rev g)(docid := None)"
  shows "\<exists>f'. index_doc M dis base_unindex docid obj f = (Inr (), f') \<and> field_inv f' \<and>
    fi_rev f' = (fi_rev f)(docid := None) \<and> docid \<in> fi_not_indexed f'"
  using assms by (rule index_doc_missing)

text \<open>
  C20: queries answer from the map: \<open>applyEq\<close> gives exactly the documents with the
  value, in ascending order; \<open>applyInRange\<close> gives exactly the documents whose value lies
  within the bounds, each once, in the order of their values.
\<close>

theorem field_queries_exact:
  assumes "field_inv f"
  shows "set (applyEq f v) = {d. fi_rev f d = Some v} \<and> sorted (applyEq f v) \<and> distinct (applyEq f v) \<and>
    set (applyInRange f lo hi em eM) = {d. \<exists>v. fi_rev f d = Some v \<and> in_bounds lo hi em eM v} \<and>
    distinct (applyInRange f lo hi em eM) \<and>
    sorted (map (\<lambda>d. the (fi_rev f d)) (applyInRange f lo hi em eM))"
proof -
  have docs: "{d. fi_rev f d = Some v} = fwd_docs (fi_fwd f) v"
    using assms by (auto simp: field_inv_def)
  have "finite D" if "fi_fwd f v = Some (Tree D)" for D
    using assms docset_okD [of "fi_fwd f" v "Tree D"] that by (simp add: field_inv_def)
  then have "set (applyEq f v) = {d. fi_rev f d = Some v} \<and> sorted (applyEq f v) \<and> distinct (applyEq f v)"
    unfolding docs by (auto simp: applyEq_def fwd_docs_def split: option.splits docset.splits)
  then show ?thesis using range_docs [OF assms] by blast
qed

text \<open>
  \<open>scan_forward\<close> yields the given documents in the order of their values, all of
  them or, with a positive limit, the first ones up to it.
\<close>

theorem scan_forward_correct:
  assumes "field_inv f" "limit = None \<or> (\<exists>l. limit = Some l \<and> l \<ge> 0)"
  shows "\<exists>xs. scan_forward f docids limit =
      (case limit of None \<Rightarrow> xs | Some l \<Rightarrow> if l = 0 then xs else take (nat l) xs) \<and>
    set xs = docids \<inter> dom (fi_rev f) \<and> distinct xs \<and> sorted (map (\<lambda>d. the (fi_rev f d)) xs)"
proof -
  let ?all = "applyInRange f None None False False"
  let ?xs = "filter (\<lambda>d. d \<in> docids) ?all"
  have "below_limit limit 0" using assms(2) by (auto simp: below_limit_def)
  from scan_values_result [OF this]
  have "scan_forward f docids limit = limited limit 0 ?xs"
    by (simp add: scan_forward_def applyInRange_def)
  moreover have "set ?xs = docids \<inter> dom (fi_rev f)"
    using range_docs(1) [OF assms(1), of None None False False] by (auto simp: in_bounds_def)
  moreover have "distinct ?xs" using range_docs(2) [OF assms(1), of None None False False] by simp
  moreover have "sorted (map (\<lambda>d. the (fi_rev f d)) ?xs)"
    by (rule sorted_filter) (rule range_docs(3) [OF assms(1)])
  ultimately show ?thesis
    by (intro exI [of _ ?xs]) (auto simp: limited_def split: option.splits)
qed

text \<open>What the code relies on in the tree family.\<close>

definition family_ok :: "set_family \<Rightarrow> bool" where
  "family_ok F \<longleftrightarrow> (\<forall>S. sf_intersection F S None = S) \<and>
     (\<forall>S T. sf_intersection F S (Some T) = S \<inter> T) \<and>
     (\<forall>Ss. sf_multiunion F Ss = \<Union> (set Ss)) \<and> (\<forall>Ss. mset (sf_sort F Ss) = mset Ss)"

definition demo_family :: set_family where
  "demo_family = \<lparr>sf_intersection = (\<lambda>S T. case T of None \<Rightarrow> S | Some T \<Rightarrow> S \<inter> T),
     sf_multiunion = (\<lambda>Ss. \<Union> (set Ss)), sf_sort = (\<lambda>Ss. Ss)\<rparr>"

lemma demo_family_ok: "family_ok demo_family"
  by (simp add: family_ok_def demo_family_def)

fun answers :: "'v::linorder search_query \<Rightarrow> 'v \<Rightarrow> bool" where
  "answers (Range_Value lo hi) v \<longleftrightarrow> in_bounds lo hi False False v"
| "answers (Single_Value w) v \<longleftrightarrow> v = w"

lemma multiunion1_set: "multiunion1 Ds = set (concat (map docs_list Ds))"
proof -
  have "fold (\<lambda>s result. result \<union> set (docs_list s)) Ds S = S \<union> set (concat (map docs_list Ds))" for S
    by (induction Ds arbitrary: S) auto
  then show ?thesis by (simp add: multiunion1_def)
qed

lemma query_set_docs:
  assumes "field_inv f"
  shows "query_set f q = {d. \<exists>v. fi_rev f d = Some v \<and> answers q v}"
proof (cases q)
  case (Range_Value lo hi)
  then show ?thesis
    using range_docs(1) [OF assms, of lo hi False False]
    by (simp add: query_set_def multiunion1_set applyInRange_def)
next
  case (Single_Value v)
  then have "query_set f q = set (applyInRange f (Some v) (Some v) False False)"
    by (simp add: query_set_def multiunion1_set applyInRange_def)
  then show ?thesis
    using range_docs(1) [OF assms, of "Some v" "Some v" False False] Single_Value
    by (auto simp: in_bounds_def)
qed

lemma fold_intersection:
  assumes "family_ok F"
  shows "Ss \<noteq> [] \<Longrightarrow> fold (\<lambda>s result. Some (sf_intersection F s result)) Ss None = Some (\<Inter> (set Ss))"
proof -
  have "fold (\<lambda>s result. Some (sf_intersection F s result)) Ss (Some T) = Some (\<Inter> (set Ss) \<inter> T)" for Ss T
    using assms by (induction Ss arbitrary: T) (auto simp: family_ok_def)
  then show "Ss \<noteq> [] \<Longrightarrow> fold (\<lambda>s result. Some (sf_intersection F s result)) Ss None = Some (\<Inter> (set Ss))"
    using assms by (cases Ss) (auto simp: family_ok_def)
qed

text \<open>
  \<open>search\<close> with several values or ranges gives the documents that answer one of them
  or, with the operator \<open>and\<close>, all of them.
\<close>

theorem search_correct:
  assumes "field_inv f" "family_ok F" "queries \<noteq> []"
  shows "search F f queries operator = Some {d. \<exists>v. fi_rev f d = Some v \<and>
    (if operator = ''and'' then \<forall>q \<in> set queries. answers q v else \<exists>q \<in> set queries. answers q v)}"
proof -
  have qs: "query_set f q = {d. \<exists>v. fi_rev f d = Some v \<and> answers q v}" for q
    by (rule query_set_docs [OF assms(1)])
  let ?sets = "map (query_set f) queries"
  have perm: "set (sf_sort F ?sets) = set ?sets" "sf_sort F ?sets \<noteq> []"
    using assms(2,3) unfolding family_ok_def by (metis mset_eq_setD, metis mset_zero_iff map_is_Nil_conv)
  show ?thesis
  proof (cases "length ?sets = 1")
    case True
    then obtain q where "queries = [q]" by (cases queries) auto
    then show ?thesis by (simp add: search_def qs)
  next
    case False
    have all: "\<Inter> (set ?sets) = {d. \<exists>v. fi_rev f d = Some v \<and> (\<forall>q \<in> set queries. answers q v)}"
      using assms(3) by (cases queries) (auto simp: qs)
    have any: "\<Union> (set ?sets) = {d. \<exists>v. fi_rev f d = Some v \<and> (\<exists>q \<in> set queries. answers q v)}"
      by (auto simp: qs)
    show ?thesis
    proof (cases "operator = ''and''")
      case True
      then show ?thesis
        using False fold_intersection [OF assms(2) perm(2)] all
        by (simp add: search_def Let_def perm(1) del: Inter_iff)
    next
      case other: False
      then have "search F f queries operator = Some (sf_multiunion F ?sets)"
        using False by (simp add: search_def Let_def)
      moreover have "sf_multiunion F ?sets = \<Union> (set ?sets)" using assms(2) by (simp add: family_ok_def)
      ultimately show ?thesis using any other by simp
    qed
  qed
qed

definition demo_model :: "(int option, int) object_model" where
  "demo_model = \<lparr>om_getattr = (\<lambda>obj name. case obj of None \<Rightarrow> Missing | Some v \<Rightarrow> Value v),
     om_virtuals = (\<lambda>obj name. None)\<rparr>"

lemma demo_model_value:
  "discriminate demo_model (Attribute ''age'') (Some v) = Value v"
  "discriminate demo_model (Attribute ''age'') None = Missing"
  by (simp_all add: discriminate_def demo_model_def)

theorem field_index_refines_map_witness:
  "\<exists>f'. index_doc demo_model (Attribute ''age'') undefined 7 (Some 30) demo_field = (Inr (), f') \<and>
     fi_rev f' = [1 \<mapsto> 10, 2 \<mapsto> 20, 3 \<mapsto> 10, 7 \<mapsto> 30]"
  using field_index_refines_map [OF demo_field_inv demo_model_value(1), where docid = 7 and base_unindex = undefined]
  unfolding demo_field_rev by blast

theorem missing_value_unindexes_witness:
  "\<exists>f'. index_doc demo_model (Attribute ''age'') (\<lambda>d f. (Inr (), unindex_doc d f)) 2 None demo_field = (Inr (), f') \<and>
     fi_rev f' = [1 \<mapsto> 10, 3 \<mapsto> 10]"
proof -
  have "\<exists>f'. index_doc demo_model (Attribute ''age'') (\<lambda>d f. (Inr (), unindex_doc d f)) 2 None demo_field = (Inr (), f') \<and>
    field_inv f' \<and> fi_rev f' = (fi_rev demo_field)(2 := None) \<and> 2 \<in> fi_not_indexed f'"
    by (rule missing_value_unindexes [OF demo_field_inv demo_model_value(2)]) (simp add: unindex_doc_inv)
  then show ?thesis by (auto simp: demo_field_rev fun_eq_iff)
qed

theorem field_queries_exact_witness:
  "applyEq demo_field 10 = [1, 3]"
proof -
  note q = field_queries_exact [OF demo_field_inv, of 10 None None False False]
  have "{d. fi_rev demo_field d = Some 10} = {1, 3}"
    by (auto simp: demo_field_rev split: if_splits)
  with q have "set (applyEq demo_field 10) = {1, 3}" "sorted (applyEq demo_field 10)" "distinct (applyEq demo_field 10)"
    by (metis, elim conjE)+
  then show ?thesis
    using sorted_list_of_set.idem_if_sorted_distinct [of "applyEq demo_field 10"] by simp
qed

theorem scan_forward_correct_witness:
  "\<exists>d. scan_forward demo_field {1, 2, 3} (Some 1) = [d] \<and> (d = 1 \<or> d = 3)"
proof -
  have "(Some 1 :: int option) = None \<or> (\<exists>l. (Some 1 :: int option) = Some l \<and> l \<ge> 0)" by simp
  from scan_forward_correct [OF demo_field_inv this, of "{1, 2, 3}"] obtain xs where
    xs: "scan_forward demo_field {1, 2, 3} (Some 1) = take 1 xs" "set xs = {1, 2, 3}"
      "sorted (map (\<lambda>d. the (fi_rev demo_field d)) xs)"
    by (auto simp: demo_field_rev)
  then obtain d ys where d: "xs = d # ys" by (cases xs) auto
  have "d = 1 \<or> d = 2 \<or> d = 3" using xs(2) d by auto
  moreover have "d \<noteq> 2"
  proof
    assume "d = 2"
    then have "(1::int) \<in> set (2 # ys)" using xs(2) d by (metis insertI1)
    then have "1 \<in> set ys" by simp
    then show False using xs(3) d \<open>d = 2\<close> by (auto simp: demo_field_rev)
  qed
  ultimately show ?thesis using xs d by auto
qed

theorem search_correct_witness:
  "search demo_family demo_field [Single_Value 20, Range_Value (Some 15) None] ''and'' = Some {2}"
proof -
  have "[Single_Value 20, Range_Value (Some 15) None] \<noteq> ([] :: int search_query list)" by simp
  from search_correct [OF demo_field_inv demo_family_ok this, of "''and''"] show ?thesis
    by (auto simp: demo_field_rev in_bounds_def split: if_splits)
qed

end
