(* ===== verification/Index_Queue.thy ===== *)
theory Index_Queue
  imports Field_Index "HOL-Library.AList" "HOL-Library.Product_Lexorder"
begin

text \<open>
  zerodb/collective/indexing: index operations are queued during a transaction and
  carried out just before it is committed. \<open>optimize\<close> reduces the queue to one operation
  for each object, \<open>process\<close> hands them to the registered processors, and the transaction
  hook of transactions.py calls it. Objects, their identity key (\<open>hash\<close> and path) and
  their order (\<open>Model.__lt__\<close>) are parameters, and so are the processors.
\<close>

section \<open>Operations and the queue\<close>

text \<open>config.py; attributes of None stand for all of them.\<close>

definition UNINDEX :: int where "UNINDEX = -1"
definition REINDEX :: int where "REINDEX = 0"
definition INDEX :: int where "INDEX = 1"

lemmas op_codes = UNINDEX_def REINDEX_def INDEX_def

type_synonym ('o, 'a) entry = "int \<times> 'o \<times> 'a set option"

record ('o, 'k) object_keys =
  ok_key :: "'o \<Rightarrow> 'k"
  ok_rank :: "'o \<Rightarrow> int"

definition merge_attrs :: "'a set option \<Rightarrow> 'a set option \<Rightarrow> 'a set option" where
  "merge_attrs attr iattr =
     (case attr of
        None \<Rightarrow> None
      | Some A \<Rightarrow> (case iattr of None \<Rightarrow> None | Some B \<Rightarrow> Some (A \<union> B)))"

text \<open>One round of the loop of \<open>optimize\<close>; \<open>res\<close> is the dictionary.\<close>

definition merge_entry ::
  "('o \<Rightarrow> 'k) \<Rightarrow> ('o, 'a) entry \<Rightarrow> ('k \<times> ('o, 'a) entry) list \<Rightarrow> ('k \<times> ('o, 'a) entry) list" where
  "merge_entry key = (\<lambda>(iop, obj, iattr) res.
     let oid = key obj;
         (op, attr) = (case map_of res oid of None \<Rightarrow> (0, iattr) | Some (op, _, attr) \<Rightarrow> (op, attr))
     in if op = INDEX \<and> iop = UNINDEX then AList.delete oid res
        else AList.update oid (min (max (op + iop) UNINDEX) INDEX, obj, merge_attrs attr iattr) res)"

definition reduce_queue :: "('o \<Rightarrow> 'k) \<Rightarrow> ('o, 'a) entry list \<Rightarrow> ('k \<times> ('o, 'a) entry) list" where
  "reduce_queue key q = fold (merge_entry key) q []"

text \<open>Tuples are compared by the operation, then by the object.\<close>

definition optimize :: "('o, 'k) object_keys \<Rightarrow> ('o, 'a) entry list \<Rightarrow> ('o, 'a) entry list" where
  "optimize K q = sort_key (\<lambda>(op, obj, attr). (op, ok_rank K obj)) (map snd (reduce_queue (ok_key K) q))"

section \<open>Processing\<close>

text \<open>The registered processors: methods over a state \<open>'w\<close> of their own, which may raise.\<close>

record ('o, 'a, 'w) processor =
  pr_begin :: "('w, unit) meth"
  pr_index :: "'o \<Rightarrow> 'a set option \<Rightarrow> ('w, unit) meth"
  pr_reindex :: "'o \<Rightarrow> 'a set option \<Rightarrow> ('w, unit) meth"
  pr_unindex :: "'o \<Rightarrow> ('w, unit) meth"
  pr_commit :: "('w, unit) meth"
  pr_abort :: "('w, unit) meth"

definition dispatch :: "('o, 'a) entry \<Rightarrow> ('o, 'a, 'w) processor \<Rightarrow> ('w, unit) meth" where
  "dispatch = (\<lambda>(op, obj, attributes) util.
     if op = INDEX then pr_index util obj attributes
     else if op = REINDEX then pr_reindex util obj attributes
     else if op = UNINDEX then pr_unindex util obj
     else m_raise InvalidQueueOperation)"

text \<open>
  The queue object. \<open>iq_hook\<close> is \<open>tmhook\<close>: \<open>None\<close>, or the \<open>QueueTM\<close> whose \<open>register\<close> it is,
  by its flag \<open>registered\<close>; \<open>iq_joined\<close> counts the before-commit hooks the current
  transaction has for this queue.
\<close>

record ('o, 'a, 'w) index_queue =
  iq_queue :: "('o, 'a) entry list"
  iq_hook :: "bool option"
  iq_joined :: nat
  iq_world :: 'w

definition new_queue :: "'w \<Rightarrow> ('o, 'a, 'w) index_queue" where
  "new_queue w = \<lparr>iq_queue = [], iq_hook = None, iq_joined = 0, iq_world = w\<rparr>"

text \<open>A method of the processors, on the queue's state.\<close>

definition on_world :: "('w, 'b) meth \<Rightarrow> (('o, 'a, 'w) index_queue, 'b) meth" where
  "on_world m q = (case m (iq_world q) of (r, w) \<Rightarrow> (r, q\<lparr>iq_world := w\<rparr>))"

text \<open>
  \<open>QueueTM.register\<close>, on its flag \<open>registered\<close> and the number of hooks; \<open>can_join\<close> says whether
  joining the transaction succeeds, and an exception there is only logged.
\<close>

definition tm_register :: "bool \<Rightarrow> bool \<times> nat \<Rightarrow> bool \<times> nat" where
  "tm_register can_join t =
     (case t of (registered, joined) \<Rightarrow>
        if \<not> registered \<and> can_join then (True, joined + 1) else (registered, joined))"

text \<open>\<open>hook\<close>: a new \<open>QueueTM\<close> is not registered.\<close>

definition hook :: "bool \<Rightarrow> ('o, 'a, 'w) index_queue \<Rightarrow> ('o, 'a, 'w) index_queue" where
  "hook can_join q =
     (case tm_register can_join (case iq_hook q of None \<Rightarrow> False | Some r \<Rightarrow> r, iq_joined q) of
        (registered, joined) \<Rightarrow> q\<lparr>iq_hook := Some registered, iq_joined := joined\<rparr>)"

definition enqueue :: "bool \<Rightarrow> ('o, 'a) entry \<Rightarrow> ('o, 'a, 'w) index_queue \<Rightarrow> ('o, 'a, 'w) index_queue" where
  "enqueue can_join e q = hook can_join (q\<lparr>iq_queue := iq_queue q @ [e]\<rparr>)"

definition queue_index where "queue_index can_join obj attributes = enqueue can_join (INDEX, obj, attributes)"
definition queue_reindex where "queue_reindex can_join obj attributes = enqueue can_join (REINDEX, obj, attributes)"
definition queue_unindex where "queue_unindex can_join obj = enqueue can_join (UNINDEX, obj, None)"

definition clear :: "(('o, 'a, 'w) index_queue, unit) meth" where
  "clear = m_modify (\<lambda>q. q\<lparr>iq_queue := [], iq_hook := None\<rparr>)"

text \<open>\<open>process\<close>: a processor that raises leaves the reduced queue as it is.\<close>

definition process ::
  "('o, 'k) object_keys \<Rightarrow> ('o, 'a, 'w) processor list \<Rightarrow> (('o, 'a, 'w) index_queue, nat) meth" where
  "process K utilities q =
     (let work = optimize K (iq_queue q); q = q\<lparr>iq_queue := work\<rparr> in
      if work = [] then (Inr 0, q)
      else
        m_bind (m_each (\<lambda>util. on_world (pr_begin util)) utilities) (\<lambda>_.
        m_bind (m_each (\<lambda>e. m_each (\<lambda>util. on_world (dispatch e util)) utilities) work) (\<lambda>_.
        m_bind clear (\<lambda>_. m_return (length work)))) q)"

definition queue_commit :: "('o, 'a, 'w) processor list \<Rightarrow> (('o, 'a, 'w) index_queue, unit) meth" where
  "queue_commit utilities = m_each (\<lambda>util. on_world (pr_commit util)) utilities"

definition queue_abort :: "('o, 'a, 'w) processor list \<Rightarrow> (('o, 'a, 'w) index_queue, unit) meth" where
  "queue_abort utilities =
     m_bind (m_each (\<lambda>util. on_world (pr_abort util)) utilities) (\<lambda>_. clear)"

text \<open>transactions.py: what the transaction calls.\<close>

definition before_commit ::
  "('o, 'k) object_keys \<Rightarrow> ('o, 'a, 'w) processor list \<Rightarrow> (('o, 'a, 'w) index_queue, unit) meth" where
  "before_commit K utilities = m_bind (process K utilities) (\<lambda>_. clear)"

text \<open>\<open>registered := False\<close> on a \<open>QueueTM\<close>, which is the queue's current one or an old one.\<close>

definition unregister :: "bool \<Rightarrow> (('o, 'a, 'w) index_queue, unit) meth" where
  "unregister current =
     m_modify (\<lambda>q. if current then q\<lparr>iq_hook := map_option (\<lambda>_. False) (iq_hook q)\<rparr> else q)"

definition tpc_finish :: "('o, 'a, 'w) processor list \<Rightarrow> bool \<Rightarrow> (('o, 'a, 'w) index_queue, unit) meth" where
  "tpc_finish utilities current = m_bind (queue_commit utilities) (\<lambda>_. unregister current)"

definition tpc_abort :: "('o, 'a, 'w) processor list \<Rightarrow> bool \<Rightarrow> (('o, 'a, 'w) index_queue, unit) meth" where
  "tpc_abort utilities current =
     m_bind (queue_abort utilities) (\<lambda>_. m_bind clear (\<lambda>_. unregister current))"

text \<open>Savepoints keep \<open>getState\<close>, a copy of the list, and give it back to \<open>setState\<close>.\<close>

definition getState :: "('o, 'a, 'w) index_queue \<Rightarrow> ('o, 'a) entry list" where
  "getState q = iq_queue q"

definition setState :: "('o, 'a) entry list \<Rightarrow> ('o, 'a, 'w) index_queue \<Rightarrow> ('o, 'a, 'w) index_queue" where
  "setState state q = q\<lparr>iq_queue := state\<rparr>"

definition queue_length :: "('o, 'a, 'w) index_queue \<Rightarrow> nat" where
  "queue_length q = length (iq_queue q)"

definition savepoint :: "('o, 'a, 'w) index_queue \<Rightarrow> ('o, 'a) entry list" where
  "savepoint q = getState q"

definition rollback :: "('o, 'a) entry list \<Rightarrow> ('o, 'a, 'w) index_queue \<Rightarrow> ('o, 'a, 'w) index_queue" where
  "rollback state q = setState state q"

text \<open>\<open>processQueue\<close>, unless the queue is being processed already.\<close>

definition processQueue ::
  "('o, 'k) object_keys \<Rightarrow> ('o, 'a, 'w) processor list \<Rightarrow> bool \<Rightarrow> (('o, 'a, 'w) index_queue, nat) meth" where
  "processQueue K utilities processing q =
     (if iq_queue q \<noteq> [] \<and> \<not> processing then process K utilities q else (Inr 0, q))"

section \<open>The reduction\<close>

text \<open>What \<open>optimize\<close> does for one object: the fold of its own entries.\<close>

fun merge_op :: "int \<times> 'a set option \<Rightarrow> (int \<times> 'a set option) option \<Rightarrow> (int \<times> 'a set option) option" where
  "merge_op (iop, iattr) cur =
     (let (op, attr) = (case cur of None \<Rightarrow> (0, iattr) | Some c \<Rightarrow> c)
      in if op = INDEX \<and> iop = UNINDEX then None
         else Some (min (max (op + iop) UNINDEX) INDEX, merge_attrs attr iattr))"

definition ops_of :: "('o \<Rightarrow> 'k) \<Rightarrow> 'k \<Rightarrow> ('o, 'a) entry list \<Rightarrow> (int \<times> 'a set option) list" where
  "ops_of key k q = map (\<lambda>(op, obj, attr). (op, attr)) (filter (\<lambda>(op, obj, attr). key obj = k) q)"

definition strip :: "('o, 'a) entry \<Rightarrow> int \<times> 'a set option" where
  "strip = (\<lambda>(op, obj, attr). (op, attr))"

lemma merge_entry_lookup:
  "map_of (merge_entry key (iop, obj, iattr) res) k =
     (if k = key obj
      then map_option (\<lambda>(op, attr). (op, obj, attr)) (merge_op (iop, iattr) (map_option strip (map_of res k)))
      else map_of res k)"
  by (auto simp: merge_entry_def Let_def update_conv' delete_conv' strip_def split: option.splits prod.splits)

lemma strip_entry: "map_option strip (map_option (\<lambda>(op, attr). (op, obj, attr)) x) = x"
  by (cases x) (auto simp: strip_def)

lemma reduce_lookup_from:
  "map_option strip (map_of (fold (merge_entry key) q res) k) =
     fold merge_op (ops_of key k q) (map_option strip (map_of res k))"
proof (induction q arbitrary: res)
  case Nil
  then show ?case by (simp add: ops_of_def)
next
  case (Cons e q)
  obtain op obj attr where e: "e = (op, obj, attr)" by (metis prod_cases3)
  show ?case
    using Cons.IH [of "merge_entry key e res"] by (simp add: e merge_entry_lookup ops_of_def strip_entry del: merge_op.simps)
qed

lemma reduce_lookup:
  "map_option strip (map_of (reduce_queue key q) k) = fold merge_op (ops_of key k q) None"
  using reduce_lookup_from [of key q "[]" k] by (simp add: reduce_queue_def)

lemma set_update_insert: "set (AList.update k v al) \<subseteq> insert (k, v) (set al)"
  by (induction al) auto

lemma set_delete: "set (AList.delete k al) \<subseteq> set al"
  by (auto simp: AList.delete_eq)

lemma merge_entry_set:
  "set (merge_entry key (op, obj, attr) res) \<subseteq> set res \<union> {(key obj, n, obj, A) | n A. True}"
proof -
  have "merge_entry key (op, obj, attr) res = AList.delete (key obj) res \<or>
    (\<exists>n A. merge_entry key (op, obj, attr) res = AList.update (key obj) (n, obj, A) res)"
    by (auto simp: merge_entry_def Let_def split: prod.split)
  then show ?thesis
  proof (elim disjE exE)
    assume "merge_entry key (op, obj, attr) res = AList.delete (key obj) res"
    then show ?thesis using set_delete [of "key obj" res] by auto
  next
    fix n A assume "merge_entry key (op, obj, attr) res = AList.update (key obj) (n, obj, A) res"
    then show ?thesis using set_update_insert [of "key obj" "(n, obj, A)" res] by auto
  qed
qed

lemma reduce_key:
  fixes key :: "'o \<Rightarrow> 'k" and q :: "('o, 'a) entry list"
  shows "(k, op, obj, attr) \<in> set (reduce_queue key q) \<Longrightarrow> k = key obj \<and> obj \<in> (fst \<circ> snd) ` set q"
proof -
  have "\<forall>(k, op, obj, attr) \<in> set (fold (merge_entry key) q res). k = key obj \<and>
      obj \<in> (fst \<circ> snd) ` (set q \<union> snd ` set res)"
    if "\<forall>(k, op, obj, attr) \<in> set res. k = key obj" for res :: "('k \<times> ('o, 'a) entry) list"
    using that
  proof (induction q arbitrary: res)
    case Nil
    then show ?case by force
  next
    case (Cons e q)
    obtain op obj attr where e: "e = (op, obj, attr)" by (metis prod_cases3)
    note sub = merge_entry_set [of key op obj attr res]
    then have "\<forall>(k, op, obj, attr) \<in> set (merge_entry key e res). k = key obj"
      using Cons.prems e by fastforce
    from Cons.IH [OF this] show ?case using sub by (force simp: e)
  qed
  from this [of "[]"] show "(k, op, obj, attr) \<in> set (reduce_queue key q) \<Longrightarrow> k = key obj \<and> obj \<in> (fst \<circ> snd) ` set q"
    by (auto simp: reduce_queue_def)
qed

lemma reduce_distinct:
  fixes key :: "'o \<Rightarrow> 'k" and q :: "('o, 'a) entry list"
  shows "distinct (map fst (reduce_queue key q))"
proof -
  have "distinct (map fst res) \<Longrightarrow> distinct (map fst (fold (merge_entry key) q res))"
    for res :: "('k \<times> ('o, 'a) entry) list"
    by (induction q arbitrary: res)
      (auto simp: merge_entry_def Let_def distinct_update distinct_delete split: prod.splits option.splits)
  then show ?thesis by (simp add: reduce_queue_def)
qed

section \<open>The net effect\<close>

text \<open>
  The operations on one object make sense if an object is indexed only while it is not in
  the index and reindexed or unindexed only while it is.
\<close>

fun legal :: "bool \<Rightarrow> int list \<Rightarrow> bool" where
  "legal p [] \<longleftrightarrow> True"
| "legal p (op # ops) \<longleftrightarrow>
     (if op = INDEX then \<not> p \<and> legal True ops
      else if op = REINDEX then p \<and> legal p ops
      else op = UNINDEX \<and> p \<and> legal False ops)"

fun present_after :: "bool \<Rightarrow> int list \<Rightarrow> bool" where
  "present_after p [] = p"
| "present_after p (op # ops) = present_after (op \<noteq> UNINDEX) ops"

definition net :: "bool \<Rightarrow> bool \<Rightarrow> bool \<Rightarrow> int option" where
  "net before after touched =
     (if before then (if after then (if touched then Some REINDEX else None) else Some UNINDEX)
      else if after then Some INDEX else None)"

lemma merge_op_net:
  assumes "map_option fst cur = net b p t" "legal p [op]"
  shows "map_option fst (merge_op (op, A) cur) = net b (op \<noteq> UNINDEX) True"
  using assms
  by (cases cur)
    (auto simp: net_def op_codes merge_attrs_def Let_def split: if_splits prod.splits)

lemma fold_merge_net:
  assumes "map_option fst cur = net b p t" "legal p (map fst ops)"
  shows "map_option fst (fold merge_op ops cur) = net b (present_after p (map fst ops)) (t \<or> ops \<noteq> [])"
  using assms
proof (induction ops arbitrary: cur p t)
  case Nil
  then show ?case by simp
next
  case (Cons x ops)
  obtain op A where x: "x = (op, A)" by fastforce
  have legal: "legal p [op]" "legal (op \<noteq> UNINDEX) (map fst ops)"
    using Cons.prems(2) by (auto simp: x op_codes split: if_splits)
  from Cons.IH [OF merge_op_net [OF Cons.prems(1) legal(1)] legal(2)] show ?case
    by (simp add: x del: merge_op.simps)
qed

lemma optimize_set:
  "(op, obj, attr) \<in> set (optimize K q) \<longleftrightarrow>
     map_of (reduce_queue (ok_key K) q) (ok_key K obj) = Some (op, obj, attr)"
proof -
  have "(op, obj, attr) \<in> set (optimize K q) \<longleftrightarrow>
      (\<exists>k. (k, op, obj, attr) \<in> set (reduce_queue (ok_key K) q))"
    by (force simp: optimize_def)
  also have "\<dots> \<longleftrightarrow> (ok_key K obj, op, obj, attr) \<in> set (reduce_queue (ok_key K) q)"
    using reduce_key by metis
  also have "\<dots> \<longleftrightarrow> map_of (reduce_queue (ok_key K) q) (ok_key K obj) = Some (op, obj, attr)"
    by (simp add: reduce_distinct map_of_eq_Some_iff)
  finally show ?thesis .
qed

lemma reduce_key_of:
  "map_of (reduce_queue key q) k = Some (op, obj, attr) \<Longrightarrow> key obj = k"
  using reduce_key map_of_SomeD by metis

text \<open>The operations \<open>optimize\<close> leaves for one key: at most one.\<close>

lemma optimize_at:
  "{(op, attr). \<exists>obj. (op, obj, attr) \<in> set (optimize K q) \<and> ok_key K obj = k} =
     set_option (fold merge_op (ops_of (ok_key K) k q) None)"
proof -
  have "set_option (fold merge_op (ops_of (ok_key K) k q) None) =
      set_option (map_option strip (map_of (reduce_queue (ok_key K) q) k))"
    by (simp add: reduce_lookup)
  also have "\<dots> = {(op, attr). \<exists>obj. (op, obj, attr) \<in> set (optimize K q) \<and> ok_key K obj = k}"
    using reduce_key_of [of "ok_key K" q k]
    by (auto simp: optimize_set strip_def split: prod.splits)
  finally show ?thesis by simp
qed

lemma optimize_distinct: "distinct (map (\<lambda>(op, obj, attr). ok_key K obj) (optimize K q))"
proof -
  let ?r = "reduce_queue (ok_key K) q"
  have "map (\<lambda>(op, obj, attr). ok_key K obj) (map snd ?r) = map fst ?r"
    using reduce_key [of _ _ _ _ "ok_key K" q] by (auto intro!: map_cong)
  then have "distinct (map (\<lambda>(op, obj, attr). ok_key K obj) (map snd ?r))"
    by (simp only: reduce_distinct)
  moreover have "mset (map (\<lambda>(op, obj, attr). ok_key K obj) (optimize K q)) =
      mset (map (\<lambda>(op, obj, attr). ok_key K obj) (map snd ?r))"
    unfolding optimize_def mset_map mset_sort ..
  ultimately show ?thesis by (metis mset_eq_imp_distinct_iff)
qed

lemma merge_op_range: "c \<in> set_option (merge_op x cur) \<Longrightarrow> UNINDEX \<le> fst c \<and> fst c \<le> INDEX"
  by (cases x) (auto simp: Let_def op_codes split: prod.splits if_splits)

lemma optimize_range:
  assumes "(op, obj, attr) \<in> set (optimize K q)"
  shows "op = INDEX \<or> op = REINDEX \<or> op = UNINDEX"
proof -
  have "(op, attr) \<in> set_option (fold merge_op (ops_of (ok_key K) (ok_key K obj) q) None)"
    using assms optimize_at [of K q "ok_key K obj"] by blast
  moreover have "\<forall>c \<in> set_option (fold merge_op (ops_of (ok_key K) (ok_key K obj) q) None).
      UNINDEX \<le> fst c \<and> fst c \<le> INDEX"
    by (rule fold_invariant [where Q = "\<lambda>_. True"]) (auto dest!: merge_op_range simp del: merge_op.simps)
  ultimately have "-1 \<le> op \<and> op \<le> 1" by (force simp: op_codes)
  then show ?thesis by (auto simp: op_codes)
qed

text \<open>
  What the operations mean for an index: under the key of each object that it has, the values of
  the object's attributes as the index has them. \<open>cur\<close> are the attributes of the objects when
  the queue is processed. Indexing and reindexing can be limited to some attributes.
\<close>

definition only :: "'a set option \<Rightarrow> ('a \<rightharpoonup> 'v) \<Rightarrow> ('a \<rightharpoonup> 'v)" where
  "only attributes c = (case attributes of None \<Rightarrow> c | Some A \<Rightarrow> c |` A)"

definition refreshed :: "'a set option \<Rightarrow> ('a \<rightharpoonup> 'v) \<Rightarrow> ('a \<rightharpoonup> 'v) \<Rightarrow> ('a \<rightharpoonup> 'v)" where
  "refreshed attributes c old =
     (case attributes of None \<Rightarrow> c | Some A \<Rightarrow> (\<lambda>a. if a \<in> A then c a else old a))"

definition act :: "('a \<rightharpoonup> 'v) \<Rightarrow> int \<times> 'a set option \<Rightarrow> ('a \<rightharpoonup> 'v) option \<Rightarrow> ('a \<rightharpoonup> 'v) option" where
  "act c = (\<lambda>(op, attributes) old.
     if op = UNINDEX then None
     else if op = INDEX then Some (only attributes c)
     else map_option (refreshed attributes c) old)"

definition apply_entry ::
  "('o \<Rightarrow> 'k) \<Rightarrow> ('k \<Rightarrow> 'a \<rightharpoonup> 'v) \<Rightarrow> ('o, 'a) entry \<Rightarrow> ('k \<Rightarrow> ('a \<rightharpoonup> 'v) option) \<Rightarrow> 'k \<Rightarrow> ('a \<rightharpoonup> 'v) option" where
  "apply_entry key cur = (\<lambda>(op, obj, attributes) m. m(key obj := act (cur (key obj)) (op, attributes) (m (key obj))))"

lemma apply_entry_at:
  "apply_entry key cur (op, obj, attr) m k = (if key obj = k then act (cur k) (op, attr) (m k) else m k)"
  by (auto simp: apply_entry_def)

lemma ops_of_Cons:
  "ops_of key k ((op, obj, attr) # q) = (if key obj = k then [(op, attr)] else []) @ ops_of key k q"
  by (simp add: ops_of_def)

lemma fold_apply_entry: "fold (apply_entry key cur) q m k = fold (act (cur k)) (ops_of key k q) (m k)"
proof (induction q arbitrary: m)
  case (Cons e q)
  obtain op obj attr where e: "e = (op, obj, attr)" by (metis prod_cases3)
  have "fold (apply_entry key cur) (e # q) m k = fold (apply_entry key cur) q (apply_entry key cur e m) k" by simp
  also have "\<dots> = fold (act (cur k)) (ops_of key k q) (apply_entry key cur e m k)" by (rule Cons.IH)
  also have "\<dots> = fold (act (cur k)) (ops_of key k (e # q)) (m k)" unfolding e ops_of_Cons apply_entry_at by simp
  finally show ?case .
qed (simp add: ops_of_def)

lemma refreshed_merge: "refreshed (merge_attrs A B) c old = refreshed B c (refreshed A c old)"
  by (auto simp: merge_attrs_def refreshed_def fun_eq_iff split: option.splits)

text \<open>
  The merged operation does to the index what the operations since the beginning have done, if
  they are legal and objects are indexed with all of their attributes.
\<close>

definition merged_ok ::
  "('a \<rightharpoonup> 'v) \<Rightarrow> ('a \<rightharpoonup> 'v) option \<Rightarrow> (int \<times> 'a set option) option \<Rightarrow> ('a \<rightharpoonup> 'v) option \<Rightarrow> bool" where
  "merged_ok c old mrg new \<longleftrightarrow>
     (case mrg of
        None \<Rightarrow> new = old
      | Some (op, A) \<Rightarrow> new = act c (op, A) old \<and>
          (op = INDEX \<and> old = None \<and> A = None \<or> op = REINDEX \<and> old \<noteq> None \<or> op = UNINDEX \<and> old \<noteq> None))"

lemma merged_step:
  assumes "merged_ok c old mrg new" "legal (new \<noteq> None) [op]" "op = INDEX \<longrightarrow> B = None"
  shows "merged_ok c old (merge_op (op, B) mrg) (act c (op, B) new)"
proof (cases mrg)
  case None
  then show ?thesis
    using assms by (auto simp: merged_ok_def op_codes merge_attrs_def split: if_splits option.splits)
next
  case (Some x)
  obtain o' A where x: "x = (o', A)" by fastforce
  consider "o' = INDEX" "old = None" "A = None" | "o' = REINDEX" "old \<noteq> None" | "o' = UNINDEX" "old \<noteq> None"
    using assms(1) Some x by (auto simp: merged_ok_def)
  then show ?thesis
  proof cases
    case 1
    then show ?thesis
      using assms Some x
      by (auto simp: merged_ok_def act_def op_codes merge_attrs_def only_def refreshed_def
          split: if_splits option.splits)
  next
    case 2
    then show ?thesis
      using assms Some x refreshed_merge [of A B c] by (auto simp: merged_ok_def act_def op_codes split: if_splits)
  next
    case 3
    then show ?thesis
      using assms Some x
      by (auto simp: merged_ok_def act_def op_codes merge_attrs_def only_def refreshed_def
          split: if_splits option.splits)
  qed
qed

lemma merged_fold:
  assumes "merged_ok c old mrg new" "legal (new \<noteq> None) (map fst ops)" "\<forall>(op, B) \<in> set ops. op = INDEX \<longrightarrow> B = None"
  shows "merged_ok c old (fold merge_op ops mrg) (fold (act c) ops new)"
  using assms
proof (induction ops arbitrary: mrg new)
  case (Cons x ops)
  obtain op B where x: "x = (op, B)" by fastforce
  have ok: "legal (new \<noteq> None) [op]" "op = INDEX \<longrightarrow> B = None" using Cons.prems(2,3) by (auto simp: x split: if_splits)
  have "legal (act c (op, B) new \<noteq> None) (map fst ops)"
    using Cons.prems(2) by (auto simp: x act_def op_codes split: if_splits)
  then show ?case
    using Cons.IH [OF merged_step [OF Cons.prems(1) ok]] Cons.prems(3) by (simp add: x del: merge_op.simps)
qed simp

lemma ops_of_optimize:
  fixes K :: "('o, 'k) object_keys" and q :: "('o, 'a) entry list"
  shows "length (ops_of (ok_key K) k (optimize K q)) \<le> 1 \<and>
     set (ops_of (ok_key K) k (optimize K q)) = set_option (fold merge_op (ops_of (ok_key K) k q) None)"
proof
  have "distinct (map (\<lambda>(op, obj, attr). ok_key K obj) es) \<Longrightarrow>
      length (filter (\<lambda>(op, obj, attr). ok_key K obj = k) es) \<le> 1" for es :: "('o, 'a) entry list"
    by (induction es) (force simp: filter_empty_conv)+
  then show "length (ops_of (ok_key K) k (optimize K q)) \<le> 1"
    using optimize_distinct [of K q] by (simp add: ops_of_def)
  show "set (ops_of (ok_key K) k (optimize K q)) = set_option (fold merge_op (ops_of (ok_key K) k q) None)"
    unfolding optimize_at [symmetric] by (force simp: ops_of_def)
qed

lemma optimize_exact:
  assumes legal: "\<And>k. legal (m k \<noteq> None) (map fst (ops_of (ok_key K) k q))"
    and full: "\<forall>(op, obj, attr) \<in> set q. op = INDEX \<longrightarrow> attr = None"
  shows "fold (apply_entry (ok_key K) cur) (optimize K q) m = fold (apply_entry (ok_key K) cur) q m"
proof
  fix k
  let ?ops = "ops_of (ok_key K) k q" and ?new = "ops_of (ok_key K) k (optimize K q)"
  have "\<forall>(op, B) \<in> set ?ops. op = INDEX \<longrightarrow> B = None"
    using full by (fastforce simp: ops_of_def)
  then have "merged_ok (cur k) (m k) (fold merge_op ?ops None) (fold (act (cur k)) ?ops (m k))"
    by (intro merged_fold legal) (simp_all add: merged_ok_def)
  moreover have "?new = (case fold merge_op ?ops None of None \<Rightarrow> [] | Some c \<Rightarrow> [c])"
    using ops_of_optimize [of K k q] by (cases "fold merge_op ?ops None"; cases ?new) auto
  ultimately show "fold (apply_entry (ok_key K) cur) (optimize K q) m k = fold (apply_entry (ok_key K) cur) q m k"
    unfolding fold_apply_entry by (auto simp: merged_ok_def split: option.splits)
qed

section \<open>Properties\<close>

text \<open>
  \<open>optimize\<close> leaves for each object the net effect of its operations: nothing for one
  that was added and removed again or never touched, \<open>INDEX\<close> for one that is new,
  \<open>UNINDEX\<close> for one that is gone, and \<open>REINDEX\<close> for one that was there and still is.
\<close>

theorem optimize_net_effect:
  assumes "legal before (map fst (ops_of (ok_key K) k q))"
  shows "{op. \<exists>obj attr. (op, obj, attr) \<in> set (optimize K q) \<and> ok_key K obj = k} =
    set_option (net before (present_after before (map fst (ops_of (ok_key K) k q))) (ops_of (ok_key K) k q \<noteq> []))"
proof -
  have "{op. \<exists>obj attr. (op, obj, attr) \<in> set (optimize K q) \<and> ok_key K obj = k} =
      fst ` {(op, attr). \<exists>obj. (op, obj, attr) \<in> set (optimize K q) \<and> ok_key K obj = k}"
    by force
  also have "\<dots> = set_option (map_option fst (fold merge_op (ops_of (ok_key K) k q) None))"
    unfolding optimize_at by (simp add: option.set_map)
  finally show ?thesis
    using fold_merge_net [OF _ assms, where cur = None and b = before and t = False] by (simp add: net_def)
qed

text \<open>
  The reduced queue has at most one operation for each object, all removals come
  first, and every operation is one the processors know.
\<close>

theorem optimize_ordered:
  "distinct (map (\<lambda>(op, obj, attr). ok_key K obj) (optimize K q)) \<and> sorted (map fst (optimize K q)) \<and>
     fst ` set (optimize K q) \<subseteq> {UNINDEX, REINDEX, INDEX}"
proof -
  have "sorted (map (\<lambda>(op, obj, attr). (op, ok_rank K obj)) (optimize K q))"
    by (simp add: optimize_def)
  then have "sorted (map fst (optimize K q))"
    by (simp add: sorted_map) (rule sorted_wrt_mono_rel, auto)
  moreover have "fst ` set (optimize K q) \<subseteq> {UNINDEX, REINDEX, INDEX}"
    using optimize_range by fastforce
  ultimately show ?thesis using optimize_distinct by blast
qed

text \<open>What \<open>process\<close> is to do with the processors: begin all, then hand over each entry.\<close>

definition hand_over :: "('o, 'a) entry \<Rightarrow> ('o, 'a, 'w) processor \<Rightarrow> ('w, unit) meth" where
  "hand_over = (\<lambda>(op, obj, attr) util.
     if op < 0 then pr_unindex util obj else if op = 0 then pr_reindex util obj attr else pr_index util obj attr)"

definition run_processors :: "('o, 'a, 'w) processor list \<Rightarrow> ('o, 'a) entry list \<Rightarrow> ('w, unit) meth" where
  "run_processors utilities work =
     m_bind (m_each pr_begin utilities) (\<lambda>_. m_each (\<lambda>e. m_each (hand_over e) utilities) work)"

lemma on_world_bind: "on_world (m_bind m f) q = m_bind (on_world m) (\<lambda>x. on_world (f x)) q"
  by (simp add: on_world_def m_bind_def split: prod.splits sum.splits)

lemma on_world_each: "m_each (\<lambda>x. on_world (f x)) xs = on_world (m_each f xs)"
proof (induction xs)
  case Nil
  then show ?case by (simp add: fun_eq_iff on_world_def m_return_def)
next
  case (Cons x xs)
  show ?case unfolding m_each.simps Cons.IH by (rule ext) (simp only: on_world_bind)
qed

lemma m_each_cong: "(\<And>x. x \<in> set xs \<Longrightarrow> f x = g x) \<Longrightarrow> m_each f xs = m_each g xs"
  by (induction xs) auto

lemma dispatch_hand_over: "e \<in> set (optimize K q) \<Longrightarrow> dispatch e = hand_over e"
proof -
  assume e: "e \<in> set (optimize K q)"
  obtain op obj attr where "e = (op, obj, attr)" by (metis prod_cases3)
  with optimize_range [of op obj attr K q] e show ?thesis
    by (auto simp: dispatch_def hand_over_def op_codes fun_eq_iff)
qed

lemma process_run:
  "m_bind (m_each (\<lambda>util. on_world (pr_begin util)) us)
     (\<lambda>_. m_each (\<lambda>e. m_each (\<lambda>util. on_world (dispatch e util)) us) (optimize K q0)) =
     on_world (run_processors us (optimize K q0))"
proof -
  have "m_each (\<lambda>util. on_world (dispatch e util)) us = on_world (m_each (hand_over e) us)"
    if "e \<in> set (optimize K q0)" for e
    by (simp add: on_world_each dispatch_hand_over [OF that])
  then have "m_each (\<lambda>e. m_each (\<lambda>util. on_world (dispatch e util)) us) (optimize K q0) =
      m_each (\<lambda>e. on_world (m_each (hand_over e) us)) (optimize K q0)"
    by (rule m_each_cong)
  also have "\<dots> = on_world (m_each (\<lambda>e. m_each (hand_over e) us) (optimize K q0))"
    by (rule on_world_each)
  finally have each: "m_each (\<lambda>e. m_each (\<lambda>util. on_world (dispatch e util)) us) (optimize K q0) =
      on_world (m_each (\<lambda>e. m_each (hand_over e) us) (optimize K q0))" .
  have start: "m_each (\<lambda>util. on_world (pr_begin util)) us = on_world (m_each pr_begin us)"
    by (rule on_world_each)
  show ?thesis unfolding each start run_processors_def by (rule ext) (simp only: on_world_bind)
qed

lemma process_eq:
  "process K utilities q =
     (let work = optimize K (iq_queue q) in
      if work = [] then (Inr 0, q\<lparr>iq_queue := []\<rparr>)
      else (case run_processors utilities work (iq_world q) of
              (Inl e, w) \<Rightarrow> (Inl e, q\<lparr>iq_queue := work, iq_world := w\<rparr>)
            | (Inr _, w) \<Rightarrow> (Inr (length work), q\<lparr>iq_queue := [], iq_hook := None, iq_world := w\<rparr>)))"
proof -
  let ?work = "optimize K (iq_queue q)"
  show ?thesis
  proof (cases "?work = []")
    case True
    then show ?thesis by (simp add: process_def Let_def)
  next
    case False
    let ?q = "q\<lparr>iq_queue := ?work\<rparr>"
    have "process K utilities q =
        m_bind (on_world (run_processors utilities ?work)) (\<lambda>_. m_bind clear (\<lambda>_. m_return (length ?work))) ?q"
      unfolding process_run [symmetric] m_bind_assoc process_def Let_def using False by simp
    then show ?thesis
      using False
      by (auto simp: m_bind_def on_world_def clear_def meth_simps split: prod.splits sum.splits)
  qed
qed

text \<open>
  \<open>process\<close> hands the reduced queue to every processor, each operation as what it
  is, and never meets an operation it does not know; then the queue is empty and free to
  join the next transaction, and the result is the number of operations. If a processor
  raises, so does \<open>process\<close>, and the reduced queue is still there.
\<close>

theorem process_correct:
  "process K utilities q =
     (let work = optimize K (iq_queue q) in
      if work = [] then (Inr 0, q\<lparr>iq_queue := []\<rparr>)
      else (case run_processors utilities work (iq_world q) of
              (Inl e, w) \<Rightarrow> (Inl e, q\<lparr>iq_queue := work, iq_world := w\<rparr>)
            | (Inr _, w) \<Rightarrow> (Inr (length work), q\<lparr>iq_queue := [], iq_hook := None, iq_world := w\<rparr>)))"
  by (rule process_eq)

section \<open>Processing has the effect of the queue\<close>

text \<open>
  A processor that keeps an index, as interfaces.py describes it: its methods do not raise and act
  on the values that it has (\<open>view\<close>) as the operations say.
\<close>

definition keeps_index ::
  "('o \<Rightarrow> 'k) \<Rightarrow> ('k \<Rightarrow> 'a \<rightharpoonup> 'v) \<Rightarrow> ('w \<Rightarrow> 'k \<Rightarrow> ('a \<rightharpoonup> 'v) option) \<Rightarrow> ('o, 'a, 'w) processor \<Rightarrow> bool" where
  "keeps_index key cur view util \<longleftrightarrow>
     (\<forall>w. \<exists>w'. pr_begin util w = (Inr (), w') \<and> view w' = view w) \<and>
     (\<forall>obj A w. \<exists>w'. pr_index util obj A w = (Inr (), w') \<and> view w' = apply_entry key cur (INDEX, obj, A) (view w)) \<and>
     (\<forall>obj A w. \<exists>w'. pr_reindex util obj A w = (Inr (), w') \<and> view w' = apply_entry key cur (REINDEX, obj, A) (view w)) \<and>
     (\<forall>obj w. \<exists>w'. pr_unindex util obj w = (Inr (), w') \<and> view w' = apply_entry key cur (UNINDEX, obj, None) (view w))"

lemma apply_unindex: "apply_entry key cur (UNINDEX, obj, A) = apply_entry key cur (UNINDEX, obj, None)"
  by (simp add: apply_entry_def act_def fun_eq_iff)

lemma hand_over_view:
  assumes "keeps_index key cur view util" "fst e \<in> {UNINDEX, REINDEX, INDEX}"
  shows "\<exists>w'. hand_over e util w = (Inr (), w') \<and> view w' = apply_entry key cur e (view w)"
proof -
  obtain op obj A where e: "e = (op, obj, A)" by (metis prod_cases3)
  consider "op = UNINDEX" | "op = REINDEX" | "op = INDEX" using assms(2) e by auto
  then show ?thesis
  proof cases
    case 1
    obtain w' where "pr_unindex util obj w = (Inr (), w')" "view w' = apply_entry key cur (UNINDEX, obj, None) (view w)"
      using assms(1) unfolding keeps_index_def by blast
    then show ?thesis using 1 e apply_unindex [of key cur obj A] by (simp add: hand_over_def op_codes)
  next
    case 2
    obtain w' where "pr_reindex util obj A w = (Inr (), w')" "view w' = apply_entry key cur (REINDEX, obj, A) (view w)"
      using assms(1) unfolding keeps_index_def by blast
    then show ?thesis using 2 e by (simp add: hand_over_def op_codes)
  next
    case 3
    obtain w' where "pr_index util obj A w = (Inr (), w')" "view w' = apply_entry key cur (INDEX, obj, A) (view w)"
      using assms(1) unfolding keeps_index_def by blast
    then show ?thesis using 3 e by (simp add: hand_over_def op_codes)
  qed
qed

lemma run_processors_view:
  assumes util: "keeps_index key cur view util" and work: "fst ` set work \<subseteq> {UNINDEX, REINDEX, INDEX}"
  shows "\<exists>w'. run_processors [util] work w = (Inr (), w') \<and> view w' = fold (apply_entry key cur) work (view w)"
proof -
  have each: "\<exists>w'. m_each (\<lambda>e. m_each (hand_over e) [util]) es w = (Inr (), w') \<and> view w' = fold (apply_entry key cur) es (view w)"
    if "set es \<subseteq> set work" for es w
    using that
  proof (induction es arbitrary: w)
    case (Cons e es)
    obtain w1 where w1: "hand_over e util w = (Inr (), w1)" "view w1 = apply_entry key cur e (view w)"
      using hand_over_view [OF util, of e w] work Cons.prems by auto
    then show ?case using Cons.IH [of w1] Cons.prems by (auto simp: m_bind_def meth_simps)
  qed (simp add: meth_simps)
  obtain w1 where "pr_begin util w = (Inr (), w1)" "view w1 = view w"
    using util unfolding keeps_index_def by blast
  then show ?thesis using each [OF subset_refl, of w1] by (auto simp: run_processors_def m_bind_def meth_simps)
qed


section \<open>The queue and its transactions\<close>

text \<open>
  What happens to a queue: operations are added, the queue is flushed, a savepoint is taken
  or rolled back to, and the transaction commits or aborts. Committing calls every hook
  the transaction has, then \<open>tpc_finish\<close>; a hook that raises aborts it. The savepoints and
  the hooks end with the transaction.
\<close>

definition end_transaction :: "('o, 'a, 'w) index_queue \<Rightarrow> ('o, 'a, 'w) index_queue" where
  "end_transaction q = q\<lparr>iq_joined := 0\<rparr>"

definition run_commit ::
  "('o, 'k) object_keys \<Rightarrow> ('o, 'a, 'w) processor list \<Rightarrow> ('o, 'a, 'w) index_queue \<Rightarrow> ('o, 'a, 'w) index_queue" where
  "run_commit K utilities q =
     (if iq_joined q = 0 then q
      else (case m_each (\<lambda>_. before_commit K utilities) (replicate (iq_joined q) ()) q of
              (Inr _, q1) \<Rightarrow> end_transaction (snd (tpc_finish utilities True q1))
            | (Inl _, q1) \<Rightarrow> end_transaction (snd (tpc_abort utilities True q1))))"

definition run_abort ::
  "('o, 'a, 'w) processor list \<Rightarrow> ('o, 'a, 'w) index_queue \<Rightarrow> ('o, 'a, 'w) index_queue" where
  "run_abort utilities q =
     (if iq_joined q = 0 then q else end_transaction (snd (tpc_abort utilities True q)))"

inductive queue_step ::
  "('o, 'k) object_keys \<Rightarrow> ('o, 'a, 'w) processor list \<Rightarrow>
     ('o, 'a, 'w) index_queue \<times> ('o, 'a) entry list list \<Rightarrow>
     ('o, 'a, 'w) index_queue \<times> ('o, 'a) entry list list \<Rightarrow> bool"
  for K utilities where
  add: "queue_step K utilities (q, saved) (enqueue True e q, saved)"
| flush: "queue_step K utilities (q, saved) (snd (processQueue K utilities False q), saved)"
| save: "queue_step K utilities (q, saved) (q, savepoint q # saved)"
| roll_back: "state \<in> set saved \<Longrightarrow> queue_step K utilities (q, saved) (rollback state q, saved)"
| commit: "queue_step K utilities (q, saved) (run_commit K utilities q, [])"
| abort: "queue_step K utilities (q, saved) (run_abort utilities q, [])"

inductive reachable ::
  "('o, 'k) object_keys \<Rightarrow> ('o, 'a, 'w) processor list \<Rightarrow> 'w \<Rightarrow>
     ('o, 'a, 'w) index_queue \<times> ('o, 'a) entry list list \<Rightarrow> bool"
  for K utilities w where
  start: "reachable K utilities w (new_queue w, [])"
| step: "reachable K utilities w c \<Longrightarrow> queue_step K utilities c c' \<Longrightarrow> reachable K utilities w c'"

inductive_cases queue_stepE: "queue_step K utilities (q, saved) c"

text \<open>
  Nothing is pending without a hook: if the queue or a savepoint holds an operation, or the
  queue thinks it is registered, the current transaction has a hook for it.
\<close>

definition hooked :: "('o, 'a, 'w) index_queue \<times> ('o, 'a) entry list list \<Rightarrow> bool" where
  "hooked = (\<lambda>(q, saved).
     (iq_queue q \<noteq> [] \<or> (\<exists>s \<in> set saved. s \<noteq> []) \<or> iq_hook q = Some True) \<longrightarrow> iq_joined q > 0)"

definition quiet_abort :: "('o, 'a, 'w) processor list \<Rightarrow> bool" where
  "quiet_abort utilities \<longleftrightarrow> (\<forall>util \<in> set utilities. \<forall>w. fst (pr_abort util w) = Inr ())"

lemma on_world_fields:
  "iq_queue (snd (on_world m q)) = iq_queue q \<and> iq_hook (snd (on_world m q)) = iq_hook q \<and>
     iq_joined (snd (on_world m q)) = iq_joined q"
  by (simp add: on_world_def split: prod.split)

lemma process_fields:
  "iq_joined (snd (process K us q)) = iq_joined q \<and>
     (iq_hook (snd (process K us q)) = iq_hook q \<or> iq_hook (snd (process K us q)) = None) \<and>
     (fst (process K us q) = Inr n \<longrightarrow> iq_queue (snd (process K us q)) = []) \<and>
     (iq_queue (snd (process K us q)) \<noteq> [] \<longrightarrow> iq_queue q \<noteq> [])"
proof -
  have "optimize K [] = []" by (simp add: optimize_def reduce_queue_def)
  then show ?thesis
    by (auto simp: process_correct Let_def split: prod.splits sum.splits)
qed

lemma before_commit_fields:
  "iq_joined (snd (before_commit K us q)) = iq_joined q \<and>
     (fst (before_commit K us q) = Inr () \<longrightarrow>
        iq_queue (snd (before_commit K us q)) = [] \<and> iq_hook (snd (before_commit K us q)) = None)"
  using process_fields [of K us q]
  by (auto simp: before_commit_def m_bind_def clear_def meth_simps split: prod.splits sum.splits)

lemma hooks_fields:
  "n > 0 \<Longrightarrow> m_each (\<lambda>_. before_commit K us) (replicate n ()) q = (r, q') \<Longrightarrow>
     iq_joined q' = iq_joined q \<and> (r = Inr () \<longrightarrow> iq_queue q' = [] \<and> iq_hook q' = None)"
proof (induction n arbitrary: q)
  case 0
  then show ?case by simp
next
  case (Suc n)
  obtain r1 q1 where b: "before_commit K us q = (r1, q1)" by fastforce
  with before_commit_fields [of K us q] have f: "iq_joined q1 = iq_joined q"
    "r1 = Inr () \<Longrightarrow> iq_queue q1 = [] \<and> iq_hook q1 = None" by auto
  show ?case
  proof (cases r1)
    case (Inl e)
    then show ?thesis using Suc.prems b f by (simp add: m_bind_def)
  next
    case (Inr u)
    then have rest: "m_each (\<lambda>_. before_commit K us) (replicate n ()) q1 = (r, q')"
      using Suc.prems b by (simp add: m_bind_def)
    show ?thesis
    proof (cases n)
      case 0
      then show ?thesis using rest f Inr by (simp add: m_return_def)
    next
      case (Suc m)
      then show ?thesis using Suc.IH [OF _ rest] f by simp
    qed
  qed
qed

lemma m_each_total: "(\<And>x s. x \<in> set xs \<Longrightarrow> fst (f x s) = Inr ()) \<Longrightarrow> fst (m_each f xs s) = Inr ()"
proof (induction xs arbitrary: s)
  case (Cons x xs)
  have "fst (f x s) = Inr ()" using Cons.prems by simp
  then obtain t where "f x s = (Inr (), t)" by (cases "f x s") auto
  then show ?case using Cons by (simp add: m_bind_def)
qed (simp add: m_return_def)

lemma tpc_abort_fields:
  assumes "quiet_abort us"
  shows "iq_queue (snd (tpc_abort us True q)) = [] \<and> iq_hook (snd (tpc_abort us True q)) = None"
proof -
  have "fst (on_world (m_each pr_abort us) q) = Inr ()"
    using m_each_total [of us pr_abort "iq_world q"] assms
    by (cases "m_each pr_abort us (iq_world q)") (simp add: quiet_abort_def on_world_def)
  then show ?thesis
    by (auto simp: tpc_abort_def queue_abort_def on_world_each m_bind_def clear_def unregister_def meth_simps
        split: prod.split)
qed

lemma tpc_finish_fields:
  "iq_queue (snd (tpc_finish us True q)) = iq_queue q \<and>
     (iq_hook q = None \<longrightarrow> iq_hook (snd (tpc_finish us True q)) = None)"
  using on_world_fields [of "m_each pr_commit us" q]
  by (auto simp: tpc_finish_def queue_commit_def on_world_each m_bind_def unregister_def meth_simps
      split: prod.split sum.split)

lemma run_commit_idle:
  assumes "quiet_abort us" "hooked (q, saved)"
  shows "iq_queue (run_commit K us q) = [] \<and> iq_hook (run_commit K us q) \<noteq> Some True"
proof (cases "iq_joined q = 0")
  case True
  then show ?thesis using assms(2) by (auto simp: run_commit_def hooked_def)
next
  case False
  obtain r q1 where r: "m_each (\<lambda>_. before_commit K us) (replicate (iq_joined q) ()) q = (r, q1)" by fastforce
  from hooks_fields [OF _ r] False show ?thesis
    using r tpc_finish_fields [of us q1] tpc_abort_fields [OF assms(1), of q1]
    by (cases r) (auto simp: run_commit_def end_transaction_def)
qed

lemma queue_step_hooked:
  assumes "quiet_abort us" "hooked c" "queue_step K us c c'"
  shows "hooked c'"
  using assms(3,2)
proof cases
  case (add q saved e)
  then show ?thesis using assms(2)
    by (auto simp: hooked_def enqueue_def hook_def tm_register_def split: option.splits)
next
  case (flush q saved)
  then show ?thesis using assms(2) process_fields [of K us q]
    by (auto simp: hooked_def processQueue_def)
next
  case (save q saved)
  then show ?thesis using assms(2) by (auto simp: hooked_def savepoint_def getState_def)
next
  case (roll_back state saved q)
  then show ?thesis using assms(2) by (auto simp: hooked_def rollback_def setState_def)
next
  case (commit q saved)
  then show ?thesis using run_commit_idle [OF assms(1), of q saved K] assms(2) by (auto simp: hooked_def)
next
  case (abort q saved)
  then show ?thesis using assms(2) tpc_abort_fields [OF assms(1), of q]
    by (auto simp: hooked_def run_abort_def end_transaction_def)
qed

text \<open>
  No queued operation is forgotten: whatever happened before, as long as the queue
  holds an operation the current transaction has a hook that will process it; and after a
  commit or an abort the queue is empty and registers anew for the next transaction.
\<close>

theorem queue_always_hooked:
  assumes "quiet_abort utilities" "reachable K utilities w (q, saved)"
  shows "(iq_queue q \<noteq> [] \<longrightarrow> iq_joined q > 0) \<and>
    iq_queue (run_commit K utilities q) = [] \<and> iq_joined (enqueue True e (run_commit K utilities q)) > 0 \<and>
    iq_queue (run_abort utilities q) = [] \<and> iq_joined (enqueue True e (run_abort utilities q)) > 0"
proof -
  have "hooked (q, saved)"
    using assms(2)
  proof (induction "(q, saved)" arbitrary: q saved rule: reachable.induct)
    case start
    then show ?case by (simp add: hooked_def new_queue_def)
  next
    case (step c)
    then show ?case using queue_step_hooked [OF assms(1)] by (cases c) blast
  qed
  note h = this run_commit_idle [OF assms(1) this, of K]
  have "iq_queue (run_abort utilities q) = [] \<and> iq_hook (run_abort utilities q) \<noteq> Some True"
    using h(1) tpc_abort_fields [OF assms(1), of q]
    by (auto simp: run_abort_def end_transaction_def hooked_def)
  then show ?thesis
    using h by (auto simp: hooked_def enqueue_def hook_def tm_register_def split: option.splits)
qed

section \<open>Instances\<close>

definition demo_keys :: "(int, int) object_keys" where
  "demo_keys = \<lparr>ok_key = (\<lambda>x. x), ok_rank = (\<lambda>x. x)\<rparr>"

definition demo_queue :: "(int, string) entry list" where
  "demo_queue = [(INDEX, 7, None), (REINDEX, 1, Some {''age''}), (UNINDEX, 7, None)]"

lemma demo_ops:
  "ops_of (ok_key demo_keys) k demo_queue =
     (if k = 7 then [(INDEX, None), (UNINDEX, None)] else if k = 1 then [(REINDEX, Some {''age''})] else [])"
  by (simp add: ops_of_def demo_queue_def demo_keys_def)

theorem optimize_net_effect_witness:
  "{op. \<exists>obj attr. (op, obj, attr) \<in> set (optimize demo_keys demo_queue) \<and> ok_key demo_keys obj = 7} = {} \<and>
   {op. \<exists>obj attr. (op, obj, attr) \<in> set (optimize demo_keys demo_queue) \<and> ok_key demo_keys obj = 1} = {REINDEX}"
proof -
  have "legal False (map fst (ops_of (ok_key demo_keys) 7 demo_queue))"
    "legal True (map fst (ops_of (ok_key demo_keys) 1 demo_queue))"
    by (simp_all add: demo_ops op_codes)
  from this [THEN optimize_net_effect] show ?thesis
    by (simp add: demo_ops net_def op_codes)
qed

text \<open>An index of the attributes of numbered objects.\<close>

definition demo_cur :: "int \<Rightarrow> string \<rightharpoonup> int" where
  "demo_cur k = [''age'' \<mapsto> k, ''size'' \<mapsto> k + 10]"

definition demo_processor :: "(int, string, int \<Rightarrow> (string \<rightharpoonup> int) option) processor" where
  "demo_processor = \<lparr>pr_begin = m_return (),
     pr_index = (\<lambda>obj A w. (Inr (), apply_entry id demo_cur (INDEX, obj, A) w)),
     pr_reindex = (\<lambda>obj A w. (Inr (), apply_entry id demo_cur (REINDEX, obj, A) w)),
     pr_unindex = (\<lambda>obj w. (Inr (), apply_entry id demo_cur (UNINDEX, obj, None) w)),
     pr_commit = m_return (), pr_abort = m_return ()\<rparr>"


theorem queue_always_hooked_witness:
  "iq_joined (enqueue True (REINDEX, 1, None) (new_queue ())) > 0 \<and>
   iq_queue (run_commit demo_keys [] (enqueue True (REINDEX, 1, None :: string set option) (new_queue ()))) = []"
proof -
  let ?q = "enqueue True (REINDEX, 1 :: int, None :: string set option) (new_queue ())"
  have r: "reachable demo_keys [] () (?q, [])"
    by (rule reachable.step [OF reachable.start queue_step.add])
  have "quiet_abort []" by (simp add: quiet_abort_def)
  from queue_always_hooked [OF this r, where e = "(REINDEX, 1, None)"] have "iq_queue (run_commit demo_keys [] ?q) = []" by (elim conjE)
  then show ?thesis by (simp add: enqueue_def hook_def tm_register_def new_queue_def Let_def)
qed

end
