(* ===== verification/Id_Store.thy ===== *)
theory Id_Store
  imports Prelude
begin

text \<open>
  zerodb/intid.py: the store of a model's objects under integer ids that it generates
  itself, sequentially where it can and at random where it cannot. The store is an
  object on its own, with a BTree from ids to objects and a counter; objects keep their
  id in an attribute. Random numbers are drawn from a list of them, an argument.
\<close>

section \<open>State\<close>

text \<open>
  \<open>is_length = None\<close> is a store from before the counter existed, \<open>is_nextid\<close> is the
  volatile \<open>_v_nextid\<close>. \<open>is_uids\<close> are the objects' \<open>_p_uid\<close>: \<open>None\<close> for no such
  attribute, \<open>Some None\<close> for the value None.
\<close>

record 'o id_store =
  is_tree :: "int \<Rightarrow> 'o option"
  is_length :: "int option"
  is_nextid :: "int option"
  is_uids :: "'o \<Rightarrow> int option option"

text \<open>\<open>family.maxint\<close> of the 32-bit family.\<close>

definition maxint :: int where "maxint = 2 ^ 31 - 1"

definition new_id_store :: "('o \<Rightarrow> int option option) \<Rightarrow> 'o id_store" where
  "new_id_store uids = \<lparr>is_tree = Map.empty, is_length = Some 0, is_nextid = None, is_uids = uids\<rparr>"

section \<open>Operations\<close>

text \<open>
  \<open>_generateId\<close>: the id, the next one to try and the random numbers left; \<open>None\<close> if
  they do not suffice, that is, if the loop goes on.
\<close>

function generate_id ::
  "(int \<Rightarrow> 'o option) \<Rightarrow> int option \<Rightarrow> int list \<Rightarrow> (int \<times> int option \<times> int list) option" where
  "generate_id tree None [] = None"
| "generate_id tree None (r # draws) = generate_id tree (Some r) draws"
| "generate_id tree (Some nextid) draws =
     (if tree nextid = None then
        Some (nextid, if nextid + 1 > maxint then None else Some (nextid + 1), draws)
      else generate_id tree None draws)"
  by pat_completeness auto
termination
  by (relation "measure (\<lambda>(tree, nextid, draws). 2 * length draws + (if nextid = None then 0 else 1))") auto

definition ensure_length :: "'o id_store \<Rightarrow> 'o id_store" where
  "ensure_length s =
     (if is_length s = None then s\<lparr>is_length := Some (int (card (dom (is_tree s))))\<rparr> else s)"

definition change_length :: "int \<Rightarrow> 'o id_store \<Rightarrow> 'o id_store" where
  "change_length d s = s\<lparr>is_length := map_option (\<lambda>n. n + d) (is_length s)\<rparr>"

text \<open>\<open>BTree.insert\<close>: whether the key was new, and the tree.\<close>

definition btree_insert :: "int \<Rightarrow> 'o \<Rightarrow> (int \<Rightarrow> 'o option) \<Rightarrow> bool \<times> (int \<Rightarrow> 'o option)" where
  "btree_insert uid obj tree = (if tree uid = None then (True, tree(uid \<mapsto> obj)) else (False, tree))"

text \<open>The loop of \<open>add\<close>, for at most \<open>fuel\<close> rounds.\<close>

fun add_loop :: "nat \<Rightarrow> 'o \<Rightarrow> int list \<Rightarrow> 'o id_store \<Rightarrow> (int \<times> int list \<times> 'o id_store) option" where
  "add_loop 0 obj draws s = None"
| "add_loop (Suc fuel) obj draws s =
     (case generate_id (is_tree s) (is_nextid s) draws of
        None \<Rightarrow> None
      | Some (uid, nextid, draws') \<Rightarrow>
          (case btree_insert uid obj (is_tree s) of
             (True, tree) \<Rightarrow>
               Some (uid, draws', change_length 1 (s\<lparr>is_nextid := nextid, is_tree := tree,
                 is_uids := (is_uids s)(obj \<mapsto> Some uid)\<rparr>))
           | (False, _) \<Rightarrow> add_loop fuel obj draws' (s\<lparr>is_nextid := nextid\<rparr>)))"

definition store_add :: "nat \<Rightarrow> 'o \<Rightarrow> int list \<Rightarrow> 'o id_store \<Rightarrow> (int \<times> int list \<times> 'o id_store) option" where
  "store_add fuel obj draws s = add_loop fuel obj draws (ensure_length s)"

text \<open>\<open>del tree[k]\<close>\<close>

definition tree_del :: "int \<Rightarrow> ('o id_store, unit) meth" where
  "tree_del uid s =
     (if is_tree s uid = None then (Inl KeyError, s)
      else (Inr (), s\<lparr>is_tree := (is_tree s)(uid := None)\<rparr>))"

text \<open>\<open>remove\<close> takes an id or an object; a None is no key of an integer BTree.\<close>

datatype 'o id_or_obj = By_Id int | By_Obj 'o

definition store_remove :: "'o id_or_obj \<Rightarrow> ('o id_store, unit) meth" where
  "store_remove iobj =
     m_bind (m_modify ensure_length) (\<lambda>_.
       case iobj of
         By_Id uid \<Rightarrow> m_bind (tree_del uid) (\<lambda>_. m_modify (change_length (-1)))
       | By_Obj obj \<Rightarrow> (\<lambda>s.
           case is_uids s obj of
             None \<Rightarrow> (Inl TypeError, s)
           | Some None \<Rightarrow> (Inl TypeError, s)
           | Some (Some uid) \<Rightarrow>
               m_bind (tree_del uid) (\<lambda>_.
               m_bind (m_modify (\<lambda>s. s\<lparr>is_uids := (is_uids s)(obj \<mapsto> None)\<rparr>)) (\<lambda>_.
               m_modify (change_length (-1)))) s))"

definition store_getitem :: "int \<Rightarrow> 'o id_store \<Rightarrow> 'o res" where
  "store_getitem uid s = (case is_tree s uid of None \<Rightarrow> Inl KeyError | Some obj \<Rightarrow> Inr obj)"

definition store_len :: "'o id_store \<Rightarrow> int \<times> 'o id_store" where
  "store_len s = (let s' = ensure_length s in (the (is_length s'), s'))"

section \<open>Lemmas\<close>

lemma generate_id_fresh:
  "generate_id tree nextid draws = Some (uid, n, ds) \<Longrightarrow>
     tree uid = None \<and> n = (if uid + 1 > maxint then None else Some (uid + 1)) \<and>
     (nextid = Some uid \<or> uid \<in> set draws) \<and> set ds \<subseteq> set draws"
  by (induction tree nextid draws rule: generate_id.induct) (auto split: if_splits)

lemma generate_id_sequential:
  "tree uid = None \<Longrightarrow>
     generate_id tree (Some uid) draws = Some (uid, if uid + 1 > maxint then None else Some (uid + 1), draws)"
  by simp

lemma generate_id_total:
  "d \<in> set draws \<Longrightarrow> tree d = None \<Longrightarrow> generate_id tree nextid draws \<noteq> None"
  by (induction tree nextid draws rule: generate_id.induct) auto

text \<open>The loop of \<open>add\<close> runs once: the id it generates is free, so the insert succeeds.\<close>

lemma add_loop_once:
  "add_loop (Suc fuel) obj draws s =
     map_option (\<lambda>(uid, nextid, draws'). (uid, draws', change_length 1 (s\<lparr>is_nextid := nextid,
         is_tree := (is_tree s)(uid \<mapsto> obj), is_uids := (is_uids s)(obj \<mapsto> Some uid)\<rparr>)))
       (generate_id (is_tree s) (is_nextid s) draws)"
  using generate_id_fresh [of "is_tree s" "is_nextid s" draws]
  by (auto simp: btree_insert_def split: option.split)

lemma store_add_fuel: "fuel \<ge> 1 \<Longrightarrow> store_add fuel obj draws s = store_add 1 obj draws s"
  by (cases fuel) (simp_all add: store_add_def add_loop_once del: add_loop.simps)

lemma generate_id_first:
  "generate_id tree nextid draws = Some (uid, n, ds) \<Longrightarrow>
     Some uid = (case nextid of
         Some m \<Rightarrow> if tree m = None then Some m else find (\<lambda>d. tree d = None) draws
       | None \<Rightarrow> find (\<lambda>d. tree d = None) draws)"
  by (induction tree nextid draws rule: generate_id.induct) (auto split: if_splits)

definition in_range :: "int \<Rightarrow> bool" where
  "in_range uid \<longleftrightarrow> 0 \<le> uid \<and> uid \<le> maxint"

text \<open>What \<open>random.randrange(0, maxint)\<close> may return.\<close>

definition draws_ok :: "int list \<Rightarrow> bool" where
  "draws_ok draws \<longleftrightarrow> (\<forall>d \<in> set draws. 0 \<le> d \<and> d < maxint)"

definition store_inv :: "'o id_store \<Rightarrow> bool" where
  "store_inv s \<longleftrightarrow> finite (dom (is_tree s)) \<and> (\<forall>uid \<in> dom (is_tree s). in_range uid) \<and>
     (\<forall>n. is_nextid s = Some n \<longrightarrow> in_range n) \<and>
     (\<forall>n. is_length s = Some n \<longrightarrow> n = int (card (dom (is_tree s))))"

lemma ensure_length_simps [simp]:
  "is_tree (ensure_length s) = is_tree s" "is_nextid (ensure_length s) = is_nextid s"
  "is_uids (ensure_length s) = is_uids s"
  "is_tree (change_length d s) = is_tree s" "is_nextid (change_length d s) = is_nextid s"
  "is_uids (change_length d s) = is_uids s"
  by (simp_all add: ensure_length_def change_length_def)

lemma store_inv_ensure:
  "store_inv s \<Longrightarrow> store_inv (ensure_length s) \<and>
     is_length (ensure_length s) = Some (int (card (dom (is_tree s))))"
  by (auto simp: store_inv_def ensure_length_def)

lemma store_inv_insert:
  assumes "store_inv s" "is_length s = Some n" "is_tree s uid = None" "in_range uid"
    and "\<And>m. nextid = Some m \<Longrightarrow> in_range m"
  shows "store_inv (change_length 1 (s\<lparr>is_nextid := nextid, is_tree := (is_tree s)(uid \<mapsto> obj), is_uids := u\<rparr>))"
  using assms by (auto simp: store_inv_def change_length_def domIff)

lemma store_inv_delete:
  assumes "store_inv s" "is_length s = Some n" "is_tree s uid \<noteq> None"
  shows "store_inv (change_length (-1) (s\<lparr>is_tree := (is_tree s)(uid := None), is_uids := u\<rparr>))"
proof -
  have "int (card (dom (is_tree s) - {uid})) = int (card (dom (is_tree s))) - 1"
    by (rule card_filter_remove_int) (use assms in \<open>auto simp: store_inv_def\<close>)
  then show ?thesis
    using assms by (auto simp: store_inv_def change_length_def)
qed

lemma next_in_range:
  "in_range uid \<Longrightarrow> (if uid + 1 > maxint then None else Some (uid + 1)) = Some m \<Longrightarrow> in_range m"
  by (auto simp: in_range_def split: if_splits)

lemma store_add_result:
  assumes "store_inv s" "draws_ok draws" "store_add fuel obj draws s = Some (uid, ds, s')"
  shows "is_tree s uid = None \<and> in_range uid \<and> is_tree s' = (is_tree s)(uid \<mapsto> obj) \<and>
    is_uids s' = (is_uids s)(obj \<mapsto> Some uid) \<and> store_inv s' \<and>
    (\<forall>n. is_nextid s = Some n \<and> is_tree s n = None \<longrightarrow> uid = n)"
proof -
  obtain f where f: "fuel = Suc f"
    using assms(3) by (cases fuel) (auto simp: store_add_def)
  let ?s = "ensure_length s"
  obtain nextid where g: "generate_id (is_tree s) (is_nextid s) draws = Some (uid, nextid, ds)"
    and s': "s' = change_length 1 (?s\<lparr>is_nextid := nextid, is_tree := (is_tree ?s)(uid \<mapsto> obj),
         is_uids := (is_uids ?s)(obj \<mapsto> Some uid)\<rparr>)"
    using assms(3) unfolding store_add_def f add_loop_once by auto
  from generate_id_fresh [OF g] have fresh: "is_tree s uid = None"
    "nextid = (if uid + 1 > maxint then None else Some (uid + 1))" "is_nextid s = Some uid \<or> uid \<in> set draws"
    by auto
  have range: "in_range uid"
    using fresh(3) assms(1,2) by (auto simp: store_inv_def draws_ok_def in_range_def)
  have "store_inv s'"
    unfolding s' by (rule store_inv_insert)
      (use store_inv_ensure [OF assms(1)] fresh range next_in_range [OF range] in auto)
  moreover have "uid = n" if "is_nextid s = Some n \<and> is_tree s n = None" for n
    using g that by simp
  ultimately show ?thesis using fresh(1) range by (simp add: s')
qed

lemma store_add_draws:
  assumes "store_add fuel obj draws s = Some (uid, ds, s')"
  shows "set ds \<subseteq> set draws"
proof -
  obtain f where f: "fuel = Suc f" using assms by (cases fuel) (auto simp: store_add_def)
  then obtain n where "generate_id (is_tree s) (is_nextid s) draws = Some (uid, n, ds)"
    using assms unfolding store_add_def f add_loop_once by auto
  then show ?thesis using generate_id_fresh by blast
qed

lemma same_uids:
  "(ensure_length s)\<lparr>is_tree := T, is_uids := is_uids s\<rparr> = (ensure_length s)\<lparr>is_tree := T\<rparr>"
  by (cases s) (simp add: ensure_length_def)

lemma store_remove_cases:
  "store_remove iobj s = (r, s') \<Longrightarrow>
     (r = Inl KeyError \<or> r = Inl TypeError) \<and> s' = ensure_length s \<or>
     (\<exists>uid u. r = Inr () \<and> is_tree s uid \<noteq> None \<and>
        s' = change_length (-1) ((ensure_length s)\<lparr>is_tree := (is_tree s)(uid := None), is_uids := u\<rparr>) \<and>
        (case iobj of By_Id i \<Rightarrow> i = uid | By_Obj obj \<Rightarrow> is_uids s obj = Some (Some uid)))"
proof (cases iobj)
  case (By_Id i)
  moreover assume "store_remove iobj s = (r, s')"
  ultimately show ?thesis
    by (cases "is_tree s i")
      (auto simp: store_remove_def m_bind_def meth_simps tree_del_def same_uids
        intro!: exI [of _ i] exI [of _ "is_uids s"])
next
  case (By_Obj obj)
  moreover assume "store_remove iobj s = (r, s')"
  ultimately show ?thesis
    by (auto simp: store_remove_def m_bind_def meth_simps tree_del_def split: if_splits option.splits)
qed

lemma store_remove_by_id:
  assumes "store_inv s" "store_remove (By_Id uid) s = (r, s')"
  shows "store_inv s' \<and> is_tree s' = (is_tree s)(uid := None) \<and> is_uids s' = is_uids s \<and>
    (if is_tree s uid = None then r = Inl KeyError else r = Inr ())"
proof (cases "is_tree s uid")
  case None
  then have "r = Inl KeyError" "s' = ensure_length s"
    using assms(2) by (auto simp: store_remove_def m_bind_def meth_simps tree_del_def)
  then show ?thesis using None store_inv_ensure [OF assms(1)] by (simp add: fun_upd_idem)
next
  case (Some obj)
  let ?s = "ensure_length s"
  have "r = Inr ()" "s' = change_length (-1) (?s\<lparr>is_tree := (is_tree ?s)(uid := None), is_uids := is_uids ?s\<rparr>)"
    using assms(2) Some by (auto simp: store_remove_def m_bind_def meth_simps tree_del_def same_uids)
  moreover have "store_inv (change_length (-1) (?s\<lparr>is_tree := (is_tree ?s)(uid := None), is_uids := is_uids ?s\<rparr>))"
    by (rule store_inv_delete) (use store_inv_ensure [OF assms(1)] Some in auto)
  ultimately show ?thesis using Some by simp
qed

section \<open>Properties\<close>

text \<open>
  C21: If the next id in sequence is free, or else any of the random numbers to come is, \<open>add\<close> returns,
  after a single round of its loop however many it may make. It stores the object under that next id, or
  else under the first of the random numbers that is free: an id that was free and within the range of the
  tree's keys. It tells the object its id and leaves every other entry alone.
\<close>

theorem store_add_correct:
  assumes "store_inv s" "draws_ok draws"
    and free: "(\<exists>n. is_nextid s = Some n \<and> is_tree s n = None) \<or> (\<exists>d \<in> set draws. is_tree s d = None)"
  shows "\<exists>uid ds s'. (\<forall>fuel \<ge> 1. store_add fuel obj draws s = Some (uid, ds, s')) \<and>
    is_tree s uid = None \<and> 0 \<le> uid \<and> uid \<le> maxint \<and>
    Some uid = (case is_nextid s of
        Some n \<Rightarrow> if is_tree s n = None then Some n else find (\<lambda>d. is_tree s d = None) draws
      | None \<Rightarrow> find (\<lambda>d. is_tree s d = None) draws) \<and>
    store_getitem uid s' = Inr obj \<and> is_uids s' obj = Some (Some uid) \<and>
    (\<forall>v. v \<noteq> uid \<longrightarrow> store_getitem v s' = store_getitem v s) \<and> (\<forall>x. x \<noteq> obj \<longrightarrow> is_uids s' x = is_uids s x)"
proof -
  have "generate_id (is_tree s) (is_nextid s) draws \<noteq> None"
    using free
  proof (elim disjE exE conjE bexE)
    fix n assume "is_nextid s = Some n" "is_tree s n = None"
    then show ?thesis by simp
  qed (rule generate_id_total)
  then obtain uid n ds where g: "generate_id (is_tree s) (is_nextid s) draws = Some (uid, n, ds)" by auto
  then obtain s' where run: "store_add 1 obj draws s = Some (uid, ds, s')"
    unfolding One_nat_def store_add_def add_loop_once by auto
  have all: "\<forall>fuel \<ge> 1. store_add fuel obj draws s = Some (uid, ds, s')"
    using run store_add_fuel by metis
  show ?thesis
    by (rule exI [where x = uid], rule exI [where x = ds], rule exI [where x = s'])
      (use store_add_result [OF assms(1,2) run] all generate_id_first [OF g] in
        \<open>simp add: store_getitem_def in_range_def\<close>)
qed

text \<open>
  The counter is the number of objects: every operation, also one that raises, keeps
  the store consistent, and \<open>len\<close> returns the number of entries of the tree.
\<close>

theorem store_consistent:
  assumes "store_inv s" "draws_ok draws"
  shows "store_inv (snd (store_remove iobj s)) \<and>
    (\<forall>uid ds s'. store_add fuel obj draws s = Some (uid, ds, s') \<longrightarrow>
       store_inv s' \<and> fst (store_len s') = fst (store_len s) + 1) \<and>
    fst (store_len s) = int (card (dom (is_tree s))) \<and> store_inv (snd (store_len s))"
proof -
  have len: "fst (store_len t) = int (card (dom (is_tree t)))" if "store_inv t" for t :: "'a id_store"
    using store_inv_ensure [OF that] by (simp add: store_len_def Let_def)
  have "store_inv (snd (store_remove iobj s))"
  proof -
    obtain r s' where r: "store_remove iobj s = (r, s')" by fastforce
    from store_remove_cases [OF this] consider
      "s' = ensure_length s"
    | uid u where "is_tree s uid \<noteq> None"
        "s' = change_length (-1) ((ensure_length s)\<lparr>is_tree := (is_tree s)(uid := None), is_uids := u\<rparr>)"
      by blast
    then show ?thesis
    proof cases
      case 1
      then show ?thesis using r store_inv_ensure [OF assms(1)] by simp
    next
      case 2
      have "store_inv (change_length (-1) ((ensure_length s)\<lparr>is_tree := (is_tree (ensure_length s))(uid := None), is_uids := u\<rparr>))"
        by (rule store_inv_delete) (use store_inv_ensure [OF assms(1)] 2 in auto)
      then show ?thesis using r 2 by simp
    qed
  qed
  moreover have "store_inv s' \<and> fst (store_len s') = fst (store_len s) + 1"
    if add: "store_add fuel obj draws s = Some (uid, ds, s')" for uid ds s'
  proof -
    have s': "store_inv s'" "is_tree s' = (is_tree s)(uid \<mapsto> obj)" "is_tree s uid = None"
      using store_add_result [OF assms add] by simp_all
    have "finite (dom (is_tree s))" using assms(1) by (simp add: store_inv_def)
    then have "int (card (dom (is_tree s'))) = int (card (dom (is_tree s))) + 1"
      using s' by (simp add: domIff)
    then show ?thesis using s'(1) len [OF assms(1)] len [OF s'(1)] by simp
  qed
  ultimately show ?thesis
    using len [OF assms(1)] store_inv_ensure [OF assms(1)] by (simp add: store_len_def Let_def)
qed

text \<open>
  Adding an object and removing it, by its id or by itself, gives the entries back as
  they were; removing it a second time is refused.
\<close>

theorem store_add_remove:
  assumes "store_inv s" "draws_ok draws" "store_add fuel obj draws s = Some (uid, ds, s')"
    and "iobj = By_Id uid \<or> iobj = By_Obj obj"
  shows "\<exists>s''. store_remove iobj s' = (Inr (), s'') \<and> is_tree s'' = is_tree s \<and>
    fst (store_len s'') = fst (store_len s) \<and> (\<exists>e. fst (store_remove iobj s'') = Inl e)"
proof -
  note r = store_add_result [OF assms(1-3)]
  have undone: "(is_tree s)(uid := None) = is_tree s" using r by auto
  have len: "is_length (ensure_length s') = Some (int (card (dom (is_tree s))) + 1)"
  proof -
    have "finite (dom (is_tree s))" using assms(1) by (simp add: store_inv_def)
    then have "int (card (dom (is_tree s'))) = int (card (dom (is_tree s))) + 1"
      using r by (simp add: domIff)
    then show ?thesis using r store_inv_ensure [of s'] by simp
  qed
  have slen: "fst (store_len s) = int (card (dom (is_tree s)))"
    using store_inv_ensure [OF assms(1)] by (simp add: store_len_def Let_def)
  obtain u where u: "iobj = By_Obj obj \<longrightarrow> u obj = Some None"
    and s'': "store_remove iobj s' =
      (Inr (), change_length (-1) ((ensure_length s')\<lparr>is_tree := is_tree s, is_uids := u\<rparr>))"
    using assms(4)
  proof (elim disjE)
    assume iobj: "iobj = By_Id uid"
    have "store_remove iobj s' = (Inr (), change_length (-1) ((ensure_length s')\<lparr>is_tree := is_tree s\<rparr>))"
      using r undone iobj by (simp add: store_remove_def m_bind_def meth_simps tree_del_def)
    then show thesis
      by (intro that [of "is_uids s'"]) (simp_all add: same_uids iobj)
  next
    assume "iobj = By_Obj obj"
    then show thesis
      using that [of "(is_uids s')(obj \<mapsto> None)"] r undone
      by (simp add: store_remove_def m_bind_def meth_simps tree_del_def del: not_None_eq)
  qed
  let ?s = "change_length (-1) ((ensure_length s')\<lparr>is_tree := is_tree s, is_uids := u\<rparr>)"
  have "is_length ?s = Some (int (card (dom (is_tree s))))"
    using len by (simp add: change_length_def)
  then have "fst (store_len ?s) = fst (store_len s)"
    using slen by (simp add: store_len_def ensure_length_def Let_def)
  moreover have "\<exists>e. fst (store_remove iobj ?s) = Inl e"
    using assms(4) u r by (auto simp: store_remove_def m_bind_def meth_simps tree_del_def)
  ultimately show ?thesis using s'' by simp
qed

definition demo_store :: "nat id_store" where
  "demo_store = \<lparr>is_tree = [5 \<mapsto> 0], is_length = None, is_nextid = Some 5, is_uids = (\<lambda>_. None)\<rparr>"

lemma demo_store_ok: "store_inv demo_store" "draws_ok [5, 9]"
  by (simp_all add: store_inv_def demo_store_def in_range_def maxint_def draws_ok_def)

lemma demo_store_add:
  "store_add 1 (7::nat) [5, 9] demo_store = Some (9, [],
     \<lparr>is_tree = [5 \<mapsto> 0, 9 \<mapsto> 7], is_length = Some 2, is_nextid = Some 10, is_uids = (\<lambda>_. None)(7 \<mapsto> Some 9)\<rparr>)"
  unfolding One_nat_def store_add_def add_loop_once
  by (simp add: demo_store_def ensure_length_def change_length_def maxint_def)

theorem store_add_correct_witness:
  "\<exists>ds s'. store_add 1 (7::nat) [5, 9] demo_store = Some (9, ds, s') \<and> store_getitem 9 s' = Inr 7"
proof -
  have "\<exists>d \<in> set [5, 9]. is_tree demo_store d = None" by (simp add: demo_store_def)
  then obtain uid ds s' where r: "\<forall>fuel \<ge> 1. store_add fuel (7::nat) [5, 9] demo_store = Some (uid, ds, s')"
    "store_getitem uid s' = Inr 7"
    using store_add_correct [OF demo_store_ok, of 7] by blast
  moreover have "uid = 9" using r(1) demo_store_add by simp
  ultimately show ?thesis by auto
qed

theorem store_consistent_witness:
  "store_inv (snd (store_remove (By_Id 5) demo_store)) \<and> fst (store_len demo_store) = 1"
  using store_consistent [OF demo_store_ok, of "By_Id 5"] by (simp add: demo_store_def)

theorem store_add_remove_witness:
  "\<exists>uid ds s' s''. store_add 1 (7::nat) [5, 9] demo_store = Some (uid, ds, s') \<and>
     store_remove (By_Obj 7) s' = (Inr (), s'') \<and> is_tree s'' = is_tree demo_store"
  using store_add_remove [OF demo_store_ok demo_store_add, of "By_Obj 7"] demo_store_add by blast

end
