(* ===== verification/Models.thy ===== *)
theory Models
  imports Index_Queue Id_Store
begin

text \<open>
  zerodb/models: classes of objects whose declared fields are indexed. A class is made from
  its dictionary by the metaclass (\<open>model_meta\<close>), an object from keyword arguments
  (\<open>new_model\<close>); setting an attribute of a stored object queues its reindexing
  (\<open>model_setattr\<close>, with collective/indexing/subscribers.py). Sets of field names are lists
  here, in the order of the class body; what a default or a virtual field computes is part
  of the class.
\<close>

section \<open>Fields\<close>

text \<open>An attribute's value; None has a role of its own.\<close>

datatype 'v pyval = PyNone | PyVal 'v

lemma not_PyNone: "v \<noteq> PyNone \<longleftrightarrow> (\<exists>x. v = PyVal x)"
  by (cases v) simp_all

text \<open>\<open>Field\<close>, \<open>Text\<close>, \<open>TextOkapi\<close>, by the index class they use.\<close>

datatype field_kind = Field_Kind | Text_Kind | Okapi_Kind

text \<open>
  A default is a value or a function without arguments, of the time it is called at; a
  virtual field is a function of the object's attributes.
\<close>

datatype ('t, 'v) field_default = Plain 'v | Callable "'t \<Rightarrow> 'v pyval res"

type_synonym 'v obj_dict = "string \<Rightarrow> 'v pyval option"

record ('t, 'v) indexable =
  in_kind :: field_kind
  in_default :: "('t, 'v) field_default option"
  in_virtual :: "('v obj_dict \<Rightarrow> 'v pyval res) option"
  in_indexed :: bool

text \<open>\<open>Indexable.__init__\<close>\<close>

definition make_field ::
  "field_kind \<Rightarrow> ('t, 'v) field_default option \<Rightarrow> ('v obj_dict \<Rightarrow> 'v pyval res) option \<Rightarrow> bool
     \<Rightarrow> ('t, 'v) indexable res" where
  "make_field kind dflt virtual index =
     (if dflt \<noteq> None \<and> virtual \<noteq> None then Inl FieldException
      else Inr \<lparr>in_kind = kind, in_default = dflt, in_virtual = virtual, in_indexed = index\<rparr>)"

section \<open>Classes\<close>

text \<open>What a class body binds a name to.\<close>

datatype ('t, 'v) class_attr = A_Field "('t, 'v) indexable" | A_Other

record ('t, 'v) model_class =
  mc_name :: string
  mc_indexed :: "string list"
  mc_default :: "string list"
  mc_virtual :: "(string \<times> ('v obj_dict \<Rightarrow> 'v pyval res)) list"
  mc_required :: "string list"
  mc_attr :: "string \<Rightarrow> ('t, 'v) class_attr option"

text \<open>The indexable attributes of a class body with a public name.\<close>

fun used_fields :: "(string \<times> ('t, 'v) class_attr) list \<Rightarrow> (string \<times> ('t, 'v) indexable) list" where
  "used_fields [] = []"
| "used_fields ((k, A_Field f) # dct) =
     (if startswith k ''_'' then used_fields dct else (k, f) # used_fields dct)"
| "used_fields ((k, A_Other) # dct) = used_fields dct"

definition field_names :: "(('t, 'v) indexable \<Rightarrow> bool) \<Rightarrow> (string \<times> ('t, 'v) indexable) list \<Rightarrow> string list" where
  "field_names P fs = map fst (filter (\<lambda>(k, f). P f) fs)"

text \<open>
  \<open>ModelMeta.__init__\<close> of a subclass of \<open>Model\<close> (\<open>parent = None\<close>) or of another model.
  \<open>own_name\<close> is the \<open>__modelname__\<close> in the class body, if it has one; otherwise the class
  inherits it. Removing the fields from \<open>dct\<close> has no effect on the class, whose attributes
  were set before.
\<close>

definition virtual_fields ::
  "(string \<times> ('t, 'v) indexable) list \<Rightarrow> (string \<times> ('v obj_dict \<Rightarrow> 'v pyval res)) list" where
  "virtual_fields fs = map (\<lambda>(k, f). (k, the (in_virtual f))) (filter (\<lambda>(k, f). in_virtual f \<noteq> None) fs)"

definition model_meta ::
  "('t, 'v) model_class option \<Rightarrow> string \<Rightarrow> string option \<Rightarrow> (string \<times> ('t, 'v) class_attr) list
     \<Rightarrow> ('t, 'v) model_class" where
  "model_meta parent name own_name dct =
     (let fs = used_fields dct;
          required = field_names (\<lambda>f. in_default f = None) fs;
          virtual = virtual_fields fs;
          defaults = filter (\<lambda>k. k \<notin> set required) (map fst fs);
          inherited = (case own_name of Some n \<Rightarrow> n
            | None \<Rightarrow> (case parent of None \<Rightarrow> [] | Some p \<Rightarrow> mc_name p))
      in \<lparr>mc_name = (if inherited \<noteq> [] then inherited else lower name),
          mc_indexed = field_names in_indexed fs,
          mc_default = filter (\<lambda>k. k \<notin> fst ` set virtual) defaults,
          mc_virtual = virtual,
          mc_required = filter (\<lambda>k. k \<notin> fst ` set virtual) required,
          mc_attr = (\<lambda>k. case map_of dct k of
              Some a \<Rightarrow> Some a
            | None \<Rightarrow> (case parent of None \<Rightarrow> None | Some p \<Rightarrow> mc_attr p k))\<rparr>)"

section \<open>Objects\<close>

text \<open>An object: its dictionary and \<open>_p_uid\<close>, where it has that attribute, the value of which may be None.\<close>

record 'v object =
  ob_dict :: "'v obj_dict"
  ob_uid :: "int option option"

datatype ('t, 'v) found = In_Object "'v pyval" | In_Class "('t, 'v) class_attr" | Not_Found

text \<open>\<open>getattr(self, name, None)\<close>\<close>

definition get_attribute :: "('t, 'v) model_class \<Rightarrow> 'v object \<Rightarrow> string \<Rightarrow> ('t, 'v) found" where
  "get_attribute C obj name =
     (case ob_dict obj name of
        Some v \<Rightarrow> In_Object v
      | None \<Rightarrow> (case mc_attr C name of Some a \<Rightarrow> In_Class a | None \<Rightarrow> Not_Found))"

text \<open>
  \<open>Model.__setattr__\<close>: whether it notifies that the attribute was modified, and the object.
  The class attributes that are no fields are methods and constants, not None.
\<close>

definition notifies :: "('t, 'v) model_class \<Rightarrow> 'v object \<Rightarrow> string \<Rightarrow> bool" where
  "notifies C obj name \<longleftrightarrow>
     (case get_attribute C obj name of
        In_Object v \<Rightarrow> v \<noteq> PyNone
      | In_Class (A_Field _) \<Rightarrow> False
      | In_Class A_Other \<Rightarrow> True
      | Not_Found \<Rightarrow> False)
     \<and> name \<in> set (mc_indexed C) \<and> ob_uid obj \<noteq> None"

definition set_dict :: "string \<Rightarrow> 'v pyval \<Rightarrow> 'v object \<Rightarrow> 'v object" where
  "set_dict name value obj = obj\<lparr>ob_dict := (ob_dict obj)(name \<mapsto> value)\<rparr>"

text \<open>
  The whole of it, on the objects and the indexing queue: \<open>modified\<close> reaches
  \<open>objectAutoReindex\<close> when the dispatcher is subscribed, which queues the object with the
  attribute's name.
\<close>

record ('o, 'v, 'w) session =
  se_objects :: "'o \<Rightarrow> 'v object"
  se_queue :: "('o, string, 'w) index_queue"

definition objectAutoReindex ::
  "bool \<Rightarrow> bool \<Rightarrow> 'o \<Rightarrow> string list \<Rightarrow> ('o, string, 'w) index_queue \<Rightarrow> ('o, string, 'w) index_queue" where
  "objectAutoReindex subscribed can_join obj descriptions q =
     (if subscribed then queue_reindex can_join obj (Some (set descriptions)) q else q)"

definition model_setattr ::
  "('t, 'v) model_class \<Rightarrow> bool \<Rightarrow> bool \<Rightarrow> 'o \<Rightarrow> string \<Rightarrow> 'v pyval \<Rightarrow> ('o, 'v, 'w) session \<Rightarrow> ('o, 'v, 'w) session" where
  "model_setattr C subscribed can_join obj name value s =
     (let s1 = (if notifies C (se_objects s obj) name
                then s\<lparr>se_queue := objectAutoReindex subscribed can_join obj [name] (se_queue s)\<rparr> else s)
      in s1\<lparr>se_objects := (se_objects s1)(obj := set_dict name value (se_objects s1 obj))\<rparr>)"

text \<open>\<open>Model.__init__\<close> of a new object, which has no \<open>_p_uid\<close> and so notifies nobody.\<close>

definition default_value :: "('t, 'v) model_class \<Rightarrow> 't \<Rightarrow> string \<Rightarrow> 'v pyval res" where
  "default_value C now field =
     (case mc_attr C field of
        Some (A_Field f) \<Rightarrow>
          (case in_default f of
             None \<Rightarrow> Inr PyNone
           | Some (Plain v) \<Rightarrow> Inr (PyVal v)
           | Some (Callable g) \<Rightarrow> g now)
      | _ \<Rightarrow> Inl AttributeError)"

definition blank :: "'v object" where
  "blank = \<lparr>ob_dict = Map.empty, ob_uid = None\<rparr>"

definition new_model ::
  "('t, 'v) model_class \<Rightarrow> 't \<Rightarrow> (string \<times> 'v pyval) list \<Rightarrow> 'v object res" where
  "new_model C now kw =
     (if filter (\<lambda>k. k \<notin> fst ` set kw) (mc_required C) \<noteq> [] then Inl ModelException
      else bindr
        (foldr_res (\<lambda>field obj. bindr (default_value C now field) (\<lambda>v. Inr (set_dict field v obj)))
          (filter (\<lambda>k. k \<notin> fst ` set kw) (mc_default C)) blank)
        (\<lambda>obj. Inr (fold (\<lambda>(field, v). set_dict field v) kw obj)))"

text \<open>\<open>create_store\<close> and \<open>create_catalog\<close>: the indexes by name, with their class and discriminator.\<close>

definition create_store :: "('o \<Rightarrow> int option option) \<Rightarrow> 'o id_store" where
  "create_store uids = new_id_store uids"

definition create_index ::
  "('t, 'v) model_class \<Rightarrow> string \<Rightarrow> (string \<times> field_kind \<times> discriminator) res" where
  "create_index C name =
     (case mc_attr C name of
        Some (A_Field f) \<Rightarrow>
          bindr (init_discriminator (if in_virtual f \<noteq> None then Arg_Tuple [name] else Arg_String name))
            (\<lambda>d. Inr (name, in_kind f, d))
      | _ \<Rightarrow> Inl AttributeError)"

definition create_catalog ::
  "('t, 'v) model_class \<Rightarrow> (string \<times> field_kind \<times> discriminator) list res" where
  "create_catalog C =
     foldr_res (\<lambda>name c. bindr (create_index C name) (\<lambda>ix. Inr (c @ [ix]))) (mc_indexed C) []"

text \<open>
  How the indexes see an object of the class: by attribute lookup, which may find the
  class attribute, and by virtual fields.
\<close>

definition class_view :: "('t, 'v) model_class \<Rightarrow> ('v object, ('t, 'v) found) object_model" where
  "class_view C =
     \<lparr>om_getattr = (\<lambda>obj name. case get_attribute C obj name of Not_Found \<Rightarrow> Missing | x \<Rightarrow> Value x),
      om_virtuals = (\<lambda>obj name. map_option
         (\<lambda>f obj. bindr (f (ob_dict obj)) (\<lambda>v. Inr (Value (In_Object v)))) (map_of (mc_virtual C) name))\<rparr>"

section \<open>Lemmas\<close>

text \<open>The public fields of a class body.\<close>

definition field_at :: "(string \<times> ('t, 'v) class_attr) list \<Rightarrow> string \<Rightarrow> ('t, 'v) indexable option" where
  "field_at dct k = (case map_of dct k of
     Some (A_Field f) \<Rightarrow> if startswith k ''_'' then None else Some f | _ \<Rightarrow> None)"

lemma used_fields_keys: "fst ` set (used_fields dct) \<subseteq> fst ` set dct"
  by (induction dct rule: used_fields.induct) auto

lemma used_fields_iff:
  "distinct (map fst dct) \<Longrightarrow> (k, f) \<in> set (used_fields dct) \<longleftrightarrow> field_at dct k = Some f"
proof (induction dct rule: used_fields.induct)
  case (2 k' f' dct)
  have "k' \<notin> fst ` set (used_fields dct)" using 2 used_fields_keys [of dct] by auto
  then show ?case using 2 by (auto simp: field_at_def rev_image_eqI split: if_splits)
next
  case (3 k' dct)
  have "k' \<notin> fst ` set (used_fields dct)" using 3 used_fields_keys [of dct] by auto
  then show ?case using 3 by (auto simp: field_at_def rev_image_eqI)
qed (simp add: field_at_def)

lemma field_names_iff:
  "distinct (map fst dct) \<Longrightarrow>
     k \<in> set (field_names P (used_fields dct)) \<longleftrightarrow> (\<exists>f. field_at dct k = Some f \<and> P f)"
  by (auto simp: field_names_def used_fields_iff [symmetric] image_iff)

lemma used_names_iff:
  "distinct (map fst dct) \<Longrightarrow> k \<in> fst ` set (used_fields dct) \<longleftrightarrow> (\<exists>f. field_at dct k = Some f)"
  by (force simp: used_fields_iff [symmetric])

lemma virtual_fields_iff:
  "distinct (map fst dct) \<Longrightarrow>
     (k, g) \<in> set (virtual_fields (used_fields dct)) \<longleftrightarrow>
     (\<exists>f. field_at dct k = Some f \<and> in_virtual f = Some g)"
  by (force simp: virtual_fields_def used_fields_iff [symmetric])

lemma virtual_names_iff:
  "distinct (map fst dct) \<Longrightarrow>
     k \<in> fst ` set (virtual_fields (used_fields dct)) \<longleftrightarrow>
     (\<exists>f. field_at dct k = Some f \<and> in_virtual f \<noteq> None)"
  using virtual_fields_iff [of dct k] by (force simp: image_iff)

text \<open>The fields of a class, by kind.\<close>

lemma model_meta_sets:
  assumes "distinct (map fst dct)"
  shows "k \<in> set (mc_indexed (model_meta parent name own dct)) \<longleftrightarrow> (\<exists>f. field_at dct k = Some f \<and> in_indexed f)"
    and "k \<in> set (mc_required (model_meta parent name own dct)) \<longleftrightarrow>
      (\<exists>f. field_at dct k = Some f \<and> in_default f = None \<and> in_virtual f = None)"
    and "k \<in> set (mc_default (model_meta parent name own dct)) \<longleftrightarrow>
      (\<exists>f. field_at dct k = Some f \<and> in_default f \<noteq> None \<and> in_virtual f = None)"
    and "k \<in> fst ` set (mc_virtual (model_meta parent name own dct)) \<longleftrightarrow>
      (\<exists>f. field_at dct k = Some f \<and> in_virtual f \<noteq> None)"
  using assms
  by (simp_all add: model_meta_def Let_def field_names_iff used_names_iff virtual_names_iff) auto

lemma field_at_attr:
  "field_at dct k = Some f \<Longrightarrow> mc_attr (model_meta parent name own dct) k = Some (A_Field f)"
  by (auto simp: field_at_def model_meta_def Let_def split: option.splits class_attr.splits if_splits)

lemma ob_uid_set_dict [simp]: "ob_uid (set_dict k v obj) = ob_uid obj"
  and ob_dict_set_dict [simp]: "ob_dict (set_dict k v obj) = (ob_dict obj)(k \<mapsto> v)"
  by (simp_all add: set_dict_def)

lemma blank_simps: "ob_uid blank = None" "ob_dict blank k = None"
  by (simp_all add: blank_def)

lemma fold_set_dict:
  "distinct (map fst kw) \<Longrightarrow>
     ob_uid (fold (\<lambda>(k, v). set_dict k v) kw obj) = ob_uid obj \<and>
     ob_dict (fold (\<lambda>(k, v). set_dict k v) kw obj) = ob_dict obj ++ map_of kw"
proof (induction kw arbitrary: obj)
  case (Cons a kw)
  obtain k v where a: "a = (k, v)" by (cases a)
  have "map_of kw k = None" using Cons.prems by (simp add: a map_of_eq_None_iff)
  then have "ob_dict (set_dict k v obj) ++ map_of kw = ob_dict obj ++ map_of (a # kw)"
    by (auto simp: a fun_eq_iff map_add_def split: option.splits)
  moreover have "fold (\<lambda>(k, v). set_dict k v) (a # kw) obj = fold (\<lambda>(k, v). set_dict k v) kw (set_dict k v obj)"
    by (simp add: a)
  moreover have "distinct (map fst kw)" using Cons.prems by simp
  ultimately show ?case using Cons.IH [of "set_dict k v obj"] by (simp only: ob_uid_set_dict)
qed simp

lemma set_defaults:
  assumes "\<forall>k \<in> set ks. default_value C now k = Inr (val k)"
  shows "\<exists>obj'. foldr_res (\<lambda>k obj. bindr (default_value C now k) (\<lambda>v. Inr (set_dict k v obj))) ks obj = Inr obj'
    \<and> ob_uid obj' = ob_uid obj
    \<and> ob_dict obj' = (\<lambda>k. if k \<in> set ks then Some (val k) else ob_dict obj k)"
  using assms
proof (induction ks arbitrary: obj)
  case (Cons k ks)
  then show ?case using Cons.IH [of "set_dict k (val k) obj"] by (auto simp: fun_eq_iff)
qed (simp add: fun_eq_iff)

section \<open>Properties\<close>

text \<open>
  The metaclass sorts the public fields of a class body into required ones, ones with a
  default and virtual ones: every field is in exactly one group, and the indexed fields
  are the ones declared so. Fields are made by the constructor, which refuses a default
  with a virtual value.
\<close>

theorem model_fields_partition:
  assumes "distinct (map fst dct)"
    and "\<forall>(k, a) \<in> set dct. \<forall>f. a = A_Field f \<longrightarrow> (\<exists>kind d v i. make_field kind d v i = Inr f)"
  shows "let C = model_meta parent name own dct; U = {k. field_at dct k \<noteq> None} in
    set (mc_required C) \<union> set (mc_default C) \<union> fst ` set (mc_virtual C) = U \<and>
    set (mc_required C) \<inter> set (mc_default C) = {} \<and>
    set (mc_required C) \<inter> fst ` set (mc_virtual C) = {} \<and>
    set (mc_default C) \<inter> fst ` set (mc_virtual C) = {} \<and>
    set (mc_indexed C) = {k \<in> U. \<exists>f. field_at dct k = Some f \<and> in_indexed f} \<and>
    (\<forall>k \<in> fst ` set (mc_virtual C). \<exists>f. field_at dct k = Some f \<and> in_default f = None)"
proof -
  have excl: "in_default f = None \<or> in_virtual f = None" if "field_at dct k = Some f" for k f
  proof -
    from that have "(k, A_Field f) \<in> set dct"
      by (auto simp: field_at_def split: option.splits class_attr.splits if_splits dest: map_of_SomeD)
    then show ?thesis using assms(2) by (fastforce simp: make_field_def split: if_splits)
  qed
  show ?thesis
    unfolding Let_def set_eq_iff ball_simps Int_iff Un_iff mem_Collect_eq empty_iff
    by (auto simp: model_meta_sets [OF assms(1)]
        dest!: model_meta_sets(4) [OF assms(1), THEN iffD1, OF image_eqI, OF fst_conv [symmetric]])
      (use excl in force)+
qed

text \<open>
  Creating an object raises exactly when a required field is not given. Otherwise each
  given attribute has the given value, each field with a default that is not given its
  default, and nothing else is set; so every field of the class that is not virtual has a
  value, and the object is not stored yet.
\<close>

theorem new_model_complete:
  assumes "distinct (map fst dct)" "distinct (map fst kw)"
    and C: "C = model_meta parent name own dct"
    and defaults: "\<forall>k \<in> set (mc_default C) - fst ` set kw. default_value C now k = Inr (val k)"
  shows "if set (mc_required C) \<subseteq> fst ` set kw
    then \<exists>obj. new_model C now kw = Inr obj \<and> ob_uid obj = None \<and>
      ob_dict obj = (\<lambda>k. if k \<in> set (mc_default C) then Some (val k) else None) ++ map_of kw \<and>
      (\<forall>k f. field_at dct k = Some f \<and> in_virtual f = None \<longrightarrow> ob_dict obj k \<noteq> None)
    else new_model C now kw = Inl ModelException"
proof (cases "set (mc_required C) \<subseteq> fst ` set kw")
  case True
  let ?ks = "filter (\<lambda>k. k \<notin> fst ` set kw) (mc_default C)"
  have "\<forall>k \<in> set ?ks. default_value C now k = Inr (val k)" using defaults by auto
  from set_defaults [OF this, of blank, unfolded blank_simps] obtain obj where
    obj: "foldr_res (\<lambda>k obj. bindr (default_value C now k) (\<lambda>v. Inr (set_dict k v obj))) ?ks blank = Inr obj"
      "ob_uid obj = None" "ob_dict obj = (\<lambda>k. if k \<in> set ?ks then Some (val k) else None)"
    by (elim exE conjE) (rule that, assumption+)
  let ?d = "(\<lambda>k. if k \<in> set (mc_default C) then Some (val k) else None) ++ map_of kw"
  have d: "ob_dict obj ++ map_of kw = ?d"
  proof
    fix k
    show "(ob_dict obj ++ map_of kw) k = ?d k"
      by (cases "map_of kw k") (auto simp: obj(3) map_add_def map_of_eq_None_iff)
  qed
  have set: "?d k \<noteq> None" if "field_at dct k = Some f" "in_virtual f = None" for k f
  proof (cases "in_default f = None")
    case True': True
    then have "k \<in> fst ` set kw" using that True model_meta_sets(2) [OF assms(1)] C by blast
    then show ?thesis by (auto simp: map_add_def map_of_eq_None_iff split: option.splits)
  next
    case False
    then have "k \<in> set (mc_default C)" using that model_meta_sets(3) [OF assms(1)] C by blast
    then show ?thesis by (auto simp: map_add_def split: option.splits)
  qed
  let ?obj = "fold (\<lambda>(k, v). set_dict k v) kw obj"
  have "new_model C now kw = Inr ?obj"
    using True obj(1) by (auto simp: new_model_def filter_empty_conv)
  moreover have "ob_uid ?obj = None" using fold_set_dict [OF assms(2), of obj] obj(2) by simp
  moreover have dict: "ob_dict ?obj = ?d" using fold_set_dict [OF assms(2), of obj] d by simp
  moreover have "\<forall>k f. field_at dct k = Some f \<and> in_virtual f = None \<longrightarrow> ob_dict ?obj k \<noteq> None"
    unfolding dict by (intro allI impI, elim conjE) (rule set)
  ultimately show ?thesis unfolding if_P [OF True] by (intro exI conjI)
next
  case False
  then show ?thesis by (auto simp: new_model_def filter_empty_conv)
qed

text \<open>
  Setting an attribute of an object changes that attribute alone, and queues the
  reindexing of the object by that attribute exactly when the object is stored, the field
  is indexed, and the attribute has a value other than None (a method of the class by that
  name aside): an attribute that is None is not reindexed when it gets a value.
\<close>

theorem setattr_queues_reindex:
  "let s' = model_setattr C subscribed can_join obj name value s in
   se_objects s' = (se_objects s)(obj := set_dict name value (se_objects s obj)) \<and>
   (if ob_uid (se_objects s obj) \<noteq> None \<and> name \<in> set (mc_indexed C) \<and> subscribed
       \<and> (\<exists>v. ob_dict (se_objects s obj) name = Some (PyVal v)
           \<or> ob_dict (se_objects s obj) name = None \<and> mc_attr C name = Some A_Other)
    then se_queue s' = hook can_join ((se_queue s)\<lparr>iq_queue := iq_queue (se_queue s) @ [(REINDEX, obj, Some {name})]\<rparr>)
    else se_queue s' = se_queue s)"
proof -
  have "notifies C x name \<longleftrightarrow> ob_uid x \<noteq> None \<and> name \<in> set (mc_indexed C)
       \<and> (\<exists>v. ob_dict x name = Some (PyVal v) \<or> ob_dict x name = None \<and> mc_attr C name = Some A_Other)"
    for x :: "'b object"
    by (auto simp: notifies_def get_attribute_def not_PyNone
        split: option.splits found.splits class_attr.splits)
  then show ?thesis
    by (auto simp: model_setattr_def objectAutoReindex_def queue_reindex_def enqueue_def Let_def)
qed

lemma used_fields_distinct: "distinct (map fst dct) \<Longrightarrow> distinct (map fst (used_fields dct))"
proof (induction dct rule: used_fields.induct)
  case (2 k f dct)
  then show ?case using used_fields_keys [of dct] by auto
qed auto

lemma map_of_virtual_fields:
  assumes "distinct (map fst dct)" "field_at dct k = Some f"
  shows "map_of (virtual_fields (used_fields dct)) k = in_virtual f"
proof -
  have "map fst (virtual_fields fs) = map fst (filter (\<lambda>(k, f). in_virtual f \<noteq> None) fs)" for fs
    by (auto simp: virtual_fields_def)
  then have "distinct (map fst (virtual_fields (used_fields dct)))"
    using distinct_map_filter [OF used_fields_distinct [OF assms(1)]] by metis
  then show ?thesis
    using virtual_fields_iff [OF assms(1), of k] virtual_names_iff [OF assms(1), of k] assms(2)
    by (cases "in_virtual f") (auto simp: map_of_eq_None_iff)
qed

lemma create_index_field:
  assumes "field_at dct k = Some f"
  shows "create_index (model_meta parent name own dct) k =
    Inr (k, in_kind f, if in_virtual f \<noteq> None then Virtual k else Attribute k)"
  using field_at_attr [OF assms, of parent name own] by (simp add: create_index_def)

lemma foldr_res_collect:
  "\<forall>x \<in> set xs. g x = Inr (h x) \<Longrightarrow>
     foldr_res (\<lambda>x c. bindr (g x) (\<lambda>y. Inr (c @ [y]))) xs c = Inr (c @ map h xs)"
  by (induction xs arbitrary: c) simp_all

text \<open>
  The catalog of a class has exactly one index for each indexed field, of the class the
  field asks for, and each index sees of an object what it should: the attribute, or what a
  virtual field computes, and nothing when that raises. An object without the attribute
  shows the field declaration of its class instead.
\<close>

theorem catalog_indexes_fields:
  assumes "distinct (map fst dct)" and C: "C = model_meta parent name own dct"
  shows "\<exists>ixs. create_catalog C = Inr ixs \<and> map fst ixs = mc_indexed C \<and> distinct (map fst ixs) \<and>
    (\<forall>(k, kind, d) \<in> set ixs. \<exists>f. field_at dct k = Some f \<and> in_indexed f \<and> kind = in_kind f \<and>
      (\<forall>obj. discriminate (class_view C) d obj =
        (case in_virtual f of
           Some g \<Rightarrow> (case g (ob_dict obj) of Inl _ \<Rightarrow> Missing | Inr v \<Rightarrow> Value (In_Object v))
         | None \<Rightarrow> (case ob_dict obj k of
             Some v \<Rightarrow> Value (In_Object v) | None \<Rightarrow> Value (In_Class (A_Field f))))))"
proof -
  let ?f = "\<lambda>k. the (field_at dct k)"
  let ?ix = "\<lambda>k. (k, in_kind (?f k), if in_virtual (?f k) \<noteq> None then Virtual k else Attribute k)"
  have field: "field_at dct k = Some (?f k)" "in_indexed (?f k)" if "k \<in> set (mc_indexed C)" for k
    using that model_meta_sets(1) [OF assms(1), of k] C by auto
  have "\<forall>k \<in> set (mc_indexed C). create_index C k = Inr (?ix k)"
    using create_index_field [of dct _ _ parent name own, folded C] field by blast
  from foldr_res_collect [of _ "create_index C" ?ix, OF this, of "[]"]
  have "create_catalog C = Inr (map ?ix (mc_indexed C))" by (simp add: create_catalog_def)
  moreover have "distinct (mc_indexed C)"
    using used_fields_distinct [OF assms(1)]
    by (simp add: C model_meta_def Let_def field_names_def distinct_map_filter)
  moreover have "discriminate (class_view C) (if in_virtual f \<noteq> None then Virtual k else Attribute k) obj =
      (case in_virtual f of
         Some g \<Rightarrow> (case g (ob_dict obj) of Inl _ \<Rightarrow> Missing | Inr v \<Rightarrow> Value (In_Object v))
       | None \<Rightarrow> (case ob_dict obj k of
           Some v \<Rightarrow> Value (In_Object v) | None \<Rightarrow> Value (In_Class (A_Field f))))"
    if "field_at dct k = Some f" for k f obj
  proof -
    have "map_of (mc_virtual C) k = in_virtual f"
      using map_of_virtual_fields [OF assms(1) that] by (simp add: C model_meta_def Let_def)
    then show ?thesis
      using field_at_attr [OF that, of parent name own, folded C]
      by (auto simp: discriminate_def class_view_def get_attribute_def bindr_def
          split: option.splits sum.splits)
  qed
  ultimately show ?thesis
    using field by (intro exI [of _ "map ?ix (mc_indexed C)"]) (fastforce simp: comp_def)
qed

text \<open>
  A subclass of a model that does not say another \<open>__modelname__\<close> has the name of its
  parent, under which the database keeps objects and catalog, and the fields it inherits are
  neither required nor indexed, although its objects find them in the class.
\<close>

theorem subclass_shares_name:
  assumes "mc_name p \<noteq> []" "k \<notin> fst ` set dct" "distinct (map fst dct)"
  shows "mc_name (model_meta (Some p) name None dct) = mc_name p
    \<and> k \<notin> set (mc_indexed (model_meta (Some p) name None dct))
    \<and> k \<notin> set (mc_required (model_meta (Some p) name None dct))
    \<and> mc_attr (model_meta (Some p) name None dct) k = mc_attr p k"
proof -
  have "map_of dct k = None" using assms(2) by (simp add: map_of_eq_None_iff)
  moreover from this have "field_at dct k = None" by (simp add: field_at_def)
  ultimately show ?thesis
    using assms(1) model_meta_sets [OF assms(3), of k]
    by (simp add: model_meta_def Let_def)
qed

section \<open>Witnesses\<close>

text \<open>A model of pages: a title, a number with a default, and its virtual double.\<close>

definition page_fields :: "(string \<times> (nat, int) class_attr) list" where
  "page_fields =
     [(''title'', A_Field \<lparr>in_kind = Field_Kind, in_default = None, in_virtual = None, in_indexed = True\<rparr>),
      (''num'', A_Field \<lparr>in_kind = Field_Kind, in_default = Some (Plain 7), in_virtual = None, in_indexed = True\<rparr>),
      (''twice'', A_Field \<lparr>in_kind = Field_Kind, in_default = None,
         in_virtual = Some (\<lambda>d. case d ''num'' of Some (PyVal n) \<Rightarrow> Inr (PyVal (2 * n)) | _ \<Rightarrow> Inl AttributeError),
         in_indexed = False\<rparr>),
      (''show'', A_Other)]"

definition Page :: "(nat, int) model_class" where
  "Page = model_meta None ''Page'' None page_fields"

lemma page_fields_distinct: "distinct (map fst page_fields)"
  by (simp add: page_fields_def)

lemma lower_page: "lower ''Page'' = ''page''"
  by code_simp

lemma Page_used:
  "field_names (\<lambda>f. in_default f = None) (used_fields page_fields) = [''title'', ''twice'']"
  "field_names in_indexed (used_fields page_fields) = [''title'', ''num'']"
  "map fst (virtual_fields (used_fields page_fields)) = [''twice'']"
  "map fst (used_fields page_fields) = [''title'', ''num'', ''twice'']"
  by (simp_all add: page_fields_def field_names_def virtual_fields_def)

lemma Page_lists: "mc_required Page = [''title'']" "mc_default Page = [''num'']"
  "mc_indexed Page = [''title'', ''num'']" "mc_name Page = ''page''"
  using arg_cong [OF Page_used(3), of set]
  by (simp_all add: Page_def model_meta_def Let_def Page_used(1,2,4) lower_page)

lemma Page_default: "default_value Page now ''num'' = Inr (PyVal 7)"
  using field_at_attr [of page_fields "''num''"]
  by (simp add: default_value_def Page_def field_at_def page_fields_def)

lemma model_fields_partition_witness:
  "set (mc_required Page) \<union> set (mc_default Page) \<union> fst ` set (mc_virtual Page) = {k. field_at page_fields k \<noteq> None}"
proof -
  have "\<forall>(k, a) \<in> set page_fields. \<forall>f. a = A_Field f \<longrightarrow> (\<exists>kind d v i. make_field kind d v i = Inr f)"
    by (auto simp: page_fields_def make_field_def)
  from model_fields_partition [OF page_fields_distinct this, of None "''Page''" None]
  show ?thesis unfolding Page_def Let_def by (elim conjE)
qed

lemma new_model_complete_witness:
  "\<exists>obj. new_model Page 0 [(''title'', PyVal 1)] = Inr obj \<and> ob_uid obj = None \<and>
     ob_dict obj = [''num'' \<mapsto> PyVal 7, ''title'' \<mapsto> PyVal 1]"
proof -
  have "\<forall>k \<in> set (mc_default Page) - fst ` set [(''title'', PyVal 1)]. default_value Page 0 k = Inr (PyVal 7)"
    by (simp add: Page_lists Page_default)
  from new_model_complete [OF page_fields_distinct _ Page_def this]
  have "\<exists>obj. new_model Page 0 [(''title'', PyVal 1)] = Inr obj \<and> ob_uid obj = None \<and>
      ob_dict obj = (\<lambda>k. if k \<in> set (mc_default Page) then Some (PyVal 7) else None) ++ map_of [(''title'', PyVal 1)]"
    by (simp add: Page_lists) blast
  moreover have "(\<lambda>k. if k \<in> set (mc_default Page) then Some (PyVal 7) else None) ++ map_of [(''title'', PyVal 1)]
      = [''num'' \<mapsto> PyVal (7 :: int), ''title'' \<mapsto> PyVal 1]"
    by (auto simp: Page_lists fun_eq_iff)
  ultimately show ?thesis by metis
qed

lemma catalog_indexes_fields_witness:
  "\<exists>ixs. create_catalog Page = Inr ixs \<and> map fst ixs = [''title'', ''num'']"
  using catalog_indexes_fields [OF page_fields_distinct Page_def] by (auto simp: Page_lists)

lemma subclass_shares_name_witness:
  "mc_name (model_meta (Some Page) ''Sub'' None []) = ''page''
    \<and> ''title'' \<notin> set (mc_indexed (model_meta (Some Page) ''Sub'' None []))"
  using subclass_shares_name [of Page "''title''" "[]" "''Sub''"] by (simp add: Page_lists)

end
