(* ===== verification/Catalog_Result.thy ===== *)
theory Catalog_Result
  imports Prelude
begin

text \<open>
  The order and the size of a query's result (zerodb/catalog/__init__.py), which the queries of theory
  Db return.
\<close>

section \<open>Order and size\<close>

text \<open>\<open>ResultSetSize(num, total)\<close>.\<close>

type_synonym result_size = "nat \<times> nat option"

definition truthy :: "nat option \<Rightarrow> bool" where
  "truthy n \<longleftrightarrow> n \<noteq> None \<and> n \<noteq> Some 0"

text \<open>
  \<open>Catalog.sort_result\<close>; \<open>index_sort\<close> is \<open>sort\<close> of the index with that name, which is a KeyError
  when there is none.
\<close>

definition sort_result ::
  "(string \<Rightarrow> (int set \<Rightarrow> bool \<Rightarrow> nat option \<Rightarrow> 'k \<Rightarrow> int list res) option) \<Rightarrow> int list \<Rightarrow> string option \<Rightarrow> nat option \<Rightarrow> 'k \<Rightarrow> bool
     \<Rightarrow> (result_size option \<times> int list) res" where
  "sort_result index_sort result sort_index limit sort_type reverse =
     (if sort_index \<noteq> None \<and> sort_index \<noteq> Some [] then
        (let docs = set result; n = length (remdups result) in
         case index_sort (the sort_index) of
           None \<Rightarrow> Inl KeyError
         | Some srt \<Rightarrow> bindr (srt docs reverse limit sort_type) (\<lambda>r.
             Inr (Some (if truthy limit then min n (the limit) else n, Some n), r)))
      else if truthy limit then Inr (Some (the limit, None), result)
      else Inr (None, result))"

text \<open>
  A sorted result has the size that is reported, if the index sorts each document once and
  keeps to the limit.
\<close>

lemma sort_result_size:
  assumes "\<And>D rv l k ys. srt D rv l k = Inr ys \<Longrightarrow> length ys = (if truthy l then min (card D) (the l) else card D)"
    and "sort_result (\<lambda>n. if n = name then Some srt else None) result (Some name) limit k rv = Inr (sz, ys)" "name \<noteq> []"
  shows "sz = Some (length ys, Some (card (set result)))"
  using assms(2,3) assms(1) [of "set result" rv limit k ys]
  by (auto simp: sort_result_def Let_def bindr_eq_Inr length_remdups_card_conv split: if_splits)

end
