(* ===== verification/Db.thy ===== *)
theory Db
  imports Models Catalog_Result
begin

text \<open>
  The class \<open>DbModel\<close> of zerodb/db.py: the objects of a model in their store and its
  catalog, kept together by adding, reindexing and removing objects; its queries; and the
  processor that reindexes changed objects when a transaction is committed. The catalog
  package is not part of the repository: its operations are a record of functions, and
  what the code relies on in them is the locale \<open>object_catalog\<close>.
\<close>

section \<open>State\<close>

text \<open>
  The catalog's operations: \<open>in\<close>, \<open>index_doc\<close>, \<open>reindex_doc\<close>, \<open>unindex_doc\<close> of the catalog,
  and \<open>reindex_doc\<close> of one of its indexes.
\<close>

record ('a, 'c) catalog_ops =
  co_has :: "'c \<Rightarrow> string \<Rightarrow> bool"
  co_index_doc :: "int \<Rightarrow> 'a \<Rightarrow> ('c, unit) meth"
  co_reindex_doc :: "int \<Rightarrow> 'a \<Rightarrow> ('c, unit) meth"
  co_unindex_doc :: "int \<Rightarrow> ('c, unit) meth"
  co_reindex_attr :: "string \<Rightarrow> int \<Rightarrow> 'a \<Rightarrow> ('c, unit) meth"

text \<open>
  A model in a database: its store, with the objects' \<open>_p_uid\<close>, its catalog, the contents of
  the objects, and the random numbers to come.
\<close>

record ('o, 'a, 'c) dbm =
  dm_store :: "'o id_store"
  dm_catalog :: 'c
  dm_state :: "'o \<Rightarrow> 'a"
  dm_draws :: "int list"

text \<open>Which objects are of the model's class, and which of it or a subclass.\<close>

record 'o model_types =
  mt_exact :: "'o \<Rightarrow> bool"
  mt_instance :: "'o \<Rightarrow> bool"

definition set_uid :: "'o \<Rightarrow> int \<Rightarrow> ('o, 'a, 'c) dbm \<Rightarrow> ('o, 'a, 'c) dbm" where
  "set_uid obj uid s =
     s\<lparr>dm_store := (dm_store s)\<lparr>is_uids := (is_uids (dm_store s))(obj \<mapsto> Some uid)\<rparr>\<rparr>"

text \<open>Methods of the catalog and of the store, on the model.\<close>

definition on_catalog :: "('c, 'b) meth \<Rightarrow> (('o, 'a, 'c) dbm, 'b) meth" where
  "on_catalog m s = (case m (dm_catalog s) of (r, c) \<Rightarrow> (r, s\<lparr>dm_catalog := c\<rparr>))"

definition on_store :: "('o id_store, 'b) meth \<Rightarrow> (('o, 'a, 'c) dbm, 'b) meth" where
  "on_store m s = (case m (dm_store s) of (r, t) \<Rightarrow> (r, s\<lparr>dm_store := t\<rparr>))"

section \<open>Operations\<close>

text \<open>
  \<open>add\<close>; one round of the store's loop is enough (theory Id_Store). \<open>None\<close>: the random
  numbers are all taken.
\<close>

definition db_add ::
  "'o model_types \<Rightarrow> ('a, 'c) catalog_ops \<Rightarrow> 'o \<Rightarrow> ('o, 'a, 'c) dbm \<Rightarrow> (int res \<times> ('o, 'a, 'c) dbm) option" where
  "db_add T ops obj s =
     (if \<not> mt_exact T obj then Some (Inl AssertionError, s)
      else (case store_add 1 obj (dm_draws s) (dm_store s) of
              None \<Rightarrow> None
            | Some (uid, draws, st) \<Rightarrow>
                Some (m_bind (on_catalog (co_index_doc ops uid (dm_state s obj))) (\<lambda>_.
                      m_bind (m_modify (set_uid obj uid)) (\<lambda>_. m_return uid))
                    (s\<lparr>dm_store := st, dm_draws := draws\<rparr>))))"

text \<open>The argument \<open>attributes\<close> of \<open>reindex_one\<close>: None, a tuple or list, or something else.\<close>

datatype attrs_arg = All_Attrs | Attrs "string list" | Bad_Attrs

definition reindex_attr ::
  "('a, 'c) catalog_ops \<Rightarrow> int \<Rightarrow> 'a \<Rightarrow> string \<Rightarrow> ('c, unit) meth" where
  "reindex_attr ops uid a attr c = (if co_has ops c attr then co_reindex_attr ops attr uid a c else (Inr (), c))"

definition reindex_attrs ::
  "('a, 'c) catalog_ops \<Rightarrow> int \<Rightarrow> 'a \<Rightarrow> attrs_arg \<Rightarrow> ('c, unit) meth" where
  "reindex_attrs ops uid a attributes =
     (case attributes of
        All_Attrs \<Rightarrow> co_reindex_doc ops uid a
      | Attrs names \<Rightarrow> m_each (reindex_attr ops uid a) names
      | Bad_Attrs \<Rightarrow> m_raise TypeError)"

text \<open>\<open>reindex_one\<close>; a \<open>_p_uid\<close> of None is no document id.\<close>

definition reindex_one ::
  "'o model_types \<Rightarrow> ('a, 'c) catalog_ops \<Rightarrow> 'o id_or_obj \<Rightarrow> attrs_arg \<Rightarrow> (('o, 'a, 'c) dbm, unit) meth" where
  "reindex_one T ops arg attributes s =
     (case arg of
        By_Id uid \<Rightarrow>
          (case store_getitem uid (dm_store s) of
             Inl e \<Rightarrow> (Inl e, s)
           | Inr obj \<Rightarrow> on_catalog (reindex_attrs ops uid (dm_state s obj) attributes) s)
      | By_Obj obj \<Rightarrow>
          if \<not> mt_instance T obj then (Inl TypeError, s)
          else (case is_uids (dm_store s) obj of
                  None \<Rightarrow> (Inl ModelException, s)
                | Some None \<Rightarrow> (Inl TypeError, s)
                | Some (Some uid) \<Rightarrow> on_catalog (reindex_attrs ops uid (dm_state s obj) attributes) s))"

text \<open>\<open>reindex\<close> of a list or a single object or id.\<close>

definition db_reindex_all ::
  "'o model_types \<Rightarrow> ('a, 'c) catalog_ops \<Rightarrow> 'o id_or_obj list \<Rightarrow> (('o, 'a, 'c) dbm, unit) meth" where
  "db_reindex_all T ops args = m_each (\<lambda>arg. reindex_one T ops arg All_Attrs) args"

text \<open>\<open>remove\<close> of an id, an object, or of everything in something iterable.\<close>

datatype 'o remove_arg = Rm_Id int | Rm_Obj 'o | Rm_Many "'o remove_arg list"

definition remove_uid :: "('a, 'c) catalog_ops \<Rightarrow> int \<Rightarrow> (('o, 'a, 'c) dbm, nat) meth" where
  "remove_uid ops uid =
     m_bind (on_catalog (co_unindex_doc ops uid)) (\<lambda>_.
     m_bind (on_store (store_remove (By_Id uid))) (\<lambda>_. m_return 1))"

fun db_remove ::
  "'o model_types \<Rightarrow> ('a, 'c) catalog_ops \<Rightarrow> 'o remove_arg \<Rightarrow> (('o, 'a, 'c) dbm, nat) meth"
  and db_remove_all ::
  "'o model_types \<Rightarrow> ('a, 'c) catalog_ops \<Rightarrow> 'o remove_arg list \<Rightarrow> (('o, 'a, 'c) dbm, nat) meth" where
  "db_remove T ops (Rm_Id uid) s = remove_uid ops uid s"
| "db_remove T ops (Rm_Obj obj) s =
     (if \<not> mt_exact T obj then (Inl AssertionError, s)
      else (case is_uids (dm_store s) obj of
              None \<Rightarrow> (Inl AttributeError, s)
            | Some None \<Rightarrow> (Inl TypeError, s)
            | Some (Some uid) \<Rightarrow> remove_uid ops uid s))"
| "db_remove T ops (Rm_Many args) s = db_remove_all T ops args s"
| "db_remove_all T ops [] s = (Inr 0, s)"
| "db_remove_all T ops (a # args) s =
     m_bind (db_remove T ops a) (\<lambda>_. m_bind (db_remove_all T ops args) (\<lambda>n. m_return (n + 1))) s"

text \<open>\<open>__getitem__\<close> of an id and of a list of ids: an object without \<open>_p_uid\<close> is told its id.\<close>

definition keep_uid :: "'o \<Rightarrow> int \<Rightarrow> ('o, 'a, 'c) dbm \<Rightarrow> ('o, 'a, 'c) dbm" where
  "keep_uid obj uid s = (if is_uids (dm_store s) obj = None then set_uid obj uid s else s)"

definition db_getitem :: "int \<Rightarrow> (('o, 'a, 'c) dbm, 'o) meth" where
  "db_getitem uid s =
     (case store_getitem uid (dm_store s) of Inl e \<Rightarrow> (Inl e, s) | Inr obj \<Rightarrow> (Inr obj, keep_uid obj uid s))"

fun load_all :: "'o id_store \<Rightarrow> int list \<Rightarrow> 'o list res" where
  "load_all st [] = Inr []"
| "load_all st (uid # uids) =
     bindr (store_getitem uid st) (\<lambda>obj. bindr (load_all st uids) (\<lambda>objs. Inr (obj # objs)))"

definition db_getitems :: "int list \<Rightarrow> (('o, 'a, 'c) dbm, 'o list) meth" where
  "db_getitems uids s =
     (case load_all (dm_store s) uids of
        Inl e \<Rightarrow> (Inl e, s)
      | Inr objs \<Rightarrow> (Inr objs, fold (\<lambda>(obj, uid). keep_uid obj uid) (zip objs uids) s))"

section \<open>Queries\<close>

text \<open>
  \<open>query\<close>: the options for the catalog are taken out of the keywords, the others become
  equality conditions next to the query object (\<open>optimize\<close>, \<open>&\<close>, \<open>And\<close> and \<open>Eq\<close> are the catalog package's, and
  so is the catalog's \<open>query\<close>, a size and a sequence of ids). The objects on the page from \<open>skip\<close> to \<open>skip + limit\<close> are
  looked up and each is told its id; without a limit the result is a lazy list, given here by its size and ids.
  \<open>skip\<close> and \<open>limit\<close> are not negative; fetching the objects in one batch changes nothing in the result.
\<close>

definition option_names :: "string list" where
  "option_names = [''sort_index'', ''sort_type'', ''reverse'', ''names'', ''limit'']"

text \<open>Values of keyword arguments.\<close>

datatype 'x kw_arg = Kw_Str string | Kw_Num nat | Kw_Bool bool | Kw_Other 'x

datatype 'o query_result = Objects "'o list" | Lazy_Ids "result_size option" "int list"

record ('q, 'x) query_engine =
  qe_optimize :: "'q \<Rightarrow> 'q"
  qe_both :: "'q \<Rightarrow> 'q \<Rightarrow> 'q"
  qe_all :: "'q list \<Rightarrow> 'q"
  qe_eq :: "string \<Rightarrow> 'x kw_arg \<Rightarrow> 'q"
  qe_run :: "'q \<Rightarrow> (string \<times> 'x kw_arg) list \<Rightarrow> (result_size option \<times> int list) res"

definition full_query :: "('q, 'x) query_engine \<Rightarrow> 'q option \<Rightarrow> (string \<times> 'x kw_arg) list \<Rightarrow> 'q" where
  "full_query E queryobj kw =
     (let eq_args = map (\<lambda>(k, v). qe_eq E k v) (filter (\<lambda>(k, _). k \<notin> set option_names) kw)
      in case queryobj of
           Some q \<Rightarrow> qe_optimize E (qe_both E (qe_optimize E q) (qe_all E eq_args))
         | None \<Rightarrow> qe_all E eq_args)"

definition query_options :: "nat option \<Rightarrow> (string \<times> 'x kw_arg) list \<Rightarrow> (string \<times> 'x kw_arg) list" where
  "query_options limit kw =
     (case limit of None \<Rightarrow> [] | Some n \<Rightarrow> [(''limit'', Kw_Num n)]) @ filter (\<lambda>(k, _). k \<in> set option_names) kw"

definition db_query ::
  "('q, 'x) query_engine \<Rightarrow> 'q option \<Rightarrow> nat option \<Rightarrow> nat option \<Rightarrow> (string \<times> 'x kw_arg) list
     \<Rightarrow> (('o, 'a, 'c) dbm, 'o query_result) meth" where
  "db_query E queryobj skip limit kw s =
     (let skip = (case skip of None \<Rightarrow> 0 | Some n \<Rightarrow> n);
          limit = (case limit of Some 0 \<Rightarrow> None | l \<Rightarrow> l)
      in case qe_run E (full_query E queryobj kw) (query_options (map_option (\<lambda>l. skip + l) limit) kw) of
           Inl e \<Rightarrow> (Inl e, s)
         | Inr (sz, ids) \<Rightarrow>
             (case limit of
                None \<Rightarrow> (Inr (Lazy_Ids sz ids), s)
              | Some l \<Rightarrow>
                  (let qids = drop skip (take (skip + l) ids) in
                   case load_all (dm_store s) qids of
                     Inl e \<Rightarrow> (Inl e, s)
                   | Inr objs \<Rightarrow> (Inr (Objects objs), fold (\<lambda>(obj, uid). set_uid obj uid) (zip objs qids) s))))"

text \<open>
  What the code relies on: the catalog's \<open>query\<close> finds the documents, \<open>ids\<close>, and leaves their order and number
  to \<open>sort_result\<close> (theory Catalog_Result); an index that sorts for a limit gives the first documents
  of the whole order.
\<close>

definition sorts_itself ::
  "('q, 'x) query_engine \<Rightarrow> ('q \<Rightarrow> 'x kw_arg option \<Rightarrow> int list res)
     \<Rightarrow> (string \<Rightarrow> (int set \<Rightarrow> bool \<Rightarrow> nat option \<Rightarrow> 'x kw_arg option \<Rightarrow> int list res) option) \<Rightarrow> bool" where
  "sorts_itself E finds index_sort \<longleftrightarrow> (\<forall>Q kw. qe_run E Q kw = bindr (finds Q (map_of kw ''names'')) (\<lambda>ids.
     sort_result index_sort ids
       (case map_of kw ''sort_index'' of Some (Kw_Str n) \<Rightarrow> Some n | _ \<Rightarrow> None)
       (case map_of kw ''limit'' of Some (Kw_Num n) \<Rightarrow> Some n | _ \<Rightarrow> None)
       (map_of kw ''sort_type'')
       (case map_of kw ''reverse'' of Some (Kw_Bool b) \<Rightarrow> b | _ \<Rightarrow> False)))"

definition sorts_first ::
  "(string \<Rightarrow> (int set \<Rightarrow> bool \<Rightarrow> nat option \<Rightarrow> 'k \<Rightarrow> int list res) option) \<Rightarrow> bool" where
  "sorts_first index_sort \<longleftrightarrow> (\<forall>name srt docs reverse n k. index_sort name = Some srt \<longrightarrow> n > 0 \<longrightarrow>
     srt docs reverse (Some n) k = bindr (srt docs reverse None k) (\<lambda>ys. Inr (take n ys)))"

section \<open>Reindexing changed objects\<close>

text \<open>
  \<open>AutoReindexQueueProcessor\<close> in the indexing queue, with the state of the model as its
  world. \<open>listing\<close> is the order of the tuple that \<open>optimize\<close> makes of a set of attributes.
\<close>

definition auto_reindex_processor ::
  "'o model_types \<Rightarrow> ('a, 'c) catalog_ops \<Rightarrow> (string set \<Rightarrow> string list) \<Rightarrow> bool
     \<Rightarrow> ('o, string, ('o, 'a, 'c) dbm) processor" where
  "auto_reindex_processor T ops listing enabled =
     \<lparr>pr_begin = m_return (), pr_index = (\<lambda>_ _. m_return ()),
      pr_reindex = (\<lambda>obj attributes.
        if enabled then reindex_one T ops (By_Obj obj)
          (case attributes of None \<Rightarrow> All_Attrs | Some A \<Rightarrow> Attrs (listing A))
        else m_return ()),
      pr_unindex = (\<lambda>_. m_return ()), pr_commit = m_return (), pr_abort = m_return ()\<rparr>"

text \<open>Setting an attribute of an object of the model, with the queue of the session.\<close>

definition as_object :: "('o, 'v obj_dict, 'c) dbm \<Rightarrow> 'o \<Rightarrow> 'v object" where
  "as_object s obj =
     \<lparr>ob_dict = dm_state s obj, ob_uid = is_uids (dm_store s) obj\<rparr>"

definition db_setattr ::
  "('t, 'v) model_class \<Rightarrow> bool \<Rightarrow> 'o \<Rightarrow> string \<Rightarrow> 'v pyval
     \<Rightarrow> ('o, string, ('o, 'v obj_dict, 'c) dbm) index_queue \<Rightarrow> ('o, string, ('o, 'v obj_dict, 'c) dbm) index_queue" where
  "db_setattr C can_join obj name value q =
     (let s = model_setattr C True can_join obj name value \<lparr>se_objects = as_object (iq_world q), se_queue = q\<rparr>
      in (se_queue s)\<lparr>iq_world := (iq_world q)\<lparr>dm_state := ob_dict \<circ> se_objects s\<rparr>\<rparr>)"

section \<open>The catalog as the code relies on it\<close>

text \<open>
  \<open>view c n d\<close> is the value the index \<open>n\<close> of the catalog has for document \<open>d\<close>, \<open>val n a\<close> the
  value it finds in an object with contents \<open>a\<close> (None if it finds none), and \<open>takes a\<close> says that
  the indexes accept the contents.
\<close>

locale object_catalog =
  fixes ops :: "('a, 'c) catalog_ops"
    and I :: "'c \<Rightarrow> bool"
    and takes :: "'a \<Rightarrow> bool"
    and view :: "'c \<Rightarrow> string \<Rightarrow> int \<Rightarrow> 'v option"
    and val :: "string \<Rightarrow> 'a \<Rightarrow> 'v option"
    and flds :: "string set"
  assumes has: "I c \<Longrightarrow> co_has ops c n \<longleftrightarrow> n \<in> flds"
    and index_doc: "I c \<Longrightarrow> takes a \<Longrightarrow> \<exists>c'. co_index_doc ops d a c = (Inr (), c') \<and> I c' \<and>
      (\<forall>n \<in> flds. view c' n = (view c n)(d := val n a))"
    and reindex_doc: "I c \<Longrightarrow> takes a \<Longrightarrow> \<exists>c'. co_reindex_doc ops d a c = (Inr (), c') \<and> I c' \<and>
      (\<forall>n \<in> flds. view c' n = (view c n)(d := val n a))"
    and unindex_doc: "I c \<Longrightarrow> \<exists>c'. co_unindex_doc ops d c = (Inr (), c') \<and> I c' \<and>
      (\<forall>n \<in> flds. view c' n = (view c n)(d := None))"
    and reindex_attr: "I c \<Longrightarrow> takes a \<Longrightarrow> n \<in> flds \<Longrightarrow>
      \<exists>c'. co_reindex_attr ops n d a c = (Inr (), c') \<and> I c' \<and>
        (\<forall>m \<in> flds. view c' m = (if m = n then (view c m)(d := val m a) else view c m))"
begin

text \<open>Reindexing by some attributes updates exactly the indexes among them.\<close>

lemma reindex_names:
  "I c \<Longrightarrow> takes a \<Longrightarrow> \<exists>c'. m_each (Db.reindex_attr ops d a) names c = (Inr (), c') \<and> I c' \<and>
     (\<forall>m \<in> flds. view c' m = (if m \<in> set names then (view c m)(d := val m a) else view c m))"
proof (induction names arbitrary: c)
  case Nil
  then show ?case by (simp add: m_return_def)
next
  case (Cons n names)
  show ?case
  proof (cases "n \<in> flds")
    case True
    obtain c1 where c1: "co_reindex_attr ops n d a c = (Inr (), c1)" "I c1"
      "\<forall>m \<in> flds. view c1 m = (if m = n then (view c m)(d := val m a) else view c m)"
      using reindex_attr [OF Cons.prems True] by blast
    have first: "Db.reindex_attr ops d a n c = (Inr (), c1)"
      using True c1(1) has [OF Cons.prems(1)] by (simp add: Db.reindex_attr_def)
    obtain c2 where "m_each (Db.reindex_attr ops d a) names c1 = (Inr (), c2)" "I c2"
      "\<forall>m \<in> flds. view c2 m = (if m \<in> set names then (view c1 m)(d := val m a) else view c1 m)"
      using Cons.IH [OF c1(2) Cons.prems(2)] by blast
    then show ?thesis
      using c1 first by (intro exI [of _ c2]) (auto simp: m_bind_def)
  next
    case False
    then have "Db.reindex_attr ops d a n c = (Inr (), c)"
      using has [OF Cons.prems(1)] by (simp add: Db.reindex_attr_def)
    then show ?thesis using Cons.IH [OF Cons.prems] False by (auto simp: m_bind_def)
  qed
qed

lemma reindex_ok:
  assumes "I c" "takes a" "attributes \<noteq> Bad_Attrs"
  shows "\<exists>c'. reindex_attrs ops d a attributes c = (Inr (), c') \<and> I c' \<and>
    (\<forall>m \<in> flds. view c' m =
      (if attributes = All_Attrs \<or> (\<exists>ns. attributes = Attrs ns \<and> m \<in> set ns) then (view c m)(d := val m a) else view c m))"
proof (cases attributes)
  case All_Attrs
  then show ?thesis using reindex_doc [OF assms(1,2), of d] by (simp add: reindex_attrs_def)
next
  case (Attrs names)
  then show ?thesis using reindex_names [OF assms(1,2), of d names] by (simp add: reindex_attrs_def)
qed (use assms(3) in simp)

end

section \<open>Store and catalog together\<close>

definition stored :: "('o, 'a, 'c) dbm \<Rightarrow> int \<Rightarrow> 'o option" where
  "stored s = is_tree (dm_store s)"

text \<open>The stored objects know their ids.\<close>

definition linked :: "('o, 'a, 'c) dbm \<Rightarrow> bool" where
  "linked s \<longleftrightarrow> store_inv (dm_store s) \<and> draws_ok (dm_draws s) \<and>
     (\<forall>d obj. stored s d = Some obj \<longrightarrow> is_uids (dm_store s) obj = Some (Some d))"

text \<open>Every index has exactly the stored objects, with their values.\<close>

definition mirrors ::
  "('c \<Rightarrow> string \<Rightarrow> int \<Rightarrow> 'v option) \<Rightarrow> (string \<Rightarrow> 'a \<Rightarrow> 'v option) \<Rightarrow> string set \<Rightarrow> ('o, 'a, 'c) dbm \<Rightarrow> bool" where
  "mirrors view val flds s \<longleftrightarrow> (\<forall>n \<in> flds. \<forall>d. view (dm_catalog s) n d =
     (case stored s d of None \<Rightarrow> None | Some obj \<Rightarrow> val n (dm_state s obj)))"

definition db_synced ::
  "('c \<Rightarrow> bool) \<Rightarrow> ('a \<Rightarrow> bool) \<Rightarrow> ('c \<Rightarrow> string \<Rightarrow> int \<Rightarrow> 'v option) \<Rightarrow> (string \<Rightarrow> 'a \<Rightarrow> 'v option) \<Rightarrow> string set
     \<Rightarrow> ('o, 'a, 'c) dbm \<Rightarrow> bool" where
  "db_synced I takes view val flds s \<longleftrightarrow> I (dm_catalog s) \<and> linked s \<and> mirrors view val flds s \<and>
     (\<forall>d obj. stored s d = Some obj \<longrightarrow> takes (dm_state s obj))"

lemma set_uid_simps [simp]:
  "dm_catalog (set_uid obj uid s) = dm_catalog s" "dm_state (set_uid obj uid s) = dm_state s"
  "dm_draws (set_uid obj uid s) = dm_draws s" "stored (set_uid obj uid s) = stored s"
  "is_tree (dm_store (set_uid obj uid s)) = is_tree (dm_store s)"
  "is_uids (dm_store (set_uid obj uid s)) = (is_uids (dm_store s))(obj \<mapsto> Some uid)"
  "store_inv (dm_store (set_uid obj uid s)) = store_inv (dm_store s)"
  by (simp_all add: set_uid_def stored_def store_inv_def)

lemma linked_unique: "linked s \<Longrightarrow> stored s d = Some obj \<Longrightarrow> stored s e = Some obj \<Longrightarrow> d = e"
  unfolding linked_def by (metis option.inject)

text \<open>Telling a stored object its own id again changes nothing.\<close>

lemma set_uid_same: "linked s \<Longrightarrow> stored s uid = Some obj \<Longrightarrow> set_uid obj uid s = s"
  by (simp add: linked_def set_uid_def fun_upd_idem)

lemma keep_uid_same: "linked s \<Longrightarrow> stored s uid = Some obj \<Longrightarrow> keep_uid obj uid s = s"
  by (simp add: keep_uid_def set_uid_same)

lemma load_all_stored:
  "load_all (dm_store s) uids = Inr objs \<Longrightarrow> length objs = length uids \<and> list_all2 (\<lambda>uid obj. stored s uid = Some obj) uids objs"
  by (induction uids arbitrary: objs)
    (auto simp: bindr_eq_Inr store_getitem_def stored_def split: option.splits)

lemma fold_uids_same:
  assumes "\<And>obj uid. stored s uid = Some obj \<Longrightarrow> f obj uid s = s"
  shows "list_all2 (\<lambda>uid obj. stored s uid = Some obj) uids objs \<Longrightarrow>
    fold (\<lambda>(obj, uid). f obj uid) (zip objs uids) s = s"
proof (induction uids arbitrary: objs)
  case (Cons uid uids)
  then show ?case using assms by (cases objs) auto
qed simp

context object_catalog
begin

abbreviation "synced \<equiv> db_synced I takes view val flds"

lemma add_synced:
  assumes "synced s" "obj \<notin> ran (stored s)" "takes (dm_state s obj)" "mt_exact T obj"
    and add: "db_add T ops obj s = Some (r, s')"
  shows "synced s' \<and> (\<exists>uid. r = Inr uid \<and> stored s uid = None \<and> stored s' = (stored s)(uid \<mapsto> obj)
    \<and> is_uids (dm_store s') obj = Some (Some uid) \<and> dm_state s' = dm_state s)"
proof -
  obtain uid ds st where a: "store_add 1 obj (dm_draws s) (dm_store s) = Some (uid, ds, st)"
    using add assms(4) by (auto simp: db_add_def split: option.splits prod.splits)
  have inv: "store_inv (dm_store s)" "draws_ok (dm_draws s)" and ic: "I (dm_catalog s)"
    using assms(1) by (auto simp: db_synced_def linked_def)
  note st = store_add_result [OF inv a]
  obtain c' where c: "co_index_doc ops uid (dm_state s obj) (dm_catalog s) = (Inr (), c')" "I c'"
      "\<forall>n \<in> flds. view c' n = (view (dm_catalog s) n)(uid := val n (dm_state s obj))"
    using index_doc [OF ic assms(3), of uid] by blast
  have s': "r = Inr uid" "s' = set_uid obj uid (s\<lparr>dm_store := st, dm_draws := ds, dm_catalog := c'\<rparr>)"
    using add assms(4) a c(1)
    by (auto simp: db_add_def on_catalog_def m_bind_def m_modify_def m_return_def)
  have draws: "draws_ok ds"
    using inv(2) store_add_draws [OF a] by (auto simp: draws_ok_def)
  have tree: "stored s' = (stored s)(uid \<mapsto> obj)" "stored s uid = None"
    using st by (simp_all add: s' stored_def)
  have "linked s'"
    unfolding linked_def tree using st draws assms(1,2)
    by (auto simp: s' linked_def db_synced_def stored_def ran_def)
  moreover have "mirrors view val flds s'"
    unfolding mirrors_def tree using assms(1) c(3)
    by (auto simp: mirrors_def db_synced_def s'(2) split: option.splits)
  moreover have "\<forall>d x. stored s' d = Some x \<longrightarrow> takes (dm_state s' x)"
    unfolding tree using assms(1,3) by (auto simp: db_synced_def s'(2))
  ultimately show ?thesis using c(2) tree by (auto simp: db_synced_def s')
qed

lemma remove_uid_effect:
  assumes "I (dm_catalog s)" "store_inv (dm_store s)" "remove_uid ops uid s = (r, s')"
  shows "I (dm_catalog s') \<and> (\<forall>n \<in> flds. view (dm_catalog s') n = (view (dm_catalog s) n)(uid := None))
    \<and> store_inv (dm_store s') \<and> stored s' = (stored s)(uid := None) \<and> is_uids (dm_store s') = is_uids (dm_store s)
    \<and> dm_state s' = dm_state s \<and> dm_draws s' = dm_draws s
    \<and> (if stored s uid = None then r = Inl KeyError else r = Inr 1)"
proof -
  obtain c' where c: "co_unindex_doc ops uid (dm_catalog s) = (Inr (), c')" "I c'"
      "\<forall>n \<in> flds. view c' n = (view (dm_catalog s) n)(uid := None)"
    using unindex_doc [OF assms(1)] by blast
  obtain r' st where rm: "store_remove (By_Id uid) (dm_store s) = (r', st)" by fastforce
  have r: "r = bindr r' (\<lambda>_. Inr 1)" "s' = s\<lparr>dm_catalog := c', dm_store := st\<rparr>"
    using assms(3) c(1) rm
    by (auto simp: remove_uid_def on_catalog_def on_store_def m_bind_def m_return_def split: sum.splits)
  then show ?thesis
    using store_remove_by_id [OF assms(2) rm] c(2,3) by (auto simp: stored_def)
qed

lemma remove_uid_synced:
  assumes "synced s" "remove_uid ops uid s = (r, s')"
  shows "synced s' \<and> stored s' = (stored s)(uid := None) \<and> dm_state s' = dm_state s
    \<and> (if stored s uid = None then r = Inl KeyError else r = Inr 1)"
proof -
  have "I (dm_catalog s)" "store_inv (dm_store s)" using assms(1) by (auto simp: db_synced_def linked_def)
  note e = remove_uid_effect [OF this assms(2)]
  then have "linked s'" using assms(1) by (auto simp: linked_def db_synced_def)
  moreover have "mirrors view val flds s'"
    using assms(1) e by (auto simp: mirrors_def db_synced_def split: option.splits)
  ultimately show ?thesis using e assms(1) by (auto simp: db_synced_def)
qed

lemma remove_keeps_uids:
  "synced s \<Longrightarrow> remove_uid ops uid s = (r, s') \<Longrightarrow> is_uids (dm_store s') = is_uids (dm_store s)"
  unfolding db_synced_def linked_def by (blast dest: remove_uid_effect)

lemma stored_finite: "synced s \<Longrightarrow> finite (dom (stored s))"
  by (simp add: db_synced_def linked_def store_inv_def stored_def)

lemma reindex_uid_synced:
  assumes "synced s" "stored s uid = Some obj" "takes a" "attributes \<noteq> Bad_Attrs"
    and attrs: "\<forall>n \<in> flds. attributes = All_Attrs \<or> (\<exists>ns. attributes = Attrs ns \<and> n \<in> set ns)
      \<or> val n a = val n (dm_state s obj)"
    and "on_catalog (reindex_attrs ops uid a attributes) (s\<lparr>dm_state := (dm_state s)(obj := a)\<rparr>) = (r, s')"
  shows "r = Inr () \<and> synced s' \<and> stored s' = stored s \<and> dm_state s' = (dm_state s)(obj := a)
    \<and> dm_store s' = dm_store s"
proof -
  have ic: "I (dm_catalog s)" using assms(1) by (simp add: db_synced_def)
  obtain c' where c: "reindex_attrs ops uid a attributes (dm_catalog s) = (Inr (), c')" "I c'"
    "\<forall>n \<in> flds. view c' n = (if attributes = All_Attrs \<or> (\<exists>ns. attributes = Attrs ns \<and> n \<in> set ns)
       then (view (dm_catalog s) n)(uid := val n a) else view (dm_catalog s) n)"
    using reindex_ok [OF ic assms(3,4)] by blast
  have s': "r = Inr ()" "s' = s\<lparr>dm_state := (dm_state s)(obj := a), dm_catalog := c'\<rparr>"
    using assms(6) c(1) by (auto simp: on_catalog_def)
  have only: "d = uid" if "stored s d = Some obj" for d
    using linked_unique [of s] assms(1,2) that by (simp add: db_synced_def)
  have old: "view (dm_catalog s) n d = (case stored s d of None \<Rightarrow> None | Some obj \<Rightarrow> val n (dm_state s obj))"
    if "n \<in> flds" for n d
    using assms(1) that by (simp add: db_synced_def mirrors_def)
  have "view c' n d = (case stored s d of None \<Rightarrow> None | Some x \<Rightarrow> val n (((dm_state s)(obj := a)) x))"
    if n: "n \<in> flds" for n d
  proof (cases "d = uid")
    case True
    then show ?thesis using c(3) n attrs old [OF n, of uid] assms(2) by auto
  next
    case False
    then have "stored s d \<noteq> Some obj" using only by blast
    then show ?thesis using False c(3) n old [OF n, of d] by (auto split: option.splits)
  qed
  then show ?thesis
    using assms(1,3) c(2)
    by (auto simp: db_synced_def mirrors_def linked_def s' stored_def cong: option.case_cong)
qed

lemma remove_synced:
  "synced s \<Longrightarrow> ops' = ops \<Longrightarrow> db_remove T ops' arg s = (r, s') \<Longrightarrow> synced s' \<and> dm_state s' = dm_state s"
  "synced s \<Longrightarrow> ops' = ops \<Longrightarrow> db_remove_all T ops' args s = (r, s') \<Longrightarrow> synced s' \<and> dm_state s' = dm_state s"
proof (induction T ops' arg s and T ops' args s arbitrary: r s' and r s' rule: db_remove_db_remove_all.induct)
  case (2 T ops' obj s)
  then show ?case by (auto dest: remove_uid_synced split: if_splits option.splits)
next
  case (5 T ops' a args s)
  obtain r1 s1 where 1: "db_remove T ops' a s = (r1, s1)" by fastforce
  obtain r2 s2 where 2: "db_remove_all T ops' args s1 = (r2, s2)" by fastforce
  show ?case
    using "5.IH"(1) [OF "5.prems"(1,2) 1] "5.IH"(2) [OF _ "5.prems"(2) 2] "5.prems"(3) 1 2
    by (auto simp: m_bind_def m_return_def split: sum.splits)
qed (auto dest: remove_uid_synced)

end

section \<open>A catalog of field indexes\<close>

text \<open>
  The provider: for each name an index of Field_Index over the objects' attributes and
  virtual fields, each operation going through the indexes. The package's class behind
  \<open>CatalogIndex\<close> is a parameter of the index; here it is one that unindexes as the index itself does.
\<close>

type_synonym 'v field_catalog = "string \<Rightarrow> 'v field_index"

definition on_index :: "string \<Rightarrow> ('v field_index, unit) meth \<Rightarrow> ('v field_catalog, unit) meth" where
  "on_index n m c = (case m (c n) of (r, f) \<Rightarrow> (r, c(n := f)))"

definition base_unindex :: "int \<Rightarrow> ('v field_index, unit) meth" where
  "base_unindex d f = (Inr (), Field_Index.unindex_doc d f)"

definition field_catalog_ops ::
  "('a, 'v) object_model \<Rightarrow> (string \<times> discriminator) list \<Rightarrow> ('a, 'v field_catalog) catalog_ops" where
  "field_catalog_ops M ixs =
     (let put = (\<lambda>d a (n, dis). on_index n (Field_Index.index_doc M dis base_unindex d a)) in
      \<lparr>co_has = (\<lambda>c n. n \<in> fst ` set ixs),
       co_index_doc = (\<lambda>d a. m_each (put d a) ixs),
       co_reindex_doc = (\<lambda>d a. m_each (put d a) ixs),
       co_unindex_doc = (\<lambda>d. m_each (\<lambda>(n, _). on_index n (base_unindex d)) ixs),
       co_reindex_attr = (\<lambda>n d a. m_each (put d a) (filter (\<lambda>(m, _). m = n) ixs))\<rparr>)"

definition field_view :: "'v field_catalog \<Rightarrow> string \<Rightarrow> int \<Rightarrow> 'v option" where
  "field_view c n = fi_rev (c n)"

definition field_val :: "('a, 'v) object_model \<Rightarrow> (string \<times> discriminator) list \<Rightarrow> string \<Rightarrow> 'a \<Rightarrow> 'v option" where
  "field_val M ixs n a =
     (case map_of ixs n of None \<Rightarrow> None
      | Some dis \<Rightarrow> (case discriminate M dis a of Value v \<Rightarrow> Some v | _ \<Rightarrow> None))"

definition field_takes :: "('a, 'v) object_model \<Rightarrow> (string \<times> discriminator) list \<Rightarrow> 'a \<Rightarrow> bool" where
  "field_takes M ixs a \<longleftrightarrow> (\<forall>dis \<in> snd ` set ixs. discriminate M dis a \<notin> {Persistent_Object, Broken_Object})"

definition field_catalog_inv :: "'v field_catalog \<Rightarrow> bool" where
  "field_catalog_inv c \<longleftrightarrow> (\<forall>n. field_inv (c n))"

lemma index_doc_total:
  assumes "field_inv f" "discriminate M dis a \<notin> {Persistent_Object, Broken_Object}"
  shows "\<exists>f'. Field_Index.index_doc M dis base_unindex d a f = (Inr (), f') \<and> field_inv f' \<and>
    fi_rev f' = (fi_rev f)(d := (case discriminate M dis a of Value v \<Rightarrow> Some v | _ \<Rightarrow> None))"
proof (cases "discriminate M dis a")
  case Missing
  have "\<And>g. field_inv g \<Longrightarrow> \<exists>g'. base_unindex d g = (Inr (), g') \<and> field_inv g' \<and>
      fi_rev g' = (fi_rev g)(d := None)"
    by (simp add: base_unindex_def field.del_inv field.del_view)
  from index_doc_missing [where base_unindex = base_unindex and docid = d, OF assms(1) Missing this] show ?thesis using Missing by auto
next
  case (Value v)
  then show ?thesis
    using field.put_inv [OF assms(1)] field.put_view [OF assms(1)]
    by (simp add: index_doc_value)
qed (use assms(2) in simp_all)

lemma each_index:
  assumes "\<And>n x f. (n, x) \<in> set ixs \<Longrightarrow> field_inv f \<Longrightarrow>
      \<exists>f'. m (n, x) f = (Inr (), f') \<and> field_inv f' \<and> fi_rev f' = (fi_rev f)(d := g x)"
    and "distinct (map fst ixs)" "field_catalog_inv c"
  shows "\<exists>c'. m_each (\<lambda>(n, x). on_index n (m (n, x))) ixs c = (Inr (), c') \<and> field_catalog_inv c' \<and>
    (\<forall>n. fi_rev (c' n) = (case map_of ixs n of None \<Rightarrow> fi_rev (c n) | Some x \<Rightarrow> (fi_rev (c n))(d := g x)))"
  using assms
proof (induction ixs arbitrary: c)
  case Nil
  then show ?case by (simp add: m_return_def)
next
  case (Cons ix ixs)
  obtain n x where ix: "ix = (n, x)" by (cases ix)
  obtain f where f: "m (n, x) (c n) = (Inr (), f)" "field_inv f" "fi_rev f = (fi_rev (c n))(d := g x)"
    using Cons.prems(1) [of n x "c n"] Cons.prems(3) ix unfolding field_catalog_inv_def by (metis list.set_intros(1))
  have "field_catalog_inv (c(n := f))" using Cons.prems(3) f(2) by (simp add: field_catalog_inv_def)
  moreover have "\<And>n x f. (n, x) \<in> set ixs \<Longrightarrow> field_inv f \<Longrightarrow>
      \<exists>f'. m (n, x) f = (Inr (), f') \<and> field_inv f' \<and> fi_rev f' = (fi_rev f)(d := g x)"
    by (rule Cons.prems(1)) simp
  moreover have "distinct (map fst ixs)" using Cons.prems(2) by simp
  ultimately obtain c' where c': "m_each (\<lambda>(n, x). on_index n (m (n, x))) ixs (c(n := f)) = (Inr (), c')" "field_catalog_inv c'"
    "\<forall>k. fi_rev (c' k) = (case map_of ixs k of None \<Rightarrow> fi_rev ((c(n := f)) k) | Some x \<Rightarrow> (fi_rev ((c(n := f)) k))(d := g x))"
    using Cons.IH [of "c(n := f)"] by blast
  have "map_of ixs n = None" using Cons.prems(2) ix by (simp add: map_of_eq_None_iff)
  moreover have "on_index n (m (n, x)) c = (Inr (), c(n := f))" by (simp add: on_index_def f(1))
  ultimately show ?case
    using c' f(3) by (intro exI [of _ c']) (auto simp: ix m_bind_def split: option.splits)
qed

lemma each_index_of:
  "m_each (\<lambda>(n, x). on_index n (m (n, x))) (filter (\<lambda>(k, _). k = n) ixs) =
     (case map_of ixs n of None \<Rightarrow> m_return () | Some x \<Rightarrow> m_each (\<lambda>(n, x). on_index n (m (n, x))) [(n, x)])"
  if "distinct (map fst ixs)" for m :: "string \<times> 'x \<Rightarrow> ('v field_index, unit) meth"
proof -
  have "filter (\<lambda>(k, _). k = n) ixs = (case map_of ixs n of None \<Rightarrow> [] | Some x \<Rightarrow> [(n, x)])"
    using that
  proof (induction ixs)
    case (Cons ix ixs)
    obtain k x where ix: "ix = (k, x)" by (cases ix)
    have "n = k \<Longrightarrow> map_of ixs n = None" using Cons.prems ix by (simp add: map_of_eq_None_iff)
    then show ?case using Cons ix by (auto split: option.splits)
  qed simp
  then show ?thesis by (auto split: option.splits)
qed

text \<open>The names are distinct, as the keys of the catalog are.\<close>

interpretation field_catalog: object_catalog "field_catalog_ops M (AList.clearjunk ixs)"
    field_catalog_inv "field_takes M (AList.clearjunk ixs)" field_view "field_val M (AList.clearjunk ixs)"
    "fst ` set (AList.clearjunk ixs)"
  for M :: "('a, 'v) object_model" and ixs :: "(string \<times> discriminator) list"
proof unfold_locales
  fix c :: "'v field_catalog" and n
  show "co_has (field_catalog_ops M (AList.clearjunk ixs)) c n \<longleftrightarrow> n \<in> fst ` set (AList.clearjunk ixs)"
    by (simp add: field_catalog_ops_def)
next
  fix c :: "'v field_catalog" and a d
  let ?ixs = "AList.clearjunk ixs"
  let ?g = "\<lambda>dis. case discriminate M dis a of Value v \<Rightarrow> Some v | _ \<Rightarrow> None"
  assume c: "field_catalog_inv c" and a: "field_takes M ?ixs a"
  let ?put = "\<lambda>(n, dis). Field_Index.index_doc M dis base_unindex d a"
  have step: "\<exists>f'. ?put (n, dis) f = (Inr (), f') \<and> field_inv f' \<and> fi_rev f' = (fi_rev f)(d := ?g dis)"
    if "(n, dis) \<in> set ?ixs" "field_inv f" for n dis f
    using index_doc_total [OF that(2)] a that(1) by (force simp: field_takes_def)
  from each_index [of ?ixs ?put d ?g, OF step _ c] obtain c' where
    c': "m_each (\<lambda>(n, x). on_index n (?put (n, x))) ?ixs c = (Inr (), c')" "field_catalog_inv c'"
      "\<forall>n. fi_rev (c' n) = (case map_of ?ixs n of None \<Rightarrow> fi_rev (c n) | Some x \<Rightarrow> (fi_rev (c n))(d := ?g x))"
    by (auto simp: distinct_clearjunk)
  have views: "\<forall>n \<in> fst ` set ?ixs. field_view c' n = (field_view c n)(d := field_val M ?ixs n a)"
    using c'(3) by (auto simp: field_view_def field_val_def map_of_eq_None_iff split: option.splits)
  show "\<exists>c'. co_index_doc (field_catalog_ops M ?ixs) d a c = (Inr (), c') \<and> field_catalog_inv c' \<and>
      (\<forall>n \<in> fst ` set ?ixs. field_view c' n = (field_view c n)(d := field_val M ?ixs n a))"
    and "\<exists>c'. co_reindex_doc (field_catalog_ops M ?ixs) d a c = (Inr (), c') \<and> field_catalog_inv c' \<and>
      (\<forall>n \<in> fst ` set ?ixs. field_view c' n = (field_view c n)(d := field_val M ?ixs n a))"
    using c' views by (simp_all add: field_catalog_ops_def case_prod_beta')
  fix n assume n: "n \<in> fst ` set ?ixs"
  then obtain dis where dis: "map_of ?ixs n = Some dis" "(n, dis) \<in> set ?ixs"
    by (metis distinct_clearjunk map_of_clearjunk map_of_eq_None_iff map_of_SomeD not_Some_eq)
  from step [OF dis(2)] c obtain f where
    f: "?put (n, dis) (c n) = (Inr (), f)" "field_inv f" "fi_rev f = (fi_rev (c n))(d := ?g dis)"
    by (auto simp: field_catalog_inv_def)
  have "co_reindex_attr (field_catalog_ops M ?ixs) n d a c = (Inr (), c(n := f))"
    using f(1) each_index_of [of ?ixs ?put n] dis(1)
    by (simp add: field_catalog_ops_def distinct_clearjunk case_prod_beta' m_bind_def on_index_def m_return_def)
  then show "\<exists>c'. co_reindex_attr (field_catalog_ops M ?ixs) n d a c = (Inr (), c') \<and> field_catalog_inv c' \<and>
      (\<forall>m \<in> fst ` set ?ixs. field_view c' m = (if m = n then (field_view c m)(d := field_val M ?ixs m a) else field_view c m))"
    using c f dis by (auto simp: field_catalog_inv_def field_view_def field_val_def)
next
  fix c :: "'v field_catalog" and d
  let ?ixs = "AList.clearjunk ixs"
  assume c: "field_catalog_inv c"
  have step: "\<exists>f'. (\<lambda>(n, dis). base_unindex d) (n, dis) f = (Inr (), f') \<and> field_inv f' \<and> fi_rev f' = (fi_rev f)(d := None)"
    if "field_inv f" for n dis and f :: "'v field_index"
    using that by (simp add: base_unindex_def field.del_inv field.del_view)
  from each_index [of ?ixs "\<lambda>(n, dis). base_unindex d" d "\<lambda>_. None", OF step _ c] obtain c' where
    "m_each (\<lambda>(n, x). on_index n ((\<lambda>(n, dis). base_unindex d) (n, x))) ?ixs c = (Inr (), c')" "field_catalog_inv c'"
      "\<forall>n. fi_rev (c' n) = (case map_of ?ixs n of None \<Rightarrow> fi_rev (c n) | Some x \<Rightarrow> (fi_rev (c n))(d := None))"
    by (auto simp: distinct_clearjunk)
  then show "\<exists>c'. co_unindex_doc (field_catalog_ops M ?ixs) d c = (Inr (), c') \<and> field_catalog_inv c' \<and>
      (\<forall>n \<in> fst ` set ?ixs. field_view c' n = (field_view c n)(d := None))"
    by (auto simp: field_catalog_ops_def field_view_def map_of_eq_None_iff case_prod_beta' split: option.splits)
qed

section \<open>Histories\<close>

text \<open>
  What a client does to a model: add an object that is not stored, change an object and
  reindex it, change an object that is not stored, reindex by id, remove anything by id,
  object or list, and load by ids. Operations may raise. Queries change nothing (\<open>query_same\<close>).
\<close>

inductive db_step ::
  "'o model_types \<Rightarrow> ('a, 'c) catalog_ops \<Rightarrow> ('a \<Rightarrow> bool) \<Rightarrow> ('o, 'a, 'c) dbm \<Rightarrow> ('o, 'a, 'c) dbm \<Rightarrow> bool"
  for T ops takes where
  step_add: "db_add T ops obj s = Some (r, s') \<Longrightarrow> obj \<notin> ran (stored s) \<Longrightarrow> takes (dm_state s obj) \<Longrightarrow>
    db_step T ops takes s s'"
| step_edit: "reindex_one T ops (By_Obj obj) All_Attrs (s\<lparr>dm_state := (dm_state s)(obj := a)\<rparr>) = (r, s') \<Longrightarrow>
    obj \<in> ran (stored s) \<Longrightarrow> mt_instance T obj \<Longrightarrow> takes a \<Longrightarrow> db_step T ops takes s s'"
| step_fresh: "obj \<notin> ran (stored s) \<Longrightarrow> db_step T ops takes s (s\<lparr>dm_state := (dm_state s)(obj := a)\<rparr>)"
| step_reindex: "reindex_one T ops (By_Id uid) All_Attrs s = (r, s') \<Longrightarrow> db_step T ops takes s s'"
| step_remove: "db_remove T ops arg s = (r, s') \<Longrightarrow> db_step T ops takes s s'"
| step_load: "db_getitems uids s = (r, s') \<Longrightarrow> db_step T ops takes s s'"

lemma getitems_same:
  assumes "linked s" "db_getitems uids s = (r, s')"
  shows "s' = s"
proof (cases "load_all (dm_store s) uids")
  case (Inr objs)
  from fold_uids_same [of s keep_uid, OF keep_uid_same [OF assms(1)]] load_all_stored [OF Inr]
  have "fold (\<lambda>(obj, uid). keep_uid obj uid) (zip objs uids) s = s" by blast
  then show ?thesis using assms(2) Inr by (simp add: db_getitems_def)
qed (use assms(2) in \<open>simp add: db_getitems_def\<close>)

lemma fold_set_uid_same:
  assumes "linked s" "load_all (dm_store s) uids = Inr objs"
  shows "fold (\<lambda>(obj, uid). set_uid obj uid) (zip objs uids) s = s"
  using fold_uids_same [of s set_uid, OF set_uid_same [OF assms(1)]] load_all_stored [OF assms(2)] by blast

lemma query_same:
  assumes "linked s" "db_query E queryobj skip limit kw s = (r, s')"
  shows "s' = s"
  using assms(2)
  by (auto simp: db_query_def Let_def fold_set_uid_same [OF assms(1)] split: sum.splits option.splits)

lemma load_all_outcome:
  "load_all (dm_store s) uids =
     (if set uids \<subseteq> dom (stored s) then Inr (map (\<lambda>d. the (stored s d)) uids) else Inl KeyError)"
  by (induction uids) (auto simp: store_getitem_def stored_def split: option.splits)

text \<open>The objects of these ids have been told one of them that is theirs; everything else is as before.\<close>

definition told :: "('o, 'a, 'c) dbm \<Rightarrow> int list \<Rightarrow> ('o, 'a, 'c) dbm \<Rightarrow> bool" where
  "told s uids s' \<longleftrightarrow> (\<exists>known. s' = s\<lparr>dm_store := (dm_store s)\<lparr>is_uids := known\<rparr>\<rparr> \<and>
     (\<forall>obj. if \<exists>uid \<in> set uids. stored s uid = Some obj
        then \<exists>uid \<in> set uids. stored s uid = Some obj \<and> known obj = Some (Some uid)
        else known obj = is_uids (dm_store s) obj))"

lemma told_nothing: "told s [] s"
  by (auto simp: told_def intro!: exI [where x = "is_uids (dm_store s)"])

lemma told_one_more:
  assumes "stored s uid = Some obj" "told (set_uid obj uid s) uids s'"
  shows "told s (uid # uids) s'"
proof -
  obtain known where k: "s' = (set_uid obj uid s)\<lparr>dm_store := (dm_store (set_uid obj uid s))\<lparr>is_uids := known\<rparr>\<rparr>"
    "\<And>x. if \<exists>uid \<in> set uids. stored s uid = Some x
        then \<exists>uid \<in> set uids. stored s uid = Some x \<and> known x = Some (Some uid)
        else known x = ((is_uids (dm_store s))(obj \<mapsto> Some uid)) x"
    using assms(2) unfolding told_def set_uid_simps by (elim exE conjE) (rule that, assumption, erule spec)
  have "s' = s\<lparr>dm_store := (dm_store s)\<lparr>is_uids := known\<rparr>\<rparr>" using k(1) by (simp add: set_uid_def)
  moreover have "if \<exists>d \<in> set (uid # uids). stored s d = Some x
        then \<exists>d \<in> set (uid # uids). stored s d = Some x \<and> known x = Some (Some d)
        else known x = is_uids (dm_store s) x" for x
    using k(2) [of x] assms(1) by (cases "x = obj") (auto split: if_splits)
  ultimately show ?thesis unfolding told_def by blast
qed

lemma told_fold:
  "set uids \<subseteq> dom (stored s) \<Longrightarrow>
     told s uids (fold (\<lambda>(obj, uid). set_uid obj uid) (zip (map (\<lambda>d. the (stored s d)) uids) uids) s)"
proof (induction uids arbitrary: s)
  case (Cons uid uids)
  then obtain obj where obj: "stored s uid = Some obj" by auto
  with Cons.IH [of "set_uid obj uid s"] Cons.prems
  have "told (set_uid obj uid s) uids
      (fold (\<lambda>(obj, uid). set_uid obj uid) (zip (map (\<lambda>d. the (stored s d)) uids) uids) (set_uid obj uid s))" by simp
  from told_one_more [OF obj this] obj show ?case by simp
qed (simp add: told_nothing)

text \<open>A limit for the catalog leaves the first part of the answer as it is.\<close>

lemma query_with_limit:
  assumes E: "sorts_itself E finds index_sort" "sorts_first index_sort"
    and full: "qe_run E Q (query_options None kw) = Inr (sz, ids)" "''limit'' \<notin> fst ` set kw" and n: "n > 0"
  shows "\<exists>sz' ids'. qe_run E Q (query_options (Some n) kw) = Inr (sz', ids') \<and> take n ids' = take n ids"
proof -
  let ?opts = "filter (\<lambda>(k, _). k \<in> set option_names) kw"
  have opts: "map_of ((''limit'', Kw_Num n) # ?opts) k = (if k = ''limit'' then Some (Kw_Num n) else map_of ?opts k)" for k
    by simp
  have no_limit: "map_of ?opts ''limit'' = None" using full(2) by (auto simp: map_of_eq_None_iff)
  let ?by = "case map_of ?opts ''sort_index'' of Some (Kw_Str n) \<Rightarrow> Some n | _ \<Rightarrow> None"
  let ?k = "map_of ?opts ''sort_type''" and ?rv = "case map_of ?opts ''reverse'' of Some (Kw_Bool b) \<Rightarrow> b | _ \<Rightarrow> False"
  have run: "qe_run E Q (query_options None kw) = bindr (finds Q (map_of ?opts ''names'')) (\<lambda>ids.
      sort_result index_sort ids ?by None ?k ?rv)"
    "qe_run E Q (query_options (Some n) kw) = bindr (finds Q (map_of ?opts ''names'')) (\<lambda>ids.
      sort_result index_sort ids ?by (Some n) ?k ?rv)"
    using E(1) unfolding sorts_itself_def query_options_def by (simp_all add: no_limit)
  obtain found where found: "finds Q (map_of ?opts ''names'') = Inr found" "sort_result index_sort found ?by None ?k ?rv = Inr (sz, ids)"
    using full(1) unfolding run(1) bindr_eq_Inr by blast
  have "\<exists>sz' ids'. sort_result index_sort found ?by (Some n) ?k ?rv = Inr (sz', ids') \<and> take n ids' = take n ids"
  proof (cases "?by \<noteq> None \<and> ?by \<noteq> Some []")
    case True
    then obtain srt where srt: "index_sort (the ?by) = Some srt" "srt (set found) ?rv None ?k = Inr ids"
      using found(2) by (auto simp: sort_result_def Let_def bindr_eq_Inr simp del: not_None_eq split: option.splits)
    have "srt (set found) ?rv (Some n) ?k = bindr (srt (set found) ?rv None ?k) (\<lambda>ys. Inr (take n ys))"
      using E(2) n srt(1) unfolding sorts_first_def by blast
    then have "srt (set found) ?rv (Some n) ?k = Inr (take n ids)" by (simp add: srt(2))
    then show ?thesis using True srt(1) by (auto simp: sort_result_def Let_def bindr_eq_Inr simp del: not_None_eq)
  next
    case False
    then show ?thesis using found(2) n by (auto simp: sort_result_def truthy_def simp del: not_None_eq)
  qed
  then show ?thesis using found(1) by (simp add: run(2))
qed

lemma db_query_limited:
  assumes E: "sorts_itself E finds index_sort" "sorts_first index_sort"
    and full: "qe_run E (full_query E queryobj kw) (query_options None kw) = Inr (sz, ids)" "''limit'' \<notin> fst ` set kw"
    and l: "l > 0" and k: "k = (case skip of None \<Rightarrow> 0 | Some n \<Rightarrow> n)"
  shows "if set (take l (drop k ids)) \<subseteq> dom (stored s)
    then \<exists>s'. db_query E queryobj skip (Some l) kw s = (Inr (Objects (map (\<lambda>d. the (stored s d)) (take l (drop k ids)))), s') \<and>
      told s (take l (drop k ids)) s'
    else db_query E queryobj skip (Some l) kw s = (Inl KeyError, s)"
proof -
  obtain sz' ids' where run: "qe_run E (full_query E queryobj kw) (query_options (Some (k + l)) kw) = Inr (sz', ids')"
      "take (k + l) ids' = take (k + l) ids"
    using query_with_limit [OF E full, of "k + l"] l by auto
  have page: "drop k (take (k + l) ids') = take l (drop k ids)" by (simp add: run(2) drop_take)
  obtain l' where l': "l = Suc l'" using l by (cases l) auto
  have "db_query E queryobj skip (Some l) kw s =
      (case load_all (dm_store s) (take l (drop k ids)) of
         Inl e \<Rightarrow> (Inl e, s)
       | Inr objs \<Rightarrow> (Inr (Objects objs), fold (\<lambda>(obj, uid). set_uid obj uid) (zip objs (take l (drop k ids))) s))"
    using run(1) page by (simp add: db_query_def l' Let_def k [symmetric] cong: sum.case_cong)
  then show ?thesis using told_fold [of "take l (drop k ids)" s] by (simp add: load_all_outcome)
qed

lemma db_query_lazy:
  assumes "qe_run E (full_query E queryobj kw) (query_options None kw) = Inr (sz, ids)" "limit = None \<or> limit = Some 0"
  shows "db_query E queryobj skip limit kw s = (Inr (Lazy_Ids sz ids), s)"
  using assms by (auto simp: db_query_def)

context object_catalog
begin

lemma edit_one:
  assumes "synced s" "stored s uid = Some obj" "mt_instance T obj" "takes a"
    "reindex_one T ops (By_Obj obj) All_Attrs (s\<lparr>dm_state := (dm_state s)(obj := a)\<rparr>) = (r, s')"
  shows "r = Inr () \<and> synced s' \<and> stored s' = stored s \<and> dm_state s' = (dm_state s)(obj := a)"
proof -
  have "is_uids (dm_store s) obj = Some (Some uid)" using assms(1,2) by (auto simp: db_synced_def linked_def)
  then have "on_catalog (reindex_attrs ops uid a All_Attrs) (s\<lparr>dm_state := (dm_state s)(obj := a)\<rparr>) = (r, s')"
    using assms(3,5) by (simp add: reindex_one_def)
  from reindex_uid_synced [OF assms(1,2,4) _ _ this] show ?thesis by simp
qed

lemma step_synced:
  assumes "db_step T ops takes s s'" "synced s"
  shows "synced s'"
  using assms(1)
proof (cases rule: db_step.cases)
  case (step_add obj r)
  then show ?thesis
  proof (cases "mt_exact T obj")
    case True
    then show ?thesis using add_synced [OF assms(2) step_add(2,3) True step_add(1)] by simp
  next
    case False
    then show ?thesis using step_add assms(2) by (simp add: db_add_def)
  qed
next
  case (step_edit obj a r)
  then obtain uid where "stored s uid = Some obj" by (auto simp: ran_def)
  from edit_one [OF assms(2) this step_edit(3,4,1)] show ?thesis by simp
next
  case (step_fresh obj a)
  then show ?thesis
    using assms(2) by (auto simp: db_synced_def linked_def mirrors_def stored_def ran_def split: option.splits)
next
  case (step_reindex uid r)
  show ?thesis
  proof (cases "stored s uid")
    case None
    then show ?thesis using step_reindex assms(2) by (simp add: reindex_one_def store_getitem_def stored_def)
  next
    case (Some obj)
    have "s\<lparr>dm_state := (dm_state s)(obj := dm_state s obj)\<rparr> = s" by simp
    then have "on_catalog (reindex_attrs ops uid (dm_state s obj) All_Attrs)
        (s\<lparr>dm_state := (dm_state s)(obj := dm_state s obj)\<rparr>) = (r, s')"
      using step_reindex Some by (simp add: reindex_one_def store_getitem_def stored_def)
    moreover have "takes (dm_state s obj)" using assms(2) Some by (simp add: db_synced_def)
    ultimately show ?thesis using reindex_uid_synced [OF assms(2) Some] by blast
  qed
next
  case (step_remove arg r)
  then show ?thesis using remove_synced(1) [OF assms(2) refl] by blast
next
  case (step_load uids r)
  moreover have "linked s" using assms(2) by (simp add: db_synced_def)
  ultimately show ?thesis using getitems_same assms(2) by blast
qed

lemma history_synced: "(db_step T ops takes)\<^sup>*\<^sup>* s s' \<Longrightarrow> synced s \<Longrightarrow> synced s'"
  by (induction rule: rtranclp_induct) (auto dest: step_synced)

end

section \<open>Properties\<close>

text \<open>
  C12: Whatever a client does to a model, step by step, whether the operations return or
  raise: every index of the catalog has exactly the stored objects, each under its id and
  with its present value, and every stored object knows its id.
\<close>

theorem catalog_mirrors_store:
  assumes "object_catalog ops I takes view val flds" "db_synced I takes view val flds s"
    and "(db_step T ops takes)\<^sup>*\<^sup>* s s'"
  shows "store_inv (dm_store s') \<and>
    (\<forall>n \<in> flds. \<forall>d. view (dm_catalog s') n d =
       (case is_tree (dm_store s') d of None \<Rightarrow> None | Some obj \<Rightarrow> val n (dm_state s' obj))) \<and>
    (\<forall>d obj. is_tree (dm_store s') d = Some obj \<longrightarrow> is_uids (dm_store s') obj = Some (Some d))"
  using object_catalog.history_synced [OF assms(1,3,2)]
  by (simp add: db_synced_def linked_def mirrors_def stored_def)

text \<open>
  Adding an object stores it under an id that was free, where it can be found again, and
  removing it takes it out of the store and of every index; a second removal raises.
\<close>

theorem add_then_remove:
  assumes cat: "object_catalog ops I takes view val flds" and sync: "db_synced I takes view val flds s"
    and new: "obj \<notin> ran (is_tree (dm_store s))" "takes (dm_state s obj)" "mt_exact T obj"
    and add: "db_add T ops obj s = Some (r, s1)" and rm: "db_remove T ops (Rm_Obj obj) s1 = (r2, s2)"
  shows "\<exists>uid. r = Inr uid \<and> is_tree (dm_store s) uid = None \<and> db_getitem uid s1 = (Inr obj, s1) \<and>
    (\<forall>n \<in> flds. view (dm_catalog s1) n = (view (dm_catalog s) n)(uid := val n (dm_state s obj))) \<and>
    r2 = Inr 1 \<and> is_tree (dm_store s2) = is_tree (dm_store s) \<and>
    (\<forall>n \<in> flds. view (dm_catalog s2) n = view (dm_catalog s) n) \<and>
    fst (db_remove T ops (Rm_Obj obj) s2) = Inl KeyError"
proof -
  note sync_eqs = db_synced_def linked_def mirrors_def stored_def
  have new': "obj \<notin> ran (stored s)" using new(1) by (simp add: stored_def)
  from object_catalog.add_synced [OF cat sync new' new(2,3) add] obtain uid where
    a: "db_synced I takes view val flds s1" "r = Inr uid" "stored s uid = None" "stored s1 = (stored s)(uid \<mapsto> obj)"
      "is_uids (dm_store s1) obj = Some (Some uid)" "dm_state s1 = dm_state s"
    by auto
  have rm': "remove_uid ops uid s1 = (r2, s2)" using rm new(3) a(5) by simp
  from object_catalog.remove_uid_synced [OF cat a(1) rm']
  have b: "db_synced I takes view val flds s2" "stored s2 = stored s" "dm_state s2 = dm_state s" "r2 = Inr 1"
    using a(3,4,6) by auto
  have "view (dm_catalog s1) n d = ((view (dm_catalog s) n)(uid := val n (dm_state s obj))) d
      \<and> view (dm_catalog s2) n d = view (dm_catalog s) n d" if "n \<in> flds" for n d
  proof -
    have "view (dm_catalog t) n d = (case stored t d of None \<Rightarrow> None | Some x \<Rightarrow> val n (dm_state s x))"
      if "t = s \<or> t = s1 \<or> t = s2" for t
      using that sync a b \<open>n \<in> flds\<close> by (auto simp: db_synced_def mirrors_def cong: option.case_cong)
    then show ?thesis using a(3,4) b(2) by simp
  qed
  moreover have "db_getitem uid s1 = (Inr obj, s1)"
    using a keep_uid_same [of s1 uid obj] by (auto simp: db_getitem_def store_getitem_def stored_def db_synced_def)
  moreover have "fst (db_remove T ops (Rm_Obj obj) s2) = Inl KeyError"
  proof -
    have "is_uids (dm_store s2) = is_uids (dm_store s1)"
      using rm' object_catalog.remove_keeps_uids [OF cat a(1)] by blast
    moreover obtain r3 s3 where "remove_uid ops uid s2 = (r3, s3)" by fastforce
    ultimately show ?thesis
      using object_catalog.remove_uid_synced [OF cat b(1)] a(3,5) b(2) new(3) by fastforce
  qed
  ultimately show ?thesis using a(2,3) b(2,4) by (auto simp: stored_def fun_eq_iff)
qed

text \<open>
  C24: With a limit a query gives the objects on the page of the whole answer that begins at \<open>skip\<close>
  and is \<open>limit\<close> long, the objects of the ids in their order, whether the catalog leaves out what is beyond
  \<open>skip + limit\<close>, as for a sorted answer, or not; it tells each of them its id and changes nothing else. An
  id that is not stored raises. The pages follow each other without gaps. Without a limit, or with limit 0, the answer
  is all of it, with the catalog's size, and \<open>skip\<close> has no effect.
\<close>

theorem query_pages:
  assumes E: "sorts_itself E finds index_sort" "sorts_first index_sort"
    and full: "qe_run E (full_query E queryobj kw) (query_options None kw) = Inr (sz, ids)" "''limit'' \<notin> fst ` set kw"
    and k: "k = (case skip of None \<Rightarrow> 0 | Some n \<Rightarrow> n)"
  shows "(l > 0 \<longrightarrow>
      (if set (take l (drop k ids)) \<subseteq> dom (stored s)
       then \<exists>s'. db_query E queryobj skip (Some l) kw s = (Inr (Objects (map (\<lambda>d. the (stored s d)) (take l (drop k ids)))), s') \<and>
         told s (take l (drop k ids)) s'
       else db_query E queryobj skip (Some l) kw s = (Inl KeyError, s))) \<and>
    take l (drop k ids) @ take l (drop (k + l) ids) = take (l + l) (drop k ids) \<and>
    db_query E queryobj skip None kw s = (Inr (Lazy_Ids sz ids), s) \<and>
    db_query E queryobj skip (Some 0) kw s = (Inr (Lazy_Ids sz ids), s)"
proof (intro conjI impI)
  show "take l (drop k ids) @ take l (drop (k + l) ids) = take (l + l) (drop k ids)"
    by (simp add: take_add add.commute)
qed (rule db_query_limited [OF E full _ k], assumption, rule db_query_lazy [OF full(1)], simp, rule db_query_lazy [OF full(1)], simp)

section \<open>Witnesses\<close>

text \<open>A model with an index \<open>n\<close> of numbers, and two stored objects.\<close>

definition number_model :: "(int option, int) object_model" where
  "number_model = \<lparr>om_getattr = (\<lambda>obj name. case obj of None \<Rightarrow> Missing | Some v \<Rightarrow> Value v),
     om_virtuals = (\<lambda>obj name. None)\<rparr>"

definition number_indexes :: "(string \<times> discriminator) list" where
  "number_indexes = [(''n'', Attribute ''n'')]"

definition number_types :: "nat model_types" where
  "number_types = \<lparr>mt_exact = (\<lambda>_. True), mt_instance = (\<lambda>_. True)\<rparr>"

definition empty_db :: "(nat, int option, int field_catalog) dbm" where
  "empty_db = \<lparr>dm_store = new_id_store (\<lambda>_. None), dm_catalog = (\<lambda>_. new_field_index),
     dm_state = (\<lambda>obj. Some (int obj)), dm_draws = [5, 9]\<rparr>"

abbreviation "number_ops \<equiv> field_catalog_ops number_model number_indexes"

lemma number_indexes_clear: "AList.clearjunk number_indexes = number_indexes"
  by (simp add: number_indexes_def)

lemmas number_catalog = field_catalog.object_catalog_axioms
  [of number_model number_indexes, unfolded number_indexes_clear]

lemma empty_db_synced:
  "db_synced field_catalog_inv (field_takes number_model number_indexes) field_view
     (field_val number_model number_indexes) (fst ` set number_indexes) empty_db"
proof -
  have "fi_rev (new_field_index :: int field_index) = Map.empty" by (simp add: new_field_index_def)
  then show ?thesis
    using new_field_index_inv
    by (auto simp: db_synced_def linked_def mirrors_def empty_db_def field_catalog_inv_def
        store_inv_def draws_ok_def maxint_def stored_def new_id_store_def field_view_def)
qed

lemma number_takes: "field_takes number_model number_indexes a"
  by (auto simp: field_takes_def number_indexes_def discriminate_def number_model_def split: option.splits)

definition one_number :: "(nat, int option, int field_catalog) dbm" where
  "one_number = snd (the (db_add number_types number_ops 7 empty_db))"

lemma one_number_add: "db_add number_types number_ops 7 empty_db = Some (Inr 5, one_number)"
  by (simp add: one_number_def db_add_def number_types_def empty_db_def store_add_def new_id_store_def
      ensure_length_def btree_insert_def change_length_def on_catalog_def field_catalog_ops_def
      number_indexes_def m_bind_def on_index_def index_doc_value discriminate_def number_model_def meth_simps)

lemma catalog_mirrors_store_witness:
  "\<forall>d. field_view (dm_catalog one_number) ''n'' d =
     (case is_tree (dm_store one_number) d of None \<Rightarrow> None
      | Some obj \<Rightarrow> field_val number_model number_indexes ''n'' (dm_state one_number obj))"
proof -
  have "db_step number_types number_ops (field_takes number_model number_indexes) empty_db one_number"
    by (rule step_add [OF one_number_add])
      (simp_all add: number_takes stored_def empty_db_def new_id_store_def)
  moreover have "''n'' \<in> fst ` set number_indexes" by (simp add: number_indexes_def)
  ultimately show ?thesis
    using catalog_mirrors_store [OF number_catalog empty_db_synced r_into_rtranclp] by blast
qed

lemma add_then_remove_witness:
  "\<exists>r2 s2. db_remove number_types number_ops (Rm_Obj 7) one_number = (r2, s2) \<and> r2 = Inr 1 \<and>
     is_tree (dm_store s2) = Map.empty"
proof -
  obtain r2 s2 where rm: "db_remove number_types number_ops (Rm_Obj 7) one_number = (r2, s2)" by fastforce
  have new: "7 \<notin> ran (is_tree (dm_store empty_db))" "is_tree (dm_store empty_db) = Map.empty"
    by (simp_all add: empty_db_def new_id_store_def)
  have "mt_exact number_types 7" by (simp add: number_types_def)
  from add_then_remove [OF number_catalog empty_db_synced new(1) number_takes this one_number_add rm]
  show ?thesis using rm new(2) by auto
qed

text \<open>A catalog that finds the same documents for every query, in descending order when they are to be sorted.\<close>

definition number_sort :: "string \<Rightarrow> (int set \<Rightarrow> bool \<Rightarrow> nat option \<Rightarrow> unit kw_arg option \<Rightarrow> int list res) option" where
  "number_sort name = Some (\<lambda>docs rv limit k. Inr (case limit of None \<Rightarrow> rev (sorted_list_of_set docs)
     | Some n \<Rightarrow> take n (rev (sorted_list_of_set docs))))"

definition number_engine :: "(unit, unit) query_engine" where
  "number_engine = \<lparr>qe_optimize = id, qe_both = (\<lambda>_ _. ()), qe_all = (\<lambda>_. ()), qe_eq = (\<lambda>_ _. ()),
     qe_run = (\<lambda>_ kw. sort_result number_sort [5, 5, 5]
       (case map_of kw ''sort_index'' of Some (Kw_Str n) \<Rightarrow> Some n | _ \<Rightarrow> None)
       (case map_of kw ''limit'' of Some (Kw_Num n) \<Rightarrow> Some n | _ \<Rightarrow> None)
       (map_of kw ''sort_type'')
       (case map_of kw ''reverse'' of Some (Kw_Bool b) \<Rightarrow> b | _ \<Rightarrow> False))\<rparr>"

lemma number_engine_sorts: "sorts_itself number_engine (\<lambda>_ _. Inr [5, 5, 5]) number_sort" "sorts_first number_sort"
  by (simp_all add: sorts_itself_def number_engine_def sorts_first_def number_sort_def)

lemma number_engine_run:
  "qe_run number_engine (full_query number_engine None []) (query_options None []) = Inr (None, [5, 5, 5])"
  by (simp add: number_engine_def query_options_def sort_result_def truthy_def)

lemma one_number_tree: "is_tree (dm_store one_number) = [5 \<mapsto> 7]"
  by (simp add: one_number_def db_add_def number_types_def empty_db_def store_add_def new_id_store_def
      ensure_length_def btree_insert_def change_length_def on_catalog_def field_catalog_ops_def set_uid_def
      number_indexes_def m_bind_def on_index_def index_doc_value discriminate_def number_model_def meth_simps)

lemma one_number_linked: "linked one_number"
  using object_catalog.add_synced [OF number_catalog empty_db_synced _ number_takes _ one_number_add]
  by (simp add: stored_def empty_db_def new_id_store_def number_types_def db_synced_def)

lemma query_pages_witness:
  "\<exists>s'. db_query number_engine None (Some 1) (Some 1) [] one_number = (Inr (Objects [7]), s')
     \<and> told one_number [5] s'
     \<and> db_query number_engine None (Some 1) None [] one_number = (Inr (Lazy_Ids None [5, 5, 5]), one_number)"
proof -
  have "''limit'' \<notin> fst ` set []" by simp
  from query_pages [OF number_engine_sorts number_engine_run this refl, of 1 "Some 1" one_number]
  show ?thesis by (simp add: stored_def one_number_tree)
qed

end
