(* ===== verification/Sliceable.thy ===== *)
theory Sliceable
  imports Prelude
begin

text \<open>
  zerodb/util/iter.py: a lazy result that can be indexed and sliced like a list. It keeps
  an iterator, the number of elements it takes the iterator to have given (\<open>stop\<close>), and a
  cache of elements by index. \<open>f\<close>, which starts the iteration again, gives the same
  elements \<open>xs\<close> each time; whether it gives an iterator or only something to iterate over
  makes a difference and is part of the model.
\<close>

section \<open>State\<close>

text \<open>An iterator after some elements, or an object each iteration of which starts anew.\<close>

datatype iter_state = Iter nat | Reiterable

text \<open>\<open>LRUCache\<close> of cachetools: reading refreshes an entry, storing may evict others.\<close>

record ('c, 'a) lru =
  lru_lookup :: "'c \<Rightarrow> nat \<Rightarrow> 'a option"
  lru_touch :: "nat \<Rightarrow> 'c \<Rightarrow> 'c"
  lru_store :: "nat \<Rightarrow> 'a \<Rightarrow> 'c \<Rightarrow> 'c"
  lru_maxsize :: nat

text \<open>\<open>sl_stop\<close> is None after a slice without an end.\<close>

record 'c sliceable =
  sl_cache :: 'c
  sl_stop :: "nat option"
  sl_iter :: iter_state

text \<open>
  \<open>so_end\<close> is what \<open>next\<close> raises after the elements: StopIteration at a plain end, anything else
  when the iterator fails there. What a failed iterator does later is not modelled.
\<close>

record 'a source =
  so_elements :: "'a list"
  so_iterator :: bool
  so_end :: py_exc

definition raised :: "'a source \<Rightarrow> py_exc option" where
  "raised F = (if so_end F = StopIteration then None else Some (so_end F))"

definition new_sliceable :: "'c \<Rightarrow> 'c sliceable" where
  "new_sliceable c = \<lparr>sl_cache = c, sl_stop = Some 0, sl_iter = Iter 0\<rparr>"

section \<open>islice\<close>

text \<open>
  \<open>list(islice(it, a, b, step))\<close> on the elements that are left, and how many of them
  it takes; \<open>islice_fails\<close> when it goes past the end of an iterator that fails there.
\<close>

definition islice_list :: "nat \<Rightarrow> nat option \<Rightarrow> nat \<Rightarrow> 'a list \<Rightarrow> 'a list" where
  "islice_list a b step rest =
     map (\<lambda>i. rest ! i) (filter (\<lambda>i. (i - a) mod step = 0)
       [a..<(case b of None \<Rightarrow> length rest | Some b \<Rightarrow> min b (length rest))])"

definition islice_taken :: "nat \<Rightarrow> nat option \<Rightarrow> 'a list \<Rightarrow> nat" where
  "islice_taken a b rest =
     (case b of None \<Rightarrow> length rest | Some b \<Rightarrow> min (max a b) (length rest))"

definition islice_fails :: "'a source \<Rightarrow> nat \<Rightarrow> nat option \<Rightarrow> 'a list \<Rightarrow> bool" where
  "islice_fails F a b rest \<longleftrightarrow>
     raised F \<noteq> None \<and> (case b of None \<Rightarrow> True | Some b \<Rightarrow> length rest < max a b)"

definition rest_of :: "'a list \<Rightarrow> iter_state \<Rightarrow> 'a list" where
  "rest_of xs it = (case it of Iter n \<Rightarrow> drop n xs | Reiterable \<Rightarrow> xs)"

definition advance :: "nat \<Rightarrow> iter_state \<Rightarrow> iter_state" where
  "advance n it = (case it of Iter m \<Rightarrow> Iter (m + n) | Reiterable \<Rightarrow> Reiterable)"

section \<open>Indexing\<close>

text \<open>\<open>__getitem__\<close> with an integer, without the handler of StopIteration.\<close>

definition next_at ::
  "('c, 'a) lru \<Rightarrow> 'a source \<Rightarrow> nat \<Rightarrow> nat \<Rightarrow> ('c sliceable, 'a) meth" where
  "next_at L F key stop s =
     (let delta = key - stop; rest = rest_of (so_elements F) (sl_iter s) in
      if delta < length rest then
        (Inr (rest ! delta),
         s\<lparr>sl_iter := advance (delta + 1) (sl_iter s), sl_cache := lru_store L key (rest ! delta) (sl_cache s),
           sl_stop := Some (key + 1)\<rparr>)
      else (Inl (so_end F), s\<lparr>sl_iter := advance (length rest) (sl_iter s)\<rparr>))"

definition getitem_int0 :: "('c, 'a) lru \<Rightarrow> 'a source \<Rightarrow> int \<Rightarrow> ('c sliceable, 'a) meth" where
  "getitem_int0 L F key s =
     (if key < 0 then (Inl KeyError, s)
      else (case lru_lookup L (sl_cache s) (nat key) of
              Some v \<Rightarrow> (Inr v, s\<lparr>sl_cache := lru_touch L (nat key) (sl_cache s)\<rparr>)
            | None \<Rightarrow>
                (case sl_stop s of
                   None \<Rightarrow> (Inl TypeError, s)
                 | Some stop \<Rightarrow>
                     if nat key < stop
                     then next_at L F (nat key) 0 (s\<lparr>sl_stop := Some 0, sl_iter := Iter 0\<rparr>)
                     else next_at L F (nat key) stop s)))"

text \<open>The handler puts \<open>f()\<close> itself in the place of the iterator.\<close>

definition on_stop :: "'a source \<Rightarrow> ('c sliceable, 'b) meth \<Rightarrow> ('c sliceable, 'b) meth" where
  "on_stop F m s =
     (case m s of
        (Inl e, t) \<Rightarrow>
          if e = StopIteration
          then (Inl e, t\<lparr>sl_iter := (if so_iterator F then Iter 0 else Reiterable), sl_stop := Some 0\<rparr>)
          else (Inl e, t)
      | (Inr x, t) \<Rightarrow> (Inr x, t))"

definition getitem_int :: "('c, 'a) lru \<Rightarrow> 'a source \<Rightarrow> int \<Rightarrow> ('c sliceable, 'a) meth" where
  "getitem_int L F key = on_stop F (getitem_int0 L F key)"

section \<open>Slicing\<close>

text \<open>
  A slice of non-negative bounds. The loop over cached indexes needs at most one round
  more than the cache has entries, which is the fuel it gets.
\<close>

fun cached_run :: "('c, 'a) lru \<Rightarrow> 'c \<Rightarrow> nat option \<Rightarrow> nat \<Rightarrow> nat \<Rightarrow> nat \<Rightarrow> nat" where
  "cached_run L c stop step 0 i = i"
| "cached_run L c stop step (Suc fuel) i =
     (if (case stop of None \<Rightarrow> True | Some e \<Rightarrow> i < e) \<and> lru_lookup L c i \<noteq> None
      then cached_run L c stop step fuel (i + step) else i)"

text \<open>\<open>for i, value in izip(count(start, step), values): self.cache[i] = value\<close>\<close>

fun store_run :: "('c, 'a) lru \<Rightarrow> nat \<Rightarrow> nat \<Rightarrow> 'a list \<Rightarrow> 'c \<Rightarrow> 'c" where
  "store_run L i step [] c = c"
| "store_run L i step (v # vs) c = store_run L (i + step) step vs (lru_store L i v c)"

fun touch_run :: "('c, 'a) lru \<Rightarrow> nat list \<Rightarrow> 'c \<Rightarrow> 'c" where
  "touch_run L [] c = c"
| "touch_run L (i # is) c = touch_run L is (lru_touch L i c)"

definition range_step :: "nat \<Rightarrow> nat \<Rightarrow> nat \<Rightarrow> nat list" where
  "range_step a b step = filter (\<lambda>i. (i - a) mod step = 0) [a..<b]"

definition getitem_slice ::
  "('c, 'a) lru \<Rightarrow> 'a source \<Rightarrow> nat option \<Rightarrow> nat option \<Rightarrow> nat option \<Rightarrow> ('c sliceable, 'a list) meth" where
  "getitem_slice L F start0 stop0 step0 s =
     (if start0 = None \<and> stop0 = None then
        (case raised F of None \<Rightarrow> (Inr (so_elements F), s) | Some e \<Rightarrow> (Inl e, s))
      else
        (let start = (case start0 of None \<Rightarrow> 0 | Some a \<Rightarrow> a);
             step = (case step0 of None \<Rightarrow> 1 | Some 0 \<Rightarrow> 1 | Some n \<Rightarrow> n);
             index_upd = cached_run L (sl_cache s) stop0 step (Suc (lru_maxsize L)) start;
             before_end = (case stop0 of None \<Rightarrow> True | Some e \<Rightarrow> index_upd < e)
         in case sl_stop s of
              None \<Rightarrow> (Inl TypeError, s)
            | Some stop \<Rightarrow>
                if index_upd < stop \<and> before_end then
                  if islice_fails F start stop0 (so_elements F)
                  then (Inl (so_end F), s\<lparr>sl_iter := Iter (length (so_elements F))\<rparr>)
                  else
                  (let result = islice_list start stop0 step (so_elements F);
                       s1 = s\<lparr>sl_iter := Iter (islice_taken start stop0 (so_elements F)),
                              sl_cache := store_run L start step result (sl_cache s)\<rparr>
                   in case stop0 of
                        Some e \<Rightarrow> (Inr result, s1\<lparr>sl_stop := Some e\<rparr>)
                      | None \<Rightarrow>
                          if result = [] then (Inl NameError, s1)
                          else (Inr result, s1\<lparr>sl_stop := Some (start + step * (length result - 1) + 1)\<rparr>))
                else
                  (let cached = range_step start index_upd step;
                       result = map (\<lambda>i. the (lru_lookup L (sl_cache s) i)) cached;
                       rest = rest_of (so_elements F) (sl_iter s);
                       a = index_upd - stop;
                       b = map_option (\<lambda>e. e - stop) stop0;
                       result_upd = (if before_end then islice_list a b step rest else []);
                       it = (if before_end then advance (islice_taken a b rest) (sl_iter s) else sl_iter s)
                   in if before_end \<and> islice_fails F a b rest
                      then (Inl (so_end F), s\<lparr>sl_iter := advance (length rest) (sl_iter s),
                              sl_cache := touch_run L cached (sl_cache s)\<rparr>)
                      else (Inr (result @ result_upd),
                       s\<lparr>sl_iter := it, sl_cache := store_run L start step result_upd (touch_run L cached (sl_cache s)),
                         sl_stop := stop0\<rparr>))))"

section \<open>Iteration\<close>

text \<open>
  \<open>__iter__\<close>: indexes from 0 until StopIteration; any other exception leaves the loop. The result
  are the elements and this exception, if any; the fuel bounds the rounds.
\<close>

fun iterate_from ::
  "('c, 'a) lru \<Rightarrow> 'a source \<Rightarrow> nat \<Rightarrow> nat \<Rightarrow> 'c sliceable \<Rightarrow> ('a list \<times> py_exc option \<times> 'c sliceable) option" where
  "iterate_from L F 0 i s = None"
| "iterate_from L F (Suc fuel) i s =
     (case getitem_int L F (int i) s of
        (Inr y, t) \<Rightarrow> map_option (\<lambda>(ys, e, u). (y # ys, e, u)) (iterate_from L F fuel (i + 1) t)
      | (Inl e, t) \<Rightarrow> Some ([], (if e = StopIteration then None else Some e), t))"

section \<open>What holds\<close>

text \<open>What the code relies on in the cache.\<close>

definition lru_ok :: "('c, 'a) lru \<Rightarrow> bool" where
  "lru_ok L \<longleftrightarrow>
     (\<forall>c k i. lru_lookup L (lru_touch L k c) i = lru_lookup L c i) \<and>
     (\<forall>c k v i w. lru_lookup L (lru_store L k v c) i = Some w \<longrightarrow>
        (if i = k then w = v else lru_lookup L c i = Some w))"

text \<open>The cache tells the truth, and the iterator is where \<open>stop\<close> says or at its end.\<close>

definition cache_sound :: "('c, 'a) lru \<Rightarrow> 'a list \<Rightarrow> 'c \<Rightarrow> bool" where
  "cache_sound L xs c \<longleftrightarrow> (\<forall>i v. lru_lookup L c i = Some v \<longrightarrow> i < length xs \<and> v = xs ! i)"

definition sl_inv :: "('c, 'a) lru \<Rightarrow> 'a source \<Rightarrow> 'c sliceable \<Rightarrow> bool" where
  "sl_inv L F s \<longleftrightarrow> cache_sound L (so_elements F) (sl_cache s) \<and>
     (\<exists>n. sl_stop s = Some n \<and> sl_iter s = Iter (min n (length (so_elements F))))"

lemma lru_ok_touch: "lru_ok L \<Longrightarrow> lru_lookup L (lru_touch L k c) i = lru_lookup L c i"
  unfolding lru_ok_def by (elim conjE allE)

lemma lru_ok_store:
  assumes "lru_ok L" "lru_lookup L (lru_store L k v c) i = Some w"
  shows "if i = k then w = v else lru_lookup L c i = Some w"
proof -
  have "\<forall>c k v i w. lru_lookup L (lru_store L k v c) i = Some w \<longrightarrow>
        (if i = k then w = v else lru_lookup L c i = Some w)"
    using assms(1) unfolding lru_ok_def by (elim conjE)
  from this [rule_format, OF assms(2)] show ?thesis .
qed

lemma cache_sound_touch: "lru_ok L \<Longrightarrow> cache_sound L xs c \<Longrightarrow> cache_sound L xs (lru_touch L k c)"
  by (simp add: lru_ok_touch cache_sound_def)

lemma cache_sound_store:
  assumes "lru_ok L" "cache_sound L xs c" "k < length xs"
  shows "cache_sound L xs (lru_store L k (xs ! k) c)"
  unfolding cache_sound_def
proof (intro allI impI)
  fix i v assume "lru_lookup L (lru_store L k (xs ! k) c) i = Some v"
  from lru_ok_store [OF assms(1) this] show "i < length xs \<and> v = xs ! i"
    using assms(2,3) by (cases "i = k") (simp_all add: cache_sound_def)
qed

lemma next_at_ok:
  assumes L: "lru_ok L" and c: "cache_sound L (so_elements F) (sl_cache s)"
    and it: "sl_iter s = Iter (min stop (length (so_elements F)))" "stop \<le> key"
  shows "key < length (so_elements F) \<Longrightarrow>
      \<exists>t. next_at L F key stop s = (Inr (so_elements F ! key), t) \<and> sl_inv L F t"
    and "\<not> key < length (so_elements F) \<Longrightarrow>
      \<exists>t. next_at L F key stop s = (Inl (so_end F), t) \<and> sl_cache t = sl_cache s"
proof -
  let ?xs = "so_elements F"
  show "\<exists>t. next_at L F key stop s = (Inr (?xs ! key), t) \<and> sl_inv L F t" if "key < length ?xs"
    using that it cache_sound_store [OF L c that]
    by (simp add: next_at_def Let_def rest_of_def advance_def sl_inv_def)
  show "\<exists>t. next_at L F key stop s = (Inl (so_end F), t) \<and> sl_cache t = sl_cache s" if "\<not> key < length ?xs"
    using that it by (auto simp: next_at_def Let_def rest_of_def min_def)
qed

lemma getitem_int_ok:
  assumes L: "lru_ok L" and F: "so_iterator F" and I: "sl_inv L F s"
  shows "\<exists>t. getitem_int L F (int key) s =
      (if key < length (so_elements F) then Inr (so_elements F ! key) else Inl (so_end F), t) \<and>
      (key < length (so_elements F) \<or> raised F = None \<longrightarrow> sl_inv L F t)"
proof -
  let ?xs = "so_elements F"
  obtain n where c: "cache_sound L ?xs (sl_cache s)" and n: "sl_stop s = Some n" "sl_iter s = Iter (min n (length ?xs))"
    using I by (auto simp: sl_inv_def)
  show ?thesis
  proof (cases "lru_lookup L (sl_cache s) key")
    case (Some v)
    then have "key < length ?xs \<and> v = ?xs ! key" using c by (simp add: cache_sound_def)
    then show ?thesis
      using Some n cache_sound_touch [OF L c]
      by (simp add: getitem_int_def on_stop_def getitem_int0_def sl_inv_def)
  next
    case None
    let ?s = "if key < n then s\<lparr>sl_stop := Some 0, sl_iter := Iter 0\<rparr> else s"
    let ?stop = "if key < n then 0 else n"
    have run: "getitem_int0 L F (int key) s = next_at L F key ?stop ?s"
      using None n by (simp add: getitem_int0_def)
    have pre: "cache_sound L ?xs (sl_cache ?s)" "sl_iter ?s = Iter (min ?stop (length ?xs))" "?stop \<le> key"
      using c n by simp_all
    show ?thesis
    proof (cases "key < length ?xs")
      case True
      then show ?thesis using next_at_ok(1) [OF L pre] run by (auto simp: getitem_int_def on_stop_def)
    next
      case False
      then show ?thesis using next_at_ok(2) [OF L pre] run F c
        by (auto simp: getitem_int_def on_stop_def sl_inv_def raised_def)
    qed
  qed
qed

lemma new_sliceable_inv: "cache_sound L (so_elements F) c \<Longrightarrow> sl_inv L F (new_sliceable c)"
  by (simp add: sl_inv_def new_sliceable_def)

lemma iterate_from_ok:
  assumes L: "lru_ok L" and F: "so_iterator F"
  shows "sl_inv L F s \<Longrightarrow> i \<le> length (so_elements F) \<Longrightarrow> fuel > length (so_elements F) - i \<Longrightarrow>
    \<exists>t. iterate_from L F fuel i s = Some (drop i (so_elements F), raised F, t) \<and> (raised F = None \<longrightarrow> sl_inv L F t)"
proof (induction fuel arbitrary: i s)
  case 0
  then show ?case by simp
next
  case (Suc fuel)
  obtain t where t: "getitem_int L F (int i) s =
      (if i < length (so_elements F) then Inr (so_elements F ! i) else Inl (so_end F), t)"
      "i < length (so_elements F) \<or> raised F = None \<longrightarrow> sl_inv L F t"
    using getitem_int_ok [OF L F Suc.prems(1), of i] by (elim exE conjE) (rule that)
  show ?case
  proof (cases "i < length (so_elements F)")
    case True
    then obtain u where "iterate_from L F fuel (i + 1) t = Some (drop (i + 1) (so_elements F), raised F, u)"
        "raised F = None \<longrightarrow> sl_inv L F u"
      using Suc.IH [of t "i + 1"] t(2) Suc.prems by fastforce
    then show ?thesis using t True by (simp add: Cons_nth_drop_Suc)
  next
    case False
    then have "getitem_int L F (int i) s = (Inl (so_end F), t)" "drop i (so_elements F) = []" using t(1) by simp_all
    then show ?thesis using t(2) False by (simp add: raised_def)
  qed
qed

lemma islice_plain: "islice_list a (Some b) 1 xs = drop a (take b xs)"
  by (rule nth_equalityI) (auto simp: islice_list_def less_diff_conv add.commute)

lemma islice_plain_shift:
  "n \<le> a \<Longrightarrow> islice_list (a - n) (Some (b - n)) 1 (drop (min n (length xs)) xs) = drop a (take b xs)"
  unfolding islice_plain by (cases "n \<le> length xs"; cases "n \<le> b") (simp_all add: take_drop add.commute)

lemma store_run_sound:
  assumes L: "lru_ok L"
  shows "cache_sound L xs c \<Longrightarrow> cache_sound L xs (store_run L a 1 (drop a (take b xs)) c)"
proof (induction "length (drop a (take b xs))" arbitrary: a c)
  case 0
  then show ?case by simp
next
  case (Suc n)
  then have a: "a < length xs" "a < b" by auto
  then have "drop a (take b xs) = xs ! a # drop (a + 1) (take b xs)"
    by (metis Cons_nth_drop_Suc Suc_eq_plus1 length_take min_less_iff_conj nth_take)
  moreover have "n = length (drop (a + 1) (take b xs))" using Suc(2) by simp
  ultimately show ?case
    using Suc(1) [of "a + 1"] cache_sound_store [OF L Suc.prems a(1)] by simp
qed

section \<open>Properties\<close>

text \<open>
  Reading one element after the other, in whatever order, gives the elements of the
  result, and from its length on what its iterator ends with, StopIteration as a rule; such a read leaves the object ready for the
  next one, whatever the cache has forgotten. This needs a function \<open>f\<close> that returns an
  iterator.
\<close>

theorem getitem_int_correct:
  assumes "lru_ok L" "so_iterator F" "sl_inv L F s"
  shows "\<exists>t. getitem_int L F (int key) s =
      (if key < length (so_elements F) then Inr (so_elements F ! key) else Inl (so_end F), t) \<and>
      (key < length (so_elements F) \<or> raised F = None \<longrightarrow> sl_inv L F t)"
  by (rule getitem_int_ok [OF assms])

text \<open>
  Iterating over the object ends and gives all elements in their order, also when
  some of them have been read before, and then the exception of an iterator that fails.
\<close>

theorem iteration_complete:
  assumes "lru_ok L" "so_iterator F" "sl_inv L F s" "fuel > length (so_elements F)"
  shows "\<exists>t. iterate_from L F fuel 0 s = Some (so_elements F, raised F, t)"
  using iterate_from_ok [OF assms(1-3), of 0 fuel] assms(4) by auto

text \<open>
  A slice with an end gives the list's slice and leaves the object ready, as long as
  it is not empty, its first element is not in the cache and the iterator does not fail before the slice ends.
\<close>

theorem getitem_slice_correct:
  assumes "lru_ok L" "sl_inv L F s" "lru_lookup L (sl_cache s) a = None" "a < b"
    and "raised F = None \<or> b \<le> length (so_elements F)"
  shows "\<exists>t. getitem_slice L F (Some a) (Some b) None s = (Inr (drop a (take b (so_elements F))), t) \<and> sl_inv L F t"
proof -
  let ?xs = "so_elements F"
  obtain n where c: "cache_sound L ?xs (sl_cache s)" and n: "sl_stop s = Some n" "sl_iter s = Iter (min n (length ?xs))"
    using assms(2) by (auto simp: sl_inv_def)
  have run: "cached_run L (sl_cache s) (Some b) 1 (Suc (lru_maxsize L)) a = a"
    using assms(3) by simp
  have sound: "cache_sound L ?xs (store_run L a 1 (drop a (take b ?xs)) (sl_cache s))"
    by (rule store_run_sound [OF assms(1) c])
  have whole: "\<not> islice_fails F a (Some b) ?xs"
    using assms(4,5) by (auto simp: islice_fails_def)
  have left: "\<not> islice_fails F (a - n) (Some (b - n)) (drop (min n (length ?xs)) ?xs)" if "n \<le> a"
    using assms(4,5) that by (auto simp: islice_fails_def)
  consider "a < n \<and> a < b" | "n \<le> a \<and> a < b" using assms(4) by linarith
  then show ?thesis
  proof cases
    case 1
    then show ?thesis
      using n sound run assms(4) whole
      by (simp add: getitem_slice_def Let_def islice_plain [unfolded One_nat_def] islice_taken_def sl_inv_def max_absorb2 del: cached_run.simps)
  next
    case 2
    have "islice_taken (a - n) (Some (b - n)) (drop (min n (length ?xs)) ?xs) + min n (length ?xs) = min b (length ?xs)"
      using 2 by (auto simp: islice_taken_def min_def max_def)
    then show ?thesis
      using 2 n sound run left islice_plain_shift [where n = n and a = a and b = b and xs = ?xs]
      by (simp add: getitem_slice_def Let_def range_step_def rest_of_def advance_def sl_inv_def add.commute
          del: cached_run.simps)
  qed
qed

text \<open>
  A slice that the cache answers moves \<open>stop\<close> but not the iterator, so that a later
  read is off: here the element 6 is returned for the index 5.
\<close>

definition demo_lru :: "nat \<Rightarrow> ((nat \<times> 'a) list, 'a) lru" where
  "demo_lru n = \<lparr>
     lru_lookup = map_of,
     lru_touch = (\<lambda>k c. case map_of c k of None \<Rightarrow> c | Some v \<Rightarrow> (k, v) # filter (\<lambda>e. fst e \<noteq> k) c),
     lru_store = (\<lambda>k v c. take n ((k, v) # filter (\<lambda>e. fst e \<noteq> k) c)),
     lru_maxsize = n\<rparr>"

definition demo_source :: "nat source" where
  "demo_source = \<lparr>so_elements = [0, 1, 2, 3, 4, 5, 6, 7, 8, 9], so_iterator = True, so_end = StopIteration\<rparr>"

theorem cached_slice_desynchronizes:
  "let L = demo_lru 8;
       s1 = snd (getitem_slice L demo_source None (Some 3) None (new_sliceable []));
       s2 = snd (getitem_slice L demo_source None (Some 2) None s1)
   in fst (getitem_int L demo_source 5 s2) = Inr 6"
  by (simp add: getitem_slice_def islice_fails_def raised_def getitem_int_def getitem_int0_def on_stop_def next_at_def new_sliceable_def
      demo_lru_def demo_source_def Let_def islice_list_def islice_taken_def rest_of_def advance_def range_step_def
      upt_conv_Cons numeral_eq_Suc)

section \<open>Instances\<close>

lemma map_of_take:
  assumes "map_of (take n c) i = Some v"
  shows "map_of c i = Some v"
proof -
  have "map_of (take n c @ drop n c) i = Some v"
    unfolding map_of_append using assms by (simp add: map_add_Some_iff)
  then show ?thesis by simp
qed

lemma map_of_others: "map_of (filter (\<lambda>e. fst e \<noteq> k) c) i = (if i = k then None else map_of c i)"
  by (induction c) auto

lemma demo_lru_simps:
  "lru_lookup (demo_lru n) = map_of"
  "lru_store (demo_lru n) k v c = take n ((k, v) # filter (\<lambda>e. fst e \<noteq> k) c)"
  "lru_touch (demo_lru n) k c =
     (case map_of c k of None \<Rightarrow> c | Some v \<Rightarrow> (k, v) # filter (\<lambda>e. fst e \<noteq> k) c)"
  by (simp_all add: demo_lru_def)

lemma demo_lru_touch: "map_of (lru_touch (demo_lru n) k c) i = map_of c i"
  by (cases "map_of c k") (simp_all add: demo_lru_simps map_of_others)

lemma demo_lru_store:
  assumes "map_of (lru_store (demo_lru n) k v c) i = Some w"
  shows "if i = k then w = v else map_of c i = Some w"
proof -
  have "map_of ((k, v) # filter (\<lambda>e. fst e \<noteq> k) c) i = Some w"
    using assms unfolding demo_lru_simps by (rule map_of_take)
  then show ?thesis by (cases "i = k") (simp_all add: map_of_others)
qed

lemma demo_lru_ok: "lru_ok (demo_lru n)"
  unfolding lru_ok_def demo_lru_simps(1)
  by (intro conjI allI impI demo_lru_touch demo_lru_store)

lemma demo_sliceable_inv: "sl_inv (demo_lru 2) demo_source (new_sliceable [])"
  by (rule new_sliceable_inv) (simp add: cache_sound_def demo_lru_def)

lemma demo_source_iterator: "so_iterator demo_source"
  by (simp add: demo_source_def)

theorem getitem_int_correct_witness:
  "fst (getitem_int (demo_lru 2) demo_source (int 4) (new_sliceable [])) = Inr 4"
  using getitem_int_correct [OF demo_lru_ok demo_source_iterator demo_sliceable_inv, of 4]
  by (auto simp: demo_source_def)

theorem iteration_complete_witness:
  "\<exists>t. iterate_from (demo_lru 2) demo_source 11 0 (new_sliceable []) = Some ([0, 1, 2, 3, 4, 5, 6, 7, 8, 9], None, t)"
proof -
  have "(11::nat) > length (so_elements demo_source)" by (simp add: demo_source_def)
  from iteration_complete [OF demo_lru_ok demo_source_iterator demo_sliceable_inv this] show ?thesis
    by (auto simp: demo_source_def raised_def)
qed

theorem getitem_slice_correct_witness:
  "fst (getitem_slice (demo_lru 2) demo_source (Some 2) (Some 4) None (new_sliceable [])) = Inr [2, 3]"
proof -
  have c: "lru_lookup (demo_lru 2) (sl_cache (new_sliceable [])) 2 = None" "(2::nat) < 4"
    by (simp_all add: demo_lru_def new_sliceable_def)
  have "raised demo_source = None" by (simp add: raised_def demo_source_def)
  with getitem_slice_correct [OF demo_lru_ok demo_sliceable_inv c] show ?thesis
    by (auto simp: demo_source_def)
qed

end
