(* ===== verification/List_Prefetch.thy ===== *)
theory List_Prefetch
  imports Sliceable
begin

text \<open>
  The rest of zerodb/util/iter.py on top of theory Sliceable: \<open>ListPrefetch\<close>, which reads the
  next elements ahead and fetches their objects in one batch, the length of a lazy result, and
  its printed form.
\<close>

section \<open>Reading ahead\<close>

definition prefetch_size :: nat where "prefetch_size = 20"

text \<open>
  \<open>ListPrefetch.__getitem__\<close>: the element or the elements, and the objects that are fetched in
  one batch (None when nothing is). The elements of a query's result are persistent objects.
\<close>

definition tail_of :: "('c sliceable, 'a list) meth \<Rightarrow> ('c sliceable, 'a list) meth" where
  "tail_of m s = (case m s of (Inl e, t) \<Rightarrow> (if e = StopIteration then (Inr [], t) else (Inl e, t)) | (Inr ys, t) \<Rightarrow> (Inr ys, t))"

definition prefetch_int ::
  "('c, 'a) lru \<Rightarrow> 'a source \<Rightarrow> int \<Rightarrow> ('c sliceable, 'a \<times> 'a list option) meth" where
  "prefetch_int L F key s =
     (let previous_stop = sl_stop s in
      case getitem_int L F key s of
        (Inl e, t) \<Rightarrow> (Inl e, t)
      | (Inr y, t) \<Rightarrow>
          if sl_stop t \<noteq> previous_stop
          then (case tail_of (getitem_slice L F (Some (nat key + 1)) (Some (nat key + prefetch_size + 1)) None) t of
                  (r, u) \<Rightarrow> (bindr r (\<lambda>ys. Inr (y, Some (y # ys))), u))
          else (Inr (y, None), t))"

definition prefetch_slice ::
  "('c, 'a) lru \<Rightarrow> 'a source \<Rightarrow> nat option \<Rightarrow> nat option \<Rightarrow> nat option \<Rightarrow> ('c sliceable, 'a list \<times> 'a list option) meth" where
  "prefetch_slice L F start stop step s =
     (let previous_stop = sl_stop s in
      case getitem_slice L F start stop step s of
        (Inl e, t) \<Rightarrow> (Inl e, t)
      | (Inr ys, t) \<Rightarrow>
          if sl_stop t \<noteq> previous_stop
          then (case (case stop of
                   None \<Rightarrow> (Inr [], t)
                 | Some 0 \<Rightarrow> (Inr [], t)
                 | Some b \<Rightarrow> tail_of (getitem_slice L F (Some (b + 1)) (Some (b + prefetch_size + 1)) None) t) of
                  (r, u) \<Rightarrow> (bindr r (\<lambda>zs. Inr (ys, Some (ys @ zs))), u))
          else (Inr (ys, None), t))"

text \<open>
  Iteration, with the batches that are fetched meanwhile and the exception that leaves the loop,
  if any; the fuel bounds the rounds.
\<close>

fun prefetch_iterate ::
  "('c, 'a) lru \<Rightarrow> 'a source \<Rightarrow> nat \<Rightarrow> nat \<Rightarrow> 'c sliceable
     \<Rightarrow> ('a list \<times> 'a list list \<times> py_exc option \<times> 'c sliceable) option" where
  "prefetch_iterate L F 0 i s = None"
| "prefetch_iterate L F (Suc fuel) i s =
     (case prefetch_int L F (int i) s of
        (Inr (y, b), t) \<Rightarrow>
          map_option (\<lambda>(ys, bs, e, u). (y # ys, (case b of None \<Rightarrow> bs | Some x \<Rightarrow> x # bs), e, u)) (prefetch_iterate L F fuel (i + 1) t)
      | (Inl e, t) \<Rightarrow> Some ([], [], (if e = StopIteration then None else Some e), t))"

section \<open>Length and printed form\<close>

text \<open>
  \<open>__len__\<close>: a length that was given, or a function that gives it, else that of the iterator
  when it has one (it is not an iterator then), else the elements are counted.
\<close>

datatype given_length = No_Length | Length_Is nat | Length_By "unit \<Rightarrow> nat"

definition sliceable_len ::
  "('c, 'a) lru \<Rightarrow> 'a source \<Rightarrow> given_length \<Rightarrow> nat \<Rightarrow> 'c sliceable \<Rightarrow> (nat res \<times> 'c sliceable) option" where
  "sliceable_len L F len fuel s =
     (case len of
        Length_Is n \<Rightarrow> Some (Inr n, s)
      | Length_By f \<Rightarrow> Some (Inr (f ()), s)
      | No_Length \<Rightarrow>
          if sl_iter s = Reiterable then Some (Inr (length (so_elements F)), s)
          else map_option (\<lambda>(ys, e, t). (case e of None \<Rightarrow> Inr (length ys) | Some e \<Rightarrow> Inl e, t)) (iterate_from L F fuel 0 s))"

text \<open>\<open>__repr__\<close>: at most five elements, one in a line, and dots when there are more.\<close>

fun repr_lines :: "nat \<Rightarrow> nat \<Rightarrow> string list \<Rightarrow> string list" where
  "repr_lines l i [] = []"
| "repr_lines l i (r # rs) =
     ((if i = 0 then ''['' @ r else '' '' @ r) @ (if i + 1 = l then '']'' else '','')) # repr_lines l (i + 1) rs"

fun joined :: "string \<Rightarrow> string list \<Rightarrow> string" where
  "joined sep [] = []"
| "joined sep [x] = x"
| "joined sep (x # y # ys) = x @ sep @ joined sep (y # ys)"

definition repr_of :: "string list \<Rightarrow> string" where
  "repr_of reprs =
     (if length reprs \<le> 1 then ''['' @ concat reprs @ '']''
      else joined [CHR 0x0A] (repr_lines (length reprs) 0 reprs))"

definition sliceable_repr :: "('c, 'a) lru \<Rightarrow> 'a source \<Rightarrow> ('a \<Rightarrow> string) \<Rightarrow> ('c sliceable, string) meth" where
  "sliceable_repr L F repr s =
     (case getitem_slice L F None (Some 6) None s of
        (Inl e, t) \<Rightarrow> (Inl e, t)
      | (Inr first_el, t) \<Rightarrow>
          (Inr (repr_of (map repr (take 5 first_el) @ (if length first_el > 5 then [''...''] else []))), t))"

text \<open>All the lines together are the elements between brackets, however many there are.\<close>

lemma repr_lines_joined:
  "rs \<noteq> [] \<Longrightarrow> l = i + length rs \<Longrightarrow>
     joined [CHR 0x0A] (repr_lines l i rs) = (if i = 0 then ''['' else '' '') @ joined ('','' @ [CHR 0x0A] @ '' '') rs @ '']''"
proof (induction rs arbitrary: i)
  case (Cons r rs)
  show ?case
  proof (cases rs)
    case Nil
    then show ?thesis using Cons.prems(2) by simp
  next
    case (Cons x xs)
    have "joined [CHR 0x0A] (repr_lines l (i + 1) rs) = '' '' @ joined ('','' @ [CHR 0x0A] @ '' '') rs @ '']''"
      using Cons.IH [of "i + 1"] Cons.prems(2) Cons by simp
    then show ?thesis using Cons Cons.prems(2) by simp
  qed
qed simp

lemma repr_of_joined: "repr_of rs = ''['' @ joined ('','' @ [CHR 0x0A] @ '' '') rs @ '']''"
proof (cases "length rs \<le> 1")
  case True
  then show ?thesis by (cases rs) (simp_all add: repr_of_def)
next
  case False
  then have "rs \<noteq> []" by auto
  from repr_lines_joined [OF this, of "length rs" 0] False show ?thesis by (simp add: repr_of_def)
qed

section \<open>A cache that forgets nothing\<close>

text \<open>
  What the code relies on in the cache as long as everything fits: storing keeps the other
  entries. \<open>I\<close> is what the cache maintains of itself.
\<close>

definition lru_keeps :: "('c, 'a) lru \<Rightarrow> ('c \<Rightarrow> bool) \<Rightarrow> bool" where
  "lru_keeps L I \<longleftrightarrow> (\<forall>c k v. I c \<longrightarrow>
     I (lru_touch L k c) \<and> lru_lookup L (lru_touch L k c) = lru_lookup L c \<and>
     (finite (dom (lru_lookup L c)) \<longrightarrow> card (insert k (dom (lru_lookup L c))) \<le> lru_maxsize L \<longrightarrow>
        I (lru_store L k v c) \<and> lru_lookup L (lru_store L k v c) = (lru_lookup L c)(k \<mapsto> v)))"

definition first_cached :: "('c, 'a) lru \<Rightarrow> ('c \<Rightarrow> bool) \<Rightarrow> 'a list \<Rightarrow> nat \<Rightarrow> 'c \<Rightarrow> bool" where
  "first_cached L I xs m c \<longleftrightarrow> I c \<and> lru_lookup L c = (\<lambda>i. if i < min m (length xs) then Some (xs ! i) else None)"

definition read_to :: "('c, 'a) lru \<Rightarrow> ('c \<Rightarrow> bool) \<Rightarrow> 'a list \<Rightarrow> nat \<Rightarrow> 'c sliceable \<Rightarrow> bool" where
  "read_to L I xs m s \<longleftrightarrow> first_cached L I xs m (sl_cache s) \<and> sl_stop s = Some m \<and> sl_iter s = Iter (min m (length xs))"

lemma first_cached_touch: "lru_keeps L I \<Longrightarrow> first_cached L I xs m c \<Longrightarrow> first_cached L I xs m (lru_touch L k c)"
  by (simp add: lru_keeps_def first_cached_def)

lemma first_cached_store:
  assumes "lru_keeps L I" "length xs \<le> lru_maxsize L" "first_cached L I xs m c" "m < length xs"
  shows "first_cached L I xs (m + 1) (lru_store L m (xs ! m) c)"
proof -
  have dom: "dom (lru_lookup L c) = {..<m}" using assms(3,4) by (auto simp: first_cached_def split: if_splits)
  moreover have "insert m {..<m} = {..<Suc m}" by auto
  ultimately have "I (lru_store L m (xs ! m) c) \<and> lru_lookup L (lru_store L m (xs ! m) c) = (lru_lookup L c)(m \<mapsto> xs ! m)"
    using assms unfolding lru_keeps_def first_cached_def by auto
  then show ?thesis using assms(3,4) by (auto simp: first_cached_def fun_eq_iff)
qed

lemma first_cached_run:
  assumes "lru_keeps L I" "length xs \<le> lru_maxsize L"
  shows "first_cached L I xs a c \<Longrightarrow> a \<le> b \<Longrightarrow> first_cached L I xs b (store_run L a 1 (drop a (take b xs)) c)"
proof (induction "length (drop a (take b xs))" arbitrary: a c)
  case 0
  then have "min a (length xs) = min b (length xs)" by auto
  then show ?case using 0 by (simp add: first_cached_def)
next
  case (Suc n)
  then have a: "a < length xs" "a < b" by auto
  then have "drop a (take b xs) = xs ! a # drop (a + 1) (take b xs)"
    by (metis Cons_nth_drop_Suc Suc_eq_plus1 length_take min_less_iff_conj nth_take)
  moreover have "n = length (drop (a + 1) (take b xs))" using Suc(2) by simp
  ultimately show ?case
    using Suc(1) [of "a + 1"] first_cached_store [OF assms Suc.prems(1) a(1)] a(2) by simp
qed

lemma read_to_cached:
  assumes L: "lru_keeps L I" and s: "read_to L I (so_elements F) m s" and i: "i < min m (length (so_elements F))"
  shows "\<exists>t. prefetch_int L F (int i) s = (Inr (so_elements F ! i, None), t) \<and> read_to L I (so_elements F) m t"
proof -
  have "lru_lookup L (sl_cache s) i = Some (so_elements F ! i)" using s i by (simp add: read_to_def first_cached_def)
  then have "getitem_int L F (int i) s = (Inr (so_elements F ! i), s\<lparr>sl_cache := lru_touch L i (sl_cache s)\<rparr>)"
    by (simp add: getitem_int_def getitem_int0_def on_stop_def)
  then show ?thesis using s first_cached_touch [OF L] by (auto simp: prefetch_int_def read_to_def)
qed

lemma read_to_slice:
  assumes L: "lru_keeps L I" "length (so_elements F) \<le> lru_maxsize L" and s: "read_to L I (so_elements F) m s" and b: "m < b"
  shows "\<exists>t. getitem_slice L F (Some m) (Some b) None s =
      (if raised F \<noteq> None \<and> length (so_elements F) < b then Inl (so_end F) else Inr (drop m (take b (so_elements F))), t) \<and>
    (raised F = None \<or> b \<le> length (so_elements F) \<longrightarrow> read_to L I (so_elements F) b t)"
proof -
  let ?xs = "so_elements F"
  have c: "first_cached L I ?xs m (sl_cache s)" and n: "sl_stop s = Some m" "sl_iter s = Iter (min m (length ?xs))"
    using s by (simp_all add: read_to_def)
  have run: "cached_run L (sl_cache s) (Some b) 1 (Suc (lru_maxsize L)) m = m"
    using c by (simp add: first_cached_def)
  have "islice_taken 0 (Some (b - m)) (drop (min m (length ?xs)) ?xs) + min m (length ?xs) = min b (length ?xs)"
    using b by (auto simp: islice_taken_def min_def max_def)
  moreover have "islice_fails F 0 (Some (b - m)) (drop (min m (length ?xs)) ?xs) \<longleftrightarrow> raised F \<noteq> None \<and> length ?xs < b"
    using b by (auto simp: islice_fails_def)
  ultimately show ?thesis
    using n run b first_cached_run [OF L c, of b] islice_plain_shift [where n = m and a = m and b = b and xs = ?xs]
    by (simp add: getitem_slice_def Let_def range_step_def rest_of_def advance_def read_to_def add.commute
        del: cached_run.simps)
qed

lemma read_to_next:
  assumes L: "lru_keeps L I" "length (so_elements F) \<le> lru_maxsize L" and s: "read_to L I (so_elements F) m s"
    and m: "m < length (so_elements F)"
  shows "\<exists>t. prefetch_int L F (int m) s =
      (if raised F \<noteq> None \<and> length (so_elements F) < m + 21 then Inl (so_end F)
       else Inr (so_elements F ! m, Some (take 21 (drop m (so_elements F)))), t) \<and>
    (raised F = None \<or> m + 21 \<le> length (so_elements F) \<longrightarrow> read_to L I (so_elements F) (m + 21) t)"
proof -
  let ?xs = "so_elements F"
  let ?t = "s\<lparr>sl_iter := Iter (m + 1), sl_cache := lru_store L m (?xs ! m) (sl_cache s), sl_stop := Some (m + 1)\<rparr>"
  have c: "first_cached L I ?xs m (sl_cache s)" and n: "sl_stop s = Some m" "sl_iter s = Iter m"
    using s m by (simp_all add: read_to_def)
  have g: "getitem_int L F (int m) s = (Inr (?xs ! m), ?t)"
    using c n m by (simp add: getitem_int_def getitem_int0_def on_stop_def first_cached_def next_at_def rest_of_def advance_def)
  have "read_to L I ?xs (m + 1) ?t" using first_cached_store [OF L c m] m by (simp add: read_to_def)
  from read_to_slice [OF L this, of "m + 21"] obtain u where
    u: "getitem_slice L F (Some (m + 1)) (Some (m + 21)) None ?t =
        (if raised F \<noteq> None \<and> length ?xs < m + 21 then Inl (so_end F) else Inr (drop (m + 1) (take (m + 21) ?xs)), u)"
      "raised F = None \<or> m + 21 \<le> length ?xs \<longrightarrow> read_to L I ?xs (m + 21) u" by auto
  have "?xs ! m # drop (m + 1) (take (m + 21) ?xs) = drop m (take (m + 21) ?xs)"
    using m by (metis Cons_nth_drop_Suc Suc_eq_plus1 add_lessD1 length_take less_add_same_cancel1 min_less_iff_conj
        nth_take zero_less_numeral)
  then show ?thesis
    using g u n(1) by (auto simp: prefetch_int_def tail_of_def prefetch_size_def take_drop add.commute numeral_eq_Suc
        raised_def)
qed

lemma read_to_end:
  assumes "read_to L I (so_elements F) m s" "length (so_elements F) \<le> m"
  shows "\<exists>t. prefetch_int L F (int (length (so_elements F))) s = (Inl (so_end F), t)"
proof -
  have "lru_lookup L (sl_cache s) (length (so_elements F)) = None" "sl_stop s = Some m" "sl_iter s = Iter (length (so_elements F))"
    using assms by (simp_all add: read_to_def first_cached_def)
  then show ?thesis
    by (auto simp: prefetch_int_def getitem_int_def getitem_int0_def on_stop_def next_at_def rest_of_def)
qed

text \<open>The batches: the elements in pieces of twenty-one.\<close>

function pieces :: "nat \<Rightarrow> 'a list \<Rightarrow> 'a list list" where
  "pieces n xs = (if xs = [] \<or> n = 0 then [] else take n xs # pieces n (drop n xs))"
  by pat_completeness auto
termination by (relation "measure (\<lambda>(n, xs). length xs)") auto

declare pieces.simps [simp del]

text \<open>
  The elements that come out after the first \<open>m\<close> have been read: all of them, or, when the iterator fails
  at its end, those of whole batches.
\<close>

definition yielded :: "'a source \<Rightarrow> nat \<Rightarrow> 'a list" where
  "yielded F m = (if raised F = None then so_elements F
     else take (m + 21 * ((length (so_elements F) - m) div 21)) (so_elements F))"

lemma yielded_block:
  assumes "m + 21 \<le> length (so_elements F) \<or> raised F = None"
  shows "yielded F (m + 21) = yielded F m"
proof (cases "raised F = None")
  case False
  then have "length (so_elements F) - m = (length (so_elements F) - (m + 21)) + 21" using assms by auto
  then have "(length (so_elements F) - m) div 21 = (length (so_elements F) - (m + 21)) div 21 + 1"
    by (metis div_add_self2 zero_neq_numeral)
  then show ?thesis by (simp add: yielded_def algebra_simps)
qed (simp add: yielded_def)

lemma yielded_stuck:
  assumes "raised F \<noteq> None" "length (so_elements F) < m + 21"
  shows "yielded F m = take m (so_elements F)"
proof -
  have "(length (so_elements F) - m) div 21 = 0" using assms(2) by simp
  then show ?thesis using assms(1) unfolding yielded_def by (simp del: not_None_eq)
qed

lemma yielded_first: "m \<le> length (so_elements F) \<Longrightarrow> m \<le> length (yielded F m)"
  by (auto simp: yielded_def)

lemma yielded_nth: "i < length (yielded F m) \<Longrightarrow> yielded F m ! i = so_elements F ! i"
  by (simp add: yielded_def split: if_splits)

lemma prefetch_iterate_ok:
  assumes L: "lru_keeps L I" "length (so_elements F) \<le> lru_maxsize L"
  shows "read_to L I (so_elements F) m s \<Longrightarrow> i \<le> m \<Longrightarrow> i \<le> length (so_elements F) \<Longrightarrow>
    raised F = None \<or> m \<le> length (so_elements F) \<Longrightarrow> fuel > length (so_elements F) - i \<Longrightarrow>
    \<exists>t. prefetch_iterate L F fuel i s = Some (drop i (yielded F m), pieces 21 (drop m (yielded F m)), raised F, t)"
proof (induction fuel arbitrary: i m s)
  case 0
  then show ?case by simp
next
  case (Suc fuel)
  let ?xs = "so_elements F" and ?n = "length (so_elements F)"
  consider "i < min m ?n" | "i = m \<and> m < ?n \<and> (raised F = None \<or> m + 21 \<le> ?n)" | "i = m \<and> m < ?n \<and> raised F \<noteq> None \<and> ?n < m + 21"
    | "i = ?n \<and> ?n \<le> m"
    using Suc.prems(2,3) by linarith
  then show ?case
  proof cases
    case 1
    then obtain t where t: "prefetch_int L F (int i) s = (Inr (?xs ! i, None), t)" "read_to L I ?xs m t"
      using read_to_cached [OF L(1) Suc.prems(1)] by blast
    have "i + 1 \<le> m" "i + 1 \<le> ?n" "?n - (i + 1) < fuel" using Suc.prems(5) 1 by auto
    from Suc.IH [OF t(2) this(1,2) Suc.prems(4) this(3)]
    obtain u where u: "prefetch_iterate L F fuel (i + 1) t =
        Some (drop (i + 1) (yielded F m), pieces 21 (drop m (yielded F m)), raised F, u)" by blast
    have "i < length (yielded F m)" using 1 yielded_first [of m F] Suc.prems(4) by (auto simp: yielded_def)
    from Cons_nth_drop_Suc [OF this] yielded_nth [OF this] show ?thesis using t(1) u by simp
  next
    case 2
    then obtain t where t: "prefetch_int L F (int i) s = (Inr (?xs ! i, Some (take 21 (drop m ?xs))), t)" "read_to L I ?xs (m + 21) t"
      using read_to_next [OF L Suc.prems(1)] by (auto split: if_splits)
    have "i + 1 \<le> m + 21" "i + 1 \<le> ?n" "raised F = None \<or> m + 21 \<le> ?n" "?n - (i + 1) < fuel" using Suc.prems(5) 2 by auto
    from Suc.IH [OF t(2) this]
    obtain u where u: "prefetch_iterate L F fuel (i + 1) t =
        Some (drop (i + 1) (yielded F m), pieces 21 (drop (m + 21) (yielded F m)), raised F, u)"
      using yielded_block [of m F] 2 by auto
    have same: "take 21 (drop m (yielded F m)) = take 21 (drop m ?xs)" and len: "m < length (yielded F m)"
    proof -
      have "m + 21 \<le> length (yielded F (m + 21))" if "raised F \<noteq> None" using yielded_first [of "m + 21" F] 2 that by blast
      then have long: "m + 21 \<le> length (yielded F m) \<or> raised F = None" using yielded_block [of m F] 2 by auto
      then show "m < length (yielded F m)" using 2 by (auto simp: yielded_def)
      obtain k where k: "yielded F m = ?xs \<or> yielded F m = take k ?xs" unfolding yielded_def by metis
      show "take 21 (drop m (yielded F m)) = take 21 (drop m ?xs)"
      proof (cases "raised F = None")
        case False
        with k long have "yielded F m = ?xs \<or> yielded F m = take k ?xs \<and> m + 21 \<le> k" by auto
        then show ?thesis by (auto simp: take_drop min_def)
      qed (simp add: yielded_def)
    qed
    have "pieces 21 (drop m (yielded F m)) = take 21 (drop m ?xs) # pieces 21 (drop (m + 21) (yielded F m))"
      using len same by (subst pieces.simps) (simp add: add.commute)
    then show ?thesis using t(1) u 2 Cons_nth_drop_Suc [OF len] yielded_nth [OF len] by simp
  next
    case 3
    then obtain t where "prefetch_int L F (int i) s = (Inl (so_end F), t)" using read_to_next [OF L Suc.prems(1)] by auto
    then show ?thesis using 3 yielded_stuck [of F m] by (simp add: pieces.simps raised_def split: if_splits)
  next
    case 4
    then obtain t where "prefetch_int L F (int i) s = (Inl (so_end F), t)" using read_to_end [OF Suc.prems(1)] by auto
    moreover have "length (yielded F m) \<le> i" using 4 by (simp add: yielded_def)
    ultimately show ?thesis using 4 by (simp add: pieces.simps raised_def)
  qed
qed

section \<open>Properties\<close>

text \<open>
  C35: Iterating a new prefetching result that fits into the cache gives each element once in order,
  and meanwhile its objects are fetched in consecutive batches of twenty-one, each before its
  second element is reached: every object is in exactly one batch. When the iterator fails after some
  elements, the exception comes out after the last whole batch, so that the elements read ahead are lost.
\<close>

theorem prefetch_iteration_complete:
  assumes "lru_keeps L I" "length (so_elements F) \<le> lru_maxsize L" "I c" "lru_lookup L c = Map.empty"
    and "fuel > length (so_elements F)"
  shows "\<exists>t ys. ys = (if raised F = None then so_elements F
      else take (21 * (length (so_elements F) div 21)) (so_elements F)) \<and>
    prefetch_iterate L F fuel 0 (new_sliceable c) = Some (ys, pieces 21 ys, raised F, t)"
  using prefetch_iterate_ok [OF assms(1,2), of 0 "new_sliceable c" 0 fuel] assms(3-5)
  by (auto simp: read_to_def first_cached_def new_sliceable_def yielded_def)

lemma demo_lru_keeps: "lru_keeps (demo_lru n) (\<lambda>c. distinct (map fst c))"
  unfolding lru_keeps_def
proof (intro allI impI conjI)
  fix c :: "(nat \<times> 'a) list" and k and v :: 'a
  assume c: "distinct (map fst c)"
  have others: "distinct (map fst (filter (\<lambda>e. fst e \<noteq> k) c))" by (simp add: c distinct_map_filter)
  show "distinct (map fst (lru_touch (demo_lru n) k c))"
    using others c by (auto simp: demo_lru_simps split: option.splits)
  show "lru_lookup (demo_lru n) (lru_touch (demo_lru n) k c) = lru_lookup (demo_lru n) c"
    by (simp add: fun_eq_iff demo_lru_touch demo_lru_simps(1))
  assume "card (insert k (dom (lru_lookup (demo_lru n) c))) \<le> lru_maxsize (demo_lru n)"
  then have card: "card (insert k (fst ` set c)) \<le> n" by (simp add: demo_lru_def dom_map_of_conv_image_fst)
  have "fst ` set ((k, v) # filter (\<lambda>e. fst e \<noteq> k) c) = insert k (fst ` set c)" by force
  moreover have "distinct (map fst ((k, v) # filter (\<lambda>e. fst e \<noteq> k) c))" using others by auto
  ultimately have "length ((k, v) # filter (\<lambda>e. fst e \<noteq> k) c) \<le> n"
    using card by (metis distinct_card length_map list.set_map)
  then have "lru_store (demo_lru n) k v c = (k, v) # filter (\<lambda>e. fst e \<noteq> k) c" by (simp add: demo_lru_simps)
  then show "distinct (map fst (lru_store (demo_lru n) k v c))"
    "lru_lookup (demo_lru n) (lru_store (demo_lru n) k v c) = (lru_lookup (demo_lru n) c)(k \<mapsto> v)"
    using others by (auto simp: demo_lru_simps(1) map_of_others fun_eq_iff)
qed

lemma prefetch_iteration_complete_witness:
  "\<exists>t. prefetch_iterate (demo_lru 100) \<lparr>so_elements = [0..<50], so_iterator = True, so_end = StopIteration\<rparr> 51 0 (new_sliceable []) =
     Some ([0..<50], [[0..<21], [21..<42], [42..<50]], None, t)"
proof -
  let ?F = "\<lparr>so_elements = [0..<50], so_iterator = True, so_end = StopIteration\<rparr>"
  have "length (so_elements ?F) \<le> lru_maxsize (demo_lru 100)" "lru_lookup (demo_lru 100) [] = Map.empty"
    "(51 :: nat) > length (so_elements ?F)" by (simp_all add: demo_lru_def)
  moreover have "pieces 21 [0..<50] = [[0..<21], [21..<42], [42..<50]]"
    by (simp add: pieces.simps take_upt drop_upt)
  moreover have "raised ?F = None" by (simp add: raised_def)
  ultimately show ?thesis using prefetch_iteration_complete [OF demo_lru_keeps, of ?F 100 "[]" 51] by simp
qed

end
