(* ===== verification/Query_Results.thy ===== *)
theory Query_Results
  imports Db List_Prefetch
begin

text \<open>
  The objects of a query without a limit (\<open>DBList\<close> and \<open>DBListPrefetch\<close> of zerodb/util/iter.py): a
  lazy result over the ids that the catalog finds (theories Sliceable and List_Prefetch),
  each looked up in the store when it is read. Also \<open>SubConnection.setstate\<close> of zerodb/db.py,
  which keeps an object's id when its state is loaded, and a model read as a list.
\<close>

section \<open>Lazy results of the database\<close>

text \<open>
  \<open>imap(get_object, ids)\<close>: the objects, each of which is told its id, up to an id that is not
  stored, and the exception there. \<open>DBList\<close> takes the size of the result from the query.
\<close>

fun dblist_objects :: "int list \<Rightarrow> ('o, 'a, 'c) dbm \<Rightarrow> 'o list \<times> py_exc option \<times> ('o, 'a, 'c) dbm" where
  "dblist_objects [] s = ([], None, s)"
| "dblist_objects (uid # uids) s =
     (case store_getitem uid (dm_store s) of
        Inl e \<Rightarrow> ([], Some e, s)
      | Inr obj \<Rightarrow> (case dblist_objects uids (set_uid obj uid s) of (objs, e, t) \<Rightarrow> (obj # objs, e, t)))"

definition dblist_source :: "('o, 'a, 'c) dbm \<Rightarrow> int list \<Rightarrow> 'o source" where
  "dblist_source s uids =
     (case dblist_objects uids s of (objs, e, _) \<Rightarrow>
        \<lparr>so_elements = objs, so_iterator = True, so_end = (case e of None \<Rightarrow> StopIteration | Some e \<Rightarrow> e)\<rparr>)"

definition dblist_length :: "result_size option \<Rightarrow> given_length" where
  "dblist_length sz = (case sz of None \<Rightarrow> No_Length | Some (n, _) \<Rightarrow> Length_Is n)"

text \<open>
  All elements of a query's lazy result; \<open>prefetch\<close> chooses \<open>DBListPrefetch\<close>. An exception that leaves the
  loop takes the place of the list. None is for fuel that runs out.
\<close>

definition lazy_list ::
  "('c, 'o) lru \<Rightarrow> bool \<Rightarrow> nat \<Rightarrow> 'c \<Rightarrow> ('o, 'a, 'd) dbm \<Rightarrow> int list \<Rightarrow> 'o list res option" where
  "lazy_list L prefetch fuel cache s uids =
     (let F = dblist_source s uids; outcome = (\<lambda>ys e. case e of None \<Rightarrow> Inr ys | Some e \<Rightarrow> Inl e) in
      if prefetch then map_option (\<lambda>(ys, bs, e, t). outcome ys e) (prefetch_iterate L F fuel 0 (new_sliceable cache))
      else map_option (\<lambda>(ys, e, t). outcome ys e) (iterate_from L F fuel 0 (new_sliceable cache)))"

text \<open>
  A query, and then all of its result; afterwards the objects that were read know their ids.
  \<open>result_len\<close> is \<open>len\<close> of the result, which reads a lazy one unless the catalog has given its size.
\<close>

definition read_query ::
  "('c, 'o) lru \<Rightarrow> bool \<Rightarrow> nat \<Rightarrow> 'c \<Rightarrow> ('q, 'n) query_engine \<Rightarrow> 'q option \<Rightarrow> nat option \<Rightarrow> nat option
     \<Rightarrow> (string \<times> 'n kw_arg) list \<Rightarrow> ('o, 'a, 'd) dbm \<Rightarrow> ('o list res \<times> ('o, 'a, 'd) dbm) option" where
  "read_query L prefetch fuel cache E queryobj skip limit kw s =
     (case db_query E queryobj skip limit kw s of
        (Inl e, t) \<Rightarrow> Some (Inl e, t)
      | (Inr (Objects objs), t) \<Rightarrow> Some (Inr objs, t)
      | (Inr (Lazy_Ids sz ids), t) \<Rightarrow>
          map_option (\<lambda>r. (r, snd (snd (dblist_objects ids t)))) (lazy_list L prefetch fuel cache t ids))"

definition result_len ::
  "('c, 'o) lru \<Rightarrow> bool \<Rightarrow> nat \<Rightarrow> 'c \<Rightarrow> ('o, 'a, 'd) dbm \<Rightarrow> 'o query_result \<Rightarrow> nat res option" where
  "result_len L prefetch fuel cache s result =
     (case result of
        Objects objs \<Rightarrow> Some (Inr (length objs))
      | Lazy_Ids sz ids \<Rightarrow>
          (case dblist_length sz of
             Length_Is n \<Rightarrow> Some (Inr n)
           | _ \<Rightarrow> map_option (\<lambda>r. bindr r (\<lambda>ys. Inr (length ys))) (lazy_list L prefetch fuel cache s ids)))"

section \<open>A model as a list\<close>

text \<open>
  \<open>__getitem__\<close> of a \<open>DbModel\<close>: an id, a tuple, a list or a set of ids, or anything else. The second
  part of the result are the objects that are fetched in one batch.
\<close>

datatype getitem_arg = One_Uid int | Many_Uids "int list" | Other_Arg

datatype 'o getitem_result = One_Object 'o | Many_Objects "'o list"

definition dbmodel_getitem :: "getitem_arg \<Rightarrow> (('o, 'a, 'c) dbm, 'o getitem_result \<times> 'o list) meth" where
  "dbmodel_getitem arg s =
     (case arg of
        One_Uid uid \<Rightarrow> m_bind (db_getitem uid) (\<lambda>obj. m_return (One_Object obj, [])) s
      | Many_Uids uids \<Rightarrow> m_bind (db_getitems uids) (\<lambda>objs. m_return (Many_Objects objs, objs)) s
      | Other_Arg \<Rightarrow> (Inl ModelException, s))"

text \<open>\<open>all_uids\<close> goes through the keys of the store's BTree in their order.\<close>

definition all_uids :: "('o, 'a, 'c) dbm \<Rightarrow> int list" where
  "all_uids s = sorted_list_of_set (dom (is_tree (dm_store s)))"

fun all_objects :: "int list \<Rightarrow> (('o, 'a, 'c) dbm, 'o list) meth" where
  "all_objects [] = m_return []"
| "all_objects (uid # uids) =
     m_bind (db_getitem uid) (\<lambda>obj. m_bind (all_objects uids) (\<lambda>objs. m_return (obj # objs)))"

definition db_all :: "(('o, 'a, 'c) dbm, 'o list) meth" where
  "db_all s = all_objects (all_uids s) s"

definition db_len :: "('o, 'a, 'c) dbm \<Rightarrow> int \<times> ('o, 'a, 'c) dbm" where
  "db_len s = (case store_len (dm_store s) of (n, st) \<Rightarrow> (n, s\<lparr>dm_store := st\<rparr>))"

text \<open>\<open>setstate\<close>: the base class loads the state, which may take away the id.\<close>

definition sub_setstate :: "('v object \<Rightarrow> 'v object res) \<Rightarrow> 'v object \<Rightarrow> 'v object res" where
  "sub_setstate super obj =
     bindr (super obj) (\<lambda>x. Inr (case ob_uid obj of Some (Some uid) \<Rightarrow> x\<lparr>ob_uid := Some (Some uid)\<rparr> | _ \<Rightarrow> x))"

lemma sub_setstate_keeps_uid:
  "sub_setstate super obj = Inr x \<Longrightarrow> ob_uid obj = Some (Some uid) \<Longrightarrow> ob_uid x = Some (Some uid)"
  by (auto simp: sub_setstate_def bindr_eq_Inr)

section \<open>Lazy and limited queries agree\<close>

lemma dblist_objects_found:
  "dblist_objects uids s = (objs, e, t) \<Longrightarrow> (let found = takeWhile (\<lambda>d. d \<in> dom (stored s)) uids in
     objs = map (\<lambda>d. the (stored s d)) found \<and> e = (if found = uids then None else Some KeyError) \<and> told s found t)"
proof (induction uids arbitrary: s objs e t)
  case Nil
  then show ?case by (simp add: told_nothing)
next
  case (Cons uid uids)
  show ?case
  proof (cases "stored s uid")
    case None
    then show ?thesis using Cons.prems by (auto simp: store_getitem_def stored_def [symmetric] told_nothing)
  next
    case (Some obj)
    obtain ys x u where r: "dblist_objects uids (set_uid obj uid s) = (ys, x, u)" by (cases "dblist_objects uids (set_uid obj uid s)")
    then have eq: "objs = obj # ys" "e = x" "t = u"
      using Cons.prems Some by (simp_all add: store_getitem_def stored_def [symmetric])
    from Cons.IH [OF r] told_one_more [OF Some] show ?thesis using Some eq by (auto simp: Let_def)
  qed
qed

lemma take_while_all: "takeWhile (\<lambda>d. d \<in> A) xs = xs \<longleftrightarrow> set xs \<subseteq> A"
  by (metis set_takeWhileD subsetD subsetI takeWhile_eq_all_conv)

lemma lazy_list_ok:
  assumes L: "lru_ok L" "lru_keeps L I" "length uids \<le> lru_maxsize L" "I c" "lru_lookup L c = Map.empty"
    and fuel: "fuel > length uids"
  shows "lazy_list L prefetch fuel c s uids =
    Some (if set uids \<subseteq> dom (stored s) then Inr (map (\<lambda>d. the (stored s d)) uids) else Inl KeyError)"
proof -
  let ?F = "dblist_source s uids" and ?found = "takeWhile (\<lambda>d. d \<in> dom (stored s)) uids"
  obtain objs e t where run: "dblist_objects uids s = (objs, e, t)" by (cases "dblist_objects uids s")
  have F: "so_elements ?F = map (\<lambda>d. the (stored s d)) ?found" "so_iterator ?F"
      "raised ?F = (if set uids \<subseteq> dom (stored s) then None else Some KeyError)"
    using dblist_objects_found [OF run] by (auto simp: dblist_source_def run Let_def raised_def take_while_all)
  have len: "length (so_elements ?F) \<le> length uids" unfolding F(1) by (simp add: length_takeWhile_le)
  have start: "read_to L I (so_elements ?F) 0 (new_sliceable c)" "sl_inv L ?F (new_sliceable c)"
    using L(4,5) by (simp_all add: read_to_def first_cached_def new_sliceable_def sl_inv_def cache_sound_def)
  obtain t1 where 1: "prefetch_iterate L ?F fuel 0 (new_sliceable c) =
      Some (yielded ?F 0, pieces 21 (yielded ?F 0), raised ?F, t1)"
    using prefetch_iterate_ok [OF L(2) _ start(1), of 0 fuel] L(3) fuel len by auto
  obtain t2 where 2: "iterate_from L ?F fuel 0 (new_sliceable c) = Some (so_elements ?F, raised ?F, t2)"
    using iterate_from_ok [OF L(1) F(2) start(2), of 0 fuel] fuel len by auto
  show ?thesis
  proof (cases "set uids \<subseteq> dom (stored s)")
    case True
    then have "?found = uids" by (simp only: take_while_all)
    then have "so_elements ?F = map (\<lambda>d. the (stored s d)) uids" using F(1) by (simp only:)
    moreover have "raised ?F = None" "yielded ?F 0 = so_elements ?F"
      using True F(3) by (simp_all add: yielded_def)
    ultimately show ?thesis using 1 2 True by (simp add: lazy_list_def Let_def)
  next
    case False
    then show ?thesis using 1 2 F(3) by (simp add: lazy_list_def Let_def)
  qed
qed

text \<open>
  In a model in step, \<open>all\<close> gives each stored object once and changes nothing, and \<open>len\<close> is their
  number.
\<close>

lemma all_objects_linked:
  "linked s \<Longrightarrow> set uids \<subseteq> dom (is_tree (dm_store s)) \<Longrightarrow>
     all_objects uids s = (Inr (map (\<lambda>d. the (is_tree (dm_store s) d)) uids), s)"
proof (induction uids)
  case (Cons uid uids)
  then obtain obj where obj: "is_tree (dm_store s) uid = Some obj" by auto
  then have "keep_uid obj uid s = s" using keep_uid_same [OF Cons.prems(1)] by (simp add: stored_def)
  then show ?case using Cons obj by (simp add: m_bind_def db_getitem_def store_getitem_def meth_simps)
qed (simp add: meth_simps)

lemma db_all_linked:
  assumes s: "linked s"
  shows "\<exists>objs. db_all s = (Inr objs, s) \<and> distinct objs \<and> set objs = ran (is_tree (dm_store s)) \<and>
    int (length objs) = fst (db_len s)"
proof -
  let ?t = "is_tree (dm_store s)" and ?objs = "map (\<lambda>d. the (is_tree (dm_store s) d)) (all_uids s)"
  have inv: "store_inv (dm_store s)" and fin: "finite (dom ?t)" using s by (simp_all add: linked_def store_inv_def)
  have uids: "set (all_uids s) = dom ?t" "distinct (all_uids s)" "length (all_uids s) = card (dom ?t)"
    using fin by (simp_all add: all_uids_def)
  have "inj_on (\<lambda>d. the (?t d)) (dom ?t)"
    using linked_unique [OF s] by (fastforce simp: inj_on_def stored_def)
  then have "distinct ?objs" using uids by (simp add: distinct_map)
  moreover have "set ?objs = ran ?t" using uids(1) by (force simp: ran_def)
  moreover have "db_all s = (Inr ?objs, s)" using all_objects_linked [OF s] uids(1) by (simp add: db_all_def)
  moreover have "int (length ?objs) = fst (db_len s)"
    using inv uids(3) by (auto simp: db_len_def store_len_def ensure_length_def store_inv_def Let_def split: option.splits)
  ultimately show ?thesis by blast
qed

section \<open>Properties\<close>

text \<open>
  C25: Reading the whole lazy result of a query that fits into the cache ends, and gives the objects of
  the ids in their order, with and without reading ahead, each of which knows its id then; its length is the size that
  the catalog gave, or the number of the objects. The result of the same query with a
  limit is the page of that list. At an id that is not stored the reading raises, after the objects before it were
  told their ids.
\<close>

theorem lazy_query_agrees:
  assumes E: "sorts_itself E finds index_sort" "sorts_first index_sort"
    and full: "qe_run E (full_query E queryobj kw) (query_options None kw) = Inr (sz, ids)" "''limit'' \<notin> fst ` set kw"
    and k: "k = (case skip of None \<Rightarrow> 0 | Some n \<Rightarrow> n)"
    and L: "lru_ok L" "lru_keeps L I" "length ids \<le> lru_maxsize L" "I c" "lru_lookup L c = Map.empty"
    and fuel: "fuel > length ids"
  shows "if set ids \<subseteq> dom (stored s)
    then \<exists>objs s'. objs = map (\<lambda>d. the (stored s d)) ids \<and>
      read_query L prefetch fuel c E queryobj skip None kw s = Some (Inr objs, s') \<and> told s ids s' \<and>
      result_len L prefetch fuel c s (Lazy_Ids sz ids) = Some (Inr (case sz of None \<Rightarrow> length objs | Some (n, _) \<Rightarrow> n)) \<and>
      (l > 0 \<longrightarrow> (\<exists>s''. read_query L prefetch fuel c E queryobj skip (Some l) kw s = Some (Inr (take l (drop k objs)), s'') \<and>
         told s (take l (drop k ids)) s''))
    else \<exists>s'. read_query L prefetch fuel c E queryobj skip None kw s = Some (Inl KeyError, s') \<and>
      told s (takeWhile (\<lambda>d. d \<in> dom (stored s)) ids) s'"
proof -
  obtain objs e t where run: "dblist_objects ids s = (objs, e, t)" by (cases "dblist_objects ids s")
  have t: "told s (takeWhile (\<lambda>d. d \<in> dom (stored s)) ids) t" using dblist_objects_found [OF run] by (simp add: Let_def)
  have "db_query E queryobj skip None kw s = (Inr (Lazy_Ids sz ids), s)" by (rule db_query_lazy [OF full(1)]) simp
  then have whole: "read_query L prefetch fuel c E queryobj skip None kw s =
      Some (if set ids \<subseteq> dom (stored s) then Inr (map (\<lambda>d. the (stored s d)) ids) else Inl KeyError, t)"
    by (simp add: read_query_def lazy_list_ok [OF L fuel] run)
  show ?thesis
  proof (cases "set ids \<subseteq> dom (stored s)")
    case True
    have "set (take l (drop k ids)) \<subseteq> dom (stored s)"
      using True by (meson set_drop_subset set_take_subset subset_trans)
    then have page: "\<exists>s''. read_query L prefetch fuel c E queryobj skip (Some l) kw s =
        Some (Inr (take l (drop k (map (\<lambda>d. the (stored s d)) ids))), s'') \<and> told s (take l (drop k ids)) s''" if "l > 0"
      using db_query_limited [OF E full that k, of s] by (auto simp: read_query_def take_map drop_map)
    have "result_len L prefetch fuel c s (Lazy_Ids sz ids) = Some (Inr (case sz of None \<Rightarrow> length ids | Some (n, _) \<Rightarrow> n))"
      using True by (simp add: result_len_def dblist_length_def lazy_list_ok [OF L fuel] split: option.split)
    moreover have "takeWhile (\<lambda>d. d \<in> dom (stored s)) ids = ids" using True by (simp only: take_while_all)
    then have "told s ids t" using t by (simp only:)
    ultimately show ?thesis using True whole page by (simp split: option.split)
  next
    case False
    then show ?thesis using whole t by simp
  qed
qed

lemma lazy_query_agrees_witness:
  "\<exists>s' s''. read_query (demo_lru 9) True 4 [] number_engine None (Some 1) None [] one_number = Some (Inr [7, 7, 7], s')
   \<and> read_query (demo_lru 9) True 4 [] number_engine None (Some 1) (Some 1) [] one_number = Some (Inr [7], s'')
   \<and> told one_number [5] s''"
proof -
  have "lru_lookup (demo_lru 9) [] = (Map.empty :: nat \<Rightarrow> nat option)" "length [5::int, 5, 5] \<le> lru_maxsize (demo_lru 9)"
    "''limit'' \<notin> fst ` set []" by (simp_all add: demo_lru_def)
  from lazy_query_agrees [OF number_engine_sorts number_engine_run this(3) refl demo_lru_ok demo_lru_keeps this(2) _ this(1),
      of 4 one_number True "Some 1" 1]
  show ?thesis by (simp add: stored_def one_number_tree) blast
qed

end
