(* ===== verification/Lucene_Index.thy ===== *)
theory Lucene_Index
  imports Document_Index
begin

text \<open>
  zerodb/catalog/indexes/text_lucene.py, the class \<open>IncrementalLuceneIndex\<close> up to its
  queries: for each word the documents that contain it, in the order of a score. The
  lexicon's answer (the word ids of a text) is an argument, scores are values of an ordered
  type given by a parameter \<open>score f n\<close>, for \<open>-sqrt(f)/sqrt(n)\<close>. The encoded word lists of
  pwid.py stand here for the lists they decode to, the codec being zope.index's. Reading
  trees ahead of their use changes nothing and is left out, except that it raises when
  there is nothing to read.
\<close>

section \<open>State\<close>

text \<open>For each word its tree of scores and documents, and its \<open>Length\<close>.\<close>

type_synonym 's postings = "('s \<times> int) set \<times> int"

record 's lucene_index =
  lu_wordinfo :: "int \<Rightarrow> 's postings option"
  lu_docwords :: "int \<Rightarrow> int list option"
  lu_word_count :: int
  lu_document_count :: int

text \<open>The configuration: the score and \<open>keep_phrases\<close>.\<close>

record 's lucene_config =
  lc_score :: "nat \<Rightarrow> nat \<Rightarrow> 's"
  lc_keep_phrases :: bool

definition lucene_clear :: "'s lucene_index" where
  "lucene_clear = \<lparr>lu_wordinfo = Map.empty, lu_docwords = Map.empty, lu_word_count = 0, lu_document_count = 0\<rparr>"

section \<open>Operations\<close>

text \<open>\<open>_get_doctrees\<close>: a word that is not known gets an empty tree.\<close>

definition get_doctree :: "int \<Rightarrow> 's lucene_index \<Rightarrow> 's lucene_index" where
  "get_doctree w s =
     (case lu_wordinfo s w of
        Some _ \<Rightarrow> s
      | None \<Rightarrow> s\<lparr>lu_wordinfo := (lu_wordinfo s)(w \<mapsto> ({}, 0)), lu_word_count := lu_word_count s + 1\<rparr>)"

definition get_doctrees :: "int list \<Rightarrow> 's lucene_index \<Rightarrow> 's lucene_index" where
  "get_doctrees wids s = fold get_doctree wids s"

text \<open>\<open>_get_widscores\<close> of a document's words, for one word.\<close>

definition widscore :: "'s lucene_config \<Rightarrow> int list \<Rightarrow> int \<Rightarrow> int \<Rightarrow> 's \<times> int" where
  "widscore C wids docid w = (lc_score C (count_list wids w) (length (remdups wids)), docid)"

text \<open>A change of one word's tree and length.\<close>

definition upd_word :: "int \<Rightarrow> ('s postings \<Rightarrow> 's postings) \<Rightarrow> 's lucene_index \<Rightarrow> 's lucene_index" where
  "upd_word w g s =
     (case lu_wordinfo s w of None \<Rightarrow> s | Some r \<Rightarrow> s\<lparr>lu_wordinfo := (lu_wordinfo s)(w \<mapsto> g r)\<rparr>)"

definition encode_wid :: "'s lucene_config \<Rightarrow> int list \<Rightarrow> int list" where
  "encode_wid C wids = (if lc_keep_phrases C then wids else remdups wids)"

text \<open>\<open>_reindex_doc\<close>; without any word there is nothing to traverse, a TypeError.\<close>

definition reindex_doc :: "'s lucene_config \<Rightarrow> int \<Rightarrow> int list \<Rightarrow> ('s lucene_index, nat) meth" where
  "reindex_doc C docid new_wids s =
     (case lu_docwords s docid of
        None \<Rightarrow> (Inl KeyError, s)
      | Some old_wids \<Rightarrow>
          (let old_widset = remdups old_wids;
               new_widset = remdups new_wids;
               removed_wids = filter (\<lambda>w. w \<notin> set new_wids) old_widset;
               added_wids = filter (\<lambda>w. w \<notin> set old_wids) new_widset;
               all_wids = remdups (new_wids @ old_wids);
               s1 = get_doctrees all_wids s;
               s2 = fold (\<lambda>w. upd_word w (\<lambda>(t, l). (t, l - 1))) removed_wids s1;
               s3 = fold (\<lambda>w. upd_word w (\<lambda>(t, l). (t, l + 1))) added_wids s2
           in if all_wids = [] then (Inl TypeError, s3)
              else
                (let s4 = fold (\<lambda>w. upd_word w (\<lambda>(t, l). (t - {widscore C old_wids docid w}, l))) old_widset s3;
                     s5 = fold (\<lambda>w. upd_word w (\<lambda>(t, l). (insert (widscore C new_wids docid w) t, l))) new_widset s4
                 in (Inr (length new_wids),
                     s5\<lparr>lu_docwords := (lu_docwords s5)(docid \<mapsto> encode_wid C new_wids)\<rparr>))))"

definition lucene_index_doc :: "'s lucene_config \<Rightarrow> int \<Rightarrow> int list \<Rightarrow> ('s lucene_index, nat) meth" where
  "lucene_index_doc C docid wids s =
     (if lu_docwords s docid \<noteq> None then reindex_doc C docid wids s
      else
        (let widset = remdups wids;
             s1 = s\<lparr>lu_docwords := (lu_docwords s)(docid \<mapsto> encode_wid C wids)\<rparr>;
             s2 = (if widset \<noteq> []
                   then fold (\<lambda>w. upd_word w (\<lambda>(t, l). (insert (widscore C wids docid w) t, l + 1))) widset
                          (get_doctrees widset s1)
                   else s1)
         in (Inr (length wids), s2\<lparr>lu_document_count := lu_document_count s2 + 1\<rparr>)))"

text \<open>
  \<open>unindex_doc\<close>: one word's entry is taken out, with the length first; a score that is
  not there is a KeyError of the tree. A word without documents is forgotten.
\<close>

definition drop_posting :: "'s lucene_config \<Rightarrow> int list \<Rightarrow> int \<Rightarrow> int \<Rightarrow> ('s lucene_index, unit) meth" where
  "drop_posting C wids docid w s =
     (let s1 = upd_word w (\<lambda>(t, l). (t, l - 1)) s in
      case lu_wordinfo s1 w of
        None \<Rightarrow> (Inl KeyError, s1)
      | Some (t, l) \<Rightarrow>
          if widscore C wids docid w \<notin> t then (Inl KeyError, s1)
          else if l = 0 then (Inr (), s1\<lparr>lu_wordinfo := (lu_wordinfo s1)(w := None)\<rparr>)
          else (Inr (), s1\<lparr>lu_wordinfo := (lu_wordinfo s1)(w \<mapsto> (t - {widscore C wids docid w}, l))\<rparr>))"

definition lucene_unindex_doc :: "'s lucene_config \<Rightarrow> int \<Rightarrow> ('s lucene_index, unit) meth" where
  "lucene_unindex_doc C docid s =
     (case lu_docwords s docid of
        None \<Rightarrow> (Inr (), s)
      | Some code \<Rightarrow>
          (let wids = remdups code; s1 = get_doctrees wids s in
           if wids = [] then (Inl TypeError, s1)
           else m_bind (m_each (drop_posting C code docid) wids) (\<lambda>_.
                  m_modify (\<lambda>s. s\<lparr>lu_docwords := (lu_docwords s)(docid := None),
                                  lu_document_count := lu_document_count s - 1\<rparr>)) s1))"

section \<open>Word by word\<close>

lemma get_doctree_fields [simp]:
  "lu_docwords (get_doctree w s) = lu_docwords s" "lu_document_count (get_doctree w s) = lu_document_count s"
  by (simp_all add: get_doctree_def split: option.split)

lemma get_doctrees_wordinfo:
  "lu_wordinfo (get_doctrees wids s) v =
     (if v \<in> set wids \<and> lu_wordinfo s v = None then Some ({}, 0) else lu_wordinfo s v)"
  by (induction wids arbitrary: s) (auto simp: get_doctrees_def get_doctree_def split: option.split)

lemma get_doctrees_fields [simp]:
  "lu_docwords (get_doctrees wids s) = lu_docwords s"
  "lu_document_count (get_doctrees wids s) = lu_document_count s"
  by (induction wids arbitrary: s) (simp_all add: get_doctrees_def)

lemma upd_word_fields [simp]:
  "lu_docwords (upd_word w g s) = lu_docwords s" "lu_document_count (upd_word w g s) = lu_document_count s"
  by (simp_all add: upd_word_def split: option.split)

lemma upd_word_wordinfo:
  "lu_wordinfo (upd_word w g s) v = (if v = w then map_option g (lu_wordinfo s v) else lu_wordinfo s v)"
  by (auto simp: upd_word_def split: option.split)

lemma fold_upd_word:
  "distinct ws \<Longrightarrow> lu_wordinfo (fold (\<lambda>w. upd_word w (g w)) ws s) v =
     (if v \<in> set ws then map_option (g v) (lu_wordinfo s v) else lu_wordinfo s v)"
  by (induction ws arbitrary: s) (auto simp: upd_word_wordinfo)

lemma fold_upd_word_fields [simp]:
  "lu_docwords (fold (\<lambda>w. upd_word w (g w)) ws s) = lu_docwords s"
  "lu_document_count (fold (\<lambda>w. upd_word w (g w)) ws s) = lu_document_count s"
  by (induction ws arbitrary: s) simp_all

section \<open>The invariant\<close>

text \<open>
  The documents with a word, what its tree is to hold, and the invariant: every tree holds
  exactly that, with the right length; a word without an entry is in no document; every
  document has words. The invariant is about indexes that keep the phrases.
\<close>

definition docs_with :: "(int \<Rightarrow> int list option) \<Rightarrow> int \<Rightarrow> int set" where
  "docs_with D w = {d. \<exists>ws. D d = Some ws \<and> w \<in> set ws}"

definition entry_of :: "'s lucene_config \<Rightarrow> (int \<Rightarrow> int list option) \<Rightarrow> int \<Rightarrow> int \<Rightarrow> 's \<times> int" where
  "entry_of C D w d = widscore C (the (D d)) d w"

definition word_ok :: "'s lucene_config \<Rightarrow> (int \<Rightarrow> int list option) \<Rightarrow> 's postings option \<Rightarrow> int \<Rightarrow> bool" where
  "word_ok C D r w \<longleftrightarrow>
     (case r of
        None \<Rightarrow> docs_with D w = {}
      | Some (t, l) \<Rightarrow> t = entry_of C D w ` docs_with D w \<and> l = int (card (docs_with D w)))"

definition lucene_inv :: "'s lucene_config \<Rightarrow> 's lucene_index \<Rightarrow> bool" where
  "lucene_inv C s \<longleftrightarrow> finite (dom (lu_docwords s)) \<and>
     lu_document_count s = int (card (dom (lu_docwords s))) \<and>
     (\<forall>d ws. lu_docwords s d = Some ws \<longrightarrow> ws \<noteq> []) \<and>
     (\<forall>w. word_ok C (lu_docwords s) (lu_wordinfo s w) w)"

lemma lucene_clear_inv: "lucene_inv C lucene_clear"
  by (simp add: lucene_inv_def lucene_clear_def word_ok_def docs_with_def)

lemma finite_docs_with: "finite (dom D) \<Longrightarrow> finite (docs_with D w)"
  by (rule finite_subset [of _ "dom D"]) (auto simp: docs_with_def)

lemma docs_with_put:
  "docs_with (D(d \<mapsto> ws)) w = (if w \<in> set ws then insert d (docs_with D w) else docs_with D w - {d})"
  by (auto simp: docs_with_def)

lemma docs_with_del: "docs_with (D(d := None)) w = docs_with D w - {d}"
  by (auto simp: docs_with_def)

lemma entry_of_other: "d' \<noteq> d \<Longrightarrow> entry_of C (D(d := x)) w d' = entry_of C D w d'"
  by (simp add: entry_of_def)

lemma entry_of_self: "entry_of C (D(d \<mapsto> ws)) w d = widscore C ws d w"
  by (simp add: entry_of_def)

lemma entry_of_snd: "snd (entry_of C D w d) = d"
  by (simp add: entry_of_def widscore_def)

lemma entries_others:
  "entry_of C (D(d := x)) w ` (A - {d}) = entry_of C D w ` A - {entry_of C D w d}"
proof -
  have "entry_of C (D(d := x)) w ` (A - {d}) = entry_of C D w ` (A - {d})"
    by (rule image_cong) (auto simp: entry_of_other)
  also have "\<dots> = entry_of C D w ` A - {entry_of C D w d}"
    by (metis (no_types, lifting) entry_of_snd image_insert image_set_diff inj_onI injI inj_image_eq_iff
        image_empty)
  finally show ?thesis .
qed

lemma docs_with_member: "D d = Some ws \<Longrightarrow> d \<in> docs_with D w \<longleftrightarrow> w \<in> set ws"
  "D d = None \<Longrightarrow> d \<notin> docs_with D w"
  by (auto simp: docs_with_def)

lemma entries_put:
  "entry_of C (D(d \<mapsto> ws)) w ` docs_with (D(d \<mapsto> ws)) w =
     (if w \<in> set ws then insert (widscore C ws d w) (entry_of C D w ` docs_with D w - {entry_of C D w d})
      else entry_of C D w ` docs_with D w - {entry_of C D w d})"
proof -
  note others = entries_others [of C D d "Some ws" w "docs_with D w"]
  show ?thesis
  proof (cases "w \<in> set ws")
    case True
    have "docs_with (D(d \<mapsto> ws)) w = insert d (docs_with D w - {d})"
      using True unfolding docs_with_put by auto
    then have "entry_of C (D(d \<mapsto> ws)) w ` docs_with (D(d \<mapsto> ws)) w =
        insert (entry_of C (D(d \<mapsto> ws)) w d) (entry_of C (D(d \<mapsto> ws)) w ` (docs_with D w - {d}))"
      by (simp only: image_insert)
    then show ?thesis using True by (simp only: others entry_of_self if_True)
  next
    case False
    then show ?thesis unfolding docs_with_put by (simp only: others if_False)
  qed
qed

lemma entries_absent:
  "d \<notin> docs_with D w \<Longrightarrow> entry_of C D w ` docs_with D w - {entry_of C D w d} = entry_of C D w ` docs_with D w"
  by (metis Diff_empty Diff_insert0 entry_of_snd imageE)

lemma card_docs_put:
  assumes "finite (docs_with D w)"
  shows "int (card (docs_with (D(d \<mapsto> ws)) w)) =
    int (card (docs_with D w)) - (if d \<in> docs_with D w then 1 else 0) + (if w \<in> set ws then 1 else 0)"
proof -
  have m: "int (card (docs_with D w - {d})) = int (card (docs_with D w)) - (if d \<in> docs_with D w then 1 else 0)"
    using assms card_filter_remove_int [of "docs_with D w" d] by simp
  have "insert d (docs_with D w) = insert d (docs_with D w - {d})" by auto
  moreover have "card (insert d (docs_with D w - {d})) = Suc (card (docs_with D w - {d}))"
    by (rule card_insert_disjoint) (use assms in auto)
  ultimately have "int (card (insert d (docs_with D w))) = int (card (docs_with D w - {d})) + 1"
    by simp
  with m show ?thesis unfolding docs_with_put by simp
qed

lemma card_docs_del:
  assumes "finite (docs_with D w)"
  shows "int (card (docs_with (D(d := None)) w)) =
    int (card (docs_with D w)) - (if d \<in> docs_with D w then 1 else 0)"
  unfolding docs_with_del using assms card_filter_remove_int [of "docs_with D w" d] by simp

lemma word_okD: "word_ok C D (Some (t, l)) w \<Longrightarrow> t = entry_of C D w ` docs_with D w \<and> l = int (card (docs_with D w))"
  "word_ok C D None w \<Longrightarrow> docs_with D w = {}"
  by (simp_all add: word_ok_def)

lemma index_new_inv:
  assumes I: "lucene_inv C s" and C: "lc_keep_phrases C" and ws: "ws \<noteq> []" and new: "lu_docwords s d = None"
  shows "\<exists>t. lucene_index_doc C d ws s = (Inr (length ws), t) \<and> lucene_inv C t \<and>
    lu_docwords t = (lu_docwords s)(d \<mapsto> ws)"
proof -
  let ?D = "lu_docwords s"
  define t where "t = snd (lucene_index_doc C d ws s)"
  have r: "lucene_index_doc C d ws s = (Inr (length ws), t)"
    using new by (simp add: t_def lucene_index_doc_def Let_def)
  have dw: "lu_docwords t = ?D(d \<mapsto> ws)" and dc: "lu_document_count t = lu_document_count s + 1"
    using new C ws by (simp_all add: t_def lucene_index_doc_def Let_def encode_wid_def)
  have wi: "lu_wordinfo t w = (if w \<in> set ws
      then (case lu_wordinfo s w of None \<Rightarrow> Some ({widscore C ws d w}, 1)
            | Some (p, l) \<Rightarrow> Some (insert (widscore C ws d w) p, l + 1))
      else lu_wordinfo s w)" for w
    using new ws
    by (auto simp: t_def lucene_index_doc_def Let_def fold_upd_word get_doctrees_wordinfo split: option.splits)
  have fin: "finite (docs_with ?D w)" for w
    using I by (intro finite_docs_with) (simp add: lucene_inv_def)
  have "word_ok C (?D(d \<mapsto> ws)) (lu_wordinfo t w) w" for w
  proof -
    have ok: "word_ok C ?D (lu_wordinfo s w) w" using I by (simp add: lucene_inv_def)
    have nd: "d \<notin> docs_with ?D w" by (rule docs_with_member(2) [of ?D d w, OF new])
    note e = entries_put [of C ?D d ws w] entries_absent [OF nd, of C] card_docs_put [OF fin [of w], where d = d and ws = ws]
    show ?thesis
    proof (cases "lu_wordinfo s w")
      case None
      then show ?thesis using ok nd e by (auto simp: word_ok_def wi docs_with_put)
    next
      case (Some x)
      obtain p l where x: "x = (p, l)" by fastforce
      then show ?thesis
        using word_okD(1) [of C ?D p l w] ok nd e Some by (simp add: word_ok_def wi)
    qed
  qed
  moreover have "card (dom (?D(d \<mapsto> ws))) = card (dom ?D) + 1"
    using card_dom_update [of ?D d ws] I new by (simp add: lucene_inv_def domIff)
  ultimately have "lucene_inv C t"
    using I ws by (simp add: lucene_inv_def dw dc)
  with r dw show ?thesis by blast
qed

lemma reindex_inv:
  assumes I: "lucene_inv C s" and C: "lc_keep_phrases C" and ws: "ws \<noteq> []" and old: "lu_docwords s d = Some os"
  shows "\<exists>t. lucene_index_doc C d ws s = (Inr (length ws), t) \<and> lucene_inv C t \<and>
    lu_docwords t = (lu_docwords s)(d \<mapsto> ws)"
proof -
  let ?D = "lu_docwords s"
  define t where "t = snd (lucene_index_doc C d ws s)"
  have all: "remdups (ws @ os) \<noteq> []" using ws by (metis append_is_Nil_conv remdups_eq_nil_iff)
  have r: "lucene_index_doc C d ws s = (Inr (length ws), t)"
    using old all by (simp add: t_def lucene_index_doc_def reindex_doc_def Let_def)
  have dw: "lu_docwords t = ?D(d \<mapsto> ws)" and dc: "lu_document_count t = lu_document_count s"
    using old all C ws by (simp_all add: t_def lucene_index_doc_def reindex_doc_def Let_def encode_wid_def)
  have wi: "lu_wordinfo t w =
      map_option (\<lambda>(p, l). (let p' = (if w \<in> set os then p - {widscore C os d w} else p)
          in (if w \<in> set ws then insert (widscore C ws d w) p' else p'),
          l - (if w \<in> set os then 1 else 0) + (if w \<in> set ws then 1 else 0)))
        (if w \<in> set ws \<union> set os \<and> lu_wordinfo s w = None then Some ({}, 0) else lu_wordinfo s w)" for w
    using old all
    by (auto simp: t_def lucene_index_doc_def reindex_doc_def Let_def fold_upd_word get_doctrees_wordinfo
        option.map_comp comp_def split_def intro!: option.map_cong)
  have fin: "finite (docs_with ?D w)" for w
    using I by (intro finite_docs_with) (simp add: lucene_inv_def)
  have "word_ok C (?D(d \<mapsto> ws)) (lu_wordinfo t w) w" for w
  proof -
    have ok: "word_ok C ?D (lu_wordinfo s w) w" using I by (simp add: lucene_inv_def)
    have m: "d \<in> docs_with ?D w \<longleftrightarrow> w \<in> set os" by (rule docs_with_member(1) [of ?D d os w, OF old])
    have self: "entry_of C ?D w d = widscore C os d w" using old by (simp add: entry_of_def)
    note e = entries_put [of C ?D d ws w, unfolded self] card_docs_put [OF fin [of w], where d = d and ws = ws]
    have absent: "w \<notin> set os \<Longrightarrow> entry_of C ?D w ` docs_with ?D w - {widscore C os d w} = entry_of C ?D w ` docs_with ?D w"
      using entries_absent [of d ?D w C] m self by simp
    show ?thesis
    proof (cases "lu_wordinfo s w")
      case None
      then have "docs_with ?D w = {}" using ok by (simp add: word_ok_def)
      then show ?thesis using None m e by (auto simp: word_ok_def wi docs_with_put)
    next
      case (Some x)
      obtain p l where x: "x = (p, l)" by fastforce
      then show ?thesis
        using word_okD(1) [of C ?D p l w] ok m e absent Some by (auto simp: word_ok_def wi Let_def)
    qed
  qed
  moreover have "dom (?D(d \<mapsto> ws)) = dom ?D" using old by auto
  ultimately have "lucene_inv C t"
    using I ws by (simp add: lucene_inv_def dw dc)
  with r dw show ?thesis by blast
qed

definition dropped :: "'s lucene_config \<Rightarrow> int list \<Rightarrow> int \<Rightarrow> int \<Rightarrow> 's postings option \<Rightarrow> 's postings option" where
  "dropped C wids docid w r =
     (case r of None \<Rightarrow> None
      | Some (t, l) \<Rightarrow> if l = 1 then None else Some (t - {widscore C wids docid w}, l - 1))"

lemma drop_posting_ok:
  assumes "lu_wordinfo s w = Some (t, l)" "widscore C wids docid w \<in> t"
  shows "\<exists>s'. drop_posting C wids docid w s = (Inr (), s') \<and> lu_docwords s' = lu_docwords s \<and>
    lu_document_count s' = lu_document_count s \<and>
    lu_wordinfo s' = (lu_wordinfo s)(w := dropped C wids docid w (lu_wordinfo s w))"
  using assms by (auto simp: drop_posting_def Let_def upd_word_def dropped_def fun_eq_iff)

lemma drop_postings_ok:
  assumes "distinct ws" "\<And>w. w \<in> set ws \<Longrightarrow> \<exists>t l. lu_wordinfo s w = Some (t, l) \<and> widscore C wids docid w \<in> t"
  shows "\<exists>s'. m_each (drop_posting C wids docid) ws s = (Inr (), s') \<and> lu_docwords s' = lu_docwords s \<and>
    lu_document_count s' = lu_document_count s \<and>
    (\<forall>v. lu_wordinfo s' v = (if v \<in> set ws then dropped C wids docid v (lu_wordinfo s v) else lu_wordinfo s v))"
  using assms
proof (induction ws arbitrary: s)
  case Nil
  then show ?case by (simp add: m_return_def)
next
  case (Cons w ws)
  obtain t l where "lu_wordinfo s w = Some (t, l)" "widscore C wids docid w \<in> t"
    using Cons.prems(2) [of w] by auto
  from drop_posting_ok [OF this] obtain s1 where s1: "drop_posting C wids docid w s = (Inr (), s1)"
    "lu_docwords s1 = lu_docwords s" "lu_document_count s1 = lu_document_count s"
    "lu_wordinfo s1 = (lu_wordinfo s)(w := dropped C wids docid w (lu_wordinfo s w))" by blast
  have "\<exists>t l. lu_wordinfo s1 v = Some (t, l) \<and> widscore C wids docid v \<in> t" if "v \<in> set ws" for v
    using Cons.prems that by (auto simp: s1(4))
  from Cons.IH [OF _ this] Cons.prems(1) obtain s2 where
    s2: "m_each (drop_posting C wids docid) ws s1 = (Inr (), s2)" "lu_docwords s2 = lu_docwords s1"
    "lu_document_count s2 = lu_document_count s1"
    "\<forall>v. lu_wordinfo s2 v = (if v \<in> set ws then dropped C wids docid v (lu_wordinfo s1 v) else lu_wordinfo s1 v)"
    by auto
  have "m_each (drop_posting C wids docid) (w # ws) s = (Inr (), s2)"
    using s1(1) s2(1) by (simp add: m_bind_def)
  then show ?case using s1 s2 Cons.prems(1) by auto
qed

lemma get_doctrees_known:
  "(\<And>w. w \<in> set wids \<Longrightarrow> lu_wordinfo s w \<noteq> None) \<Longrightarrow> get_doctrees wids s = s"
proof (induction wids)
  case (Cons w wids)
  obtain r where "lu_wordinfo s w = Some r" using Cons.prems [of w] by auto
  then have "get_doctree w s = s" by (simp add: get_doctree_def)
  then show ?case using Cons by (simp add: get_doctrees_def)
qed (simp add: get_doctrees_def)

lemma unindex_inv:
  assumes I: "lucene_inv C s"
  shows "\<exists>t. lucene_unindex_doc C d s = (Inr (), t) \<and> lucene_inv C t \<and>
    lu_docwords t = (lu_docwords s)(d := None)"
proof (cases "lu_docwords s d")
  case None
  then show ?thesis using I by (auto simp: lucene_unindex_doc_def fun_upd_idem)
next
  case (Some ws)
  let ?D = "lu_docwords s"
  have ok: "word_ok C ?D (lu_wordinfo s w) w" for w using I by (simp add: lucene_inv_def)
  have m: "d \<in> docs_with ?D w \<longleftrightarrow> w \<in> set ws" for w by (rule docs_with_member(1) [of ?D d ws w, OF Some])
  have self: "entry_of C ?D w d = widscore C ws d w" for w using Some by (simp add: entry_of_def)
  have here: "\<exists>t l. lu_wordinfo s w = Some (t, l) \<and> widscore C ws d w \<in> t" if w: "w \<in> set ws" for w
  proof -
    have d: "d \<in> docs_with ?D w" using w m by simp
    then obtain t l where tl: "lu_wordinfo s w = Some (t, l)"
      using ok [of w] by (cases "lu_wordinfo s w") (auto simp: word_ok_def)
    with ok [of w] have "t = entry_of C ?D w ` docs_with ?D w" by (simp add: word_ok_def)
    then have "entry_of C ?D w d \<in> t" using d by blast
    with tl show ?thesis by (simp add: self)
  qed
  have known: "get_doctrees (remdups ws) s = s"
    by (rule get_doctrees_known) (use here in fastforce)
  have ws: "remdups ws \<noteq> []" using I Some by (auto simp: lucene_inv_def)
  obtain s1 where s1: "m_each (drop_posting C ws d) (remdups ws) s = (Inr (), s1)" "lu_docwords s1 = ?D"
    "lu_document_count s1 = lu_document_count s"
    "\<forall>v. lu_wordinfo s1 v = (if v \<in> set ws then dropped C ws d v (lu_wordinfo s v) else lu_wordinfo s v)"
    using drop_postings_ok [of "remdups ws" s C ws d] here by auto
  let ?t = "s1\<lparr>lu_docwords := ?D(d := None), lu_document_count := lu_document_count s - 1\<rparr>"
  have run: "lucene_unindex_doc C d s = (Inr (), ?t)"
    using Some ws known s1 by (simp add: lucene_unindex_doc_def Let_def m_bind_def m_modify_def)
  have fin: "finite (docs_with ?D w)" for w
    using I by (intro finite_docs_with) (simp add: lucene_inv_def)
  have "word_ok C (?D(d := None)) (lu_wordinfo ?t w) w" for w
  proof -
    have e: "entry_of C (?D(d := None)) w ` docs_with (?D(d := None)) w =
        entry_of C ?D w ` docs_with ?D w - {widscore C ws d w}"
      unfolding docs_with_del entries_others self ..
    note c = card_docs_del [OF fin [of w], of d]
    show ?thesis
    proof (cases "w \<in> set ws")
      case True
      then obtain t l where tl: "lu_wordinfo s w = Some (t, l)" using here by blast
      then have t: "t = entry_of C ?D w ` docs_with ?D w" "l = int (card (docs_with ?D w))"
        using word_okD(1) [of C ?D t l w] ok [of w] by simp_all
      have empty: "docs_with (?D(d := None)) w = {}" if "l = 1"
      proof -
        have "card (docs_with (?D(d := None)) w) = 0" using c that t(2) m True by simp
        moreover have "finite (docs_with (?D(d := None)) w)" unfolding docs_with_del using fin [of w] by simp
        ultimately show ?thesis by simp
      qed
      show ?thesis
        using True tl t e c m s1(4) empty by (cases "l = 1") (auto simp: word_ok_def dropped_def)
    next
      case False
      then have "docs_with (?D(d := None)) w = docs_with ?D w" using m by (auto simp: docs_with_del)
      moreover have "entry_of C (?D(d := None)) w ` docs_with ?D w = entry_of C ?D w ` docs_with ?D w"
        using False m by (intro image_cong) (auto simp: entry_of_def)
      moreover have "lu_wordinfo ?t w = lu_wordinfo s w" using s1(4) False by simp
      ultimately show ?thesis using ok [of w] by (cases "lu_wordinfo s w") (auto simp: word_ok_def)
    qed
  qed
  moreover have "int (card (dom ?D - {d})) = int (card (dom ?D)) - 1"
    by (rule card_filter_remove_int) (use I Some in \<open>auto simp: lucene_inv_def\<close>)
  ultimately have "lucene_inv C ?t" using I by (simp add: lucene_inv_def)
  with run show ?thesis by auto
qed

text \<open>The text index is a document index whose values are the word lists that are not empty.\<close>

definition lucene_put :: "int \<Rightarrow> int list \<Rightarrow> 's lucene_config \<times> 's lucene_index \<Rightarrow> 's lucene_config \<times> 's lucene_index" where
  "lucene_put d ws = (\<lambda>(C, s). (C, snd (lucene_index_doc C d ws s)))"

definition lucene_del :: "int \<Rightarrow> 's lucene_config \<times> 's lucene_index \<Rightarrow> 's lucene_config \<times> 's lucene_index" where
  "lucene_del d = (\<lambda>(C, s). (C, snd (lucene_unindex_doc C d s)))"

lemma index_inv:
  assumes "lucene_inv C s" "lc_keep_phrases C" "ws \<noteq> []"
  shows "\<exists>t. lucene_index_doc C d ws s = (Inr (length ws), t) \<and> lucene_inv C t \<and>
    lu_docwords t = (lu_docwords s)(d \<mapsto> ws)"
  using index_new_inv [OF assms] reindex_inv [OF assms] by (cases "lu_docwords s d") auto

interpretation lucene: document_index
  "\<lambda>(C, s). lc_keep_phrases C \<and> lucene_inv C s" "\<lambda>ws. ws \<noteq> []" "\<lambda>(C, s). lu_docwords s" lucene_put lucene_del
proof unfold_locales
  fix x :: "'s lucene_config \<times> 's lucene_index" and d and ws :: "int list"
  assume I: "case x of (C, s) \<Rightarrow> lc_keep_phrases C \<and> lucene_inv C s"
  obtain C s where x: "x = (C, s)" by fastforce
  have C: "lc_keep_phrases C" "lucene_inv C s" using I by (simp_all add: x)
  obtain t where t: "lucene_unindex_doc C d s = (Inr (), t)" "lucene_inv C t" "lu_docwords t = (lu_docwords s)(d := None)"
    using unindex_inv [OF C(2)] by blast
  show "case lucene_del d x of (C, s) \<Rightarrow> lc_keep_phrases C \<and> lucene_inv C s"
    "(case lucene_del d x of (C, s) \<Rightarrow> lu_docwords s) = (case x of (C, s) \<Rightarrow> lu_docwords s)(d := None)"
    using t C by (simp_all add: lucene_del_def x)
  assume "ws \<noteq> []"
  from index_inv [OF C(2,1) this] obtain u where
    u: "lucene_index_doc C d ws s = (Inr (length ws), u)" "lucene_inv C u" "lu_docwords u = (lu_docwords s)(d \<mapsto> ws)"
    by blast
  show "case lucene_put d ws x of (C, s) \<Rightarrow> lc_keep_phrases C \<and> lucene_inv C s"
    "(case lucene_put d ws x of (C, s) \<Rightarrow> lu_docwords s) = (case x of (C, s) \<Rightarrow> lu_docwords s)(d \<mapsto> ws)"
    using u C by (simp_all add: lucene_put_def x)
qed

section \<open>Properties\<close>

text \<open>
  C31: the text index always holds exactly the postings of its documents: after any
  sequence of index, reindex and unindex operations on documents with words, each word's
  tree has one entry, with the right score, for each document that contains the word, its
  length is their number, and the counter is the number of documents.
\<close>

theorem lucene_history:
  assumes "lc_keep_phrases C" "\<forall>x \<in> set ops. valid_op (\<lambda>ws. ws \<noteq> []) x"
    and "fold lucene.run_op ops (C, lucene_clear) = (C', s)"
  shows "lu_docwords s = fold map_op ops Map.empty \<and>
    lu_document_count s = int (card (dom (lu_docwords s))) \<and>
    (\<forall>w. case lu_wordinfo s w of
        None \<Rightarrow> docs_with (lu_docwords s) w = {}
      | Some (t, l) \<Rightarrow> t = {widscore C' ws d w | d ws. lu_docwords s d = Some ws \<and> w \<in> set ws} \<and>
          l = int (card (docs_with (lu_docwords s) w)))"
proof -
  have start: "case (C, lucene_clear) of (C, s) \<Rightarrow> lc_keep_phrases C \<and> lucene_inv C s"
    using assms(1) by (simp add: lucene_clear_inv)
  have I: "lucene_inv C' s"
    using lucene.run_inv [OF start assms(2)] assms(3) by simp
  have entries: "entry_of C' (lu_docwords s) w ` docs_with (lu_docwords s) w =
      {widscore C' ws d w | d ws. lu_docwords s d = Some ws \<and> w \<in> set ws}" for w
    by (force simp: entry_of_def docs_with_def)
  show ?thesis
  proof (intro conjI allI)
    show "lu_docwords s = fold map_op ops Map.empty"
      using lucene.run_view [OF start assms(2)] assms(3) by (simp add: lucene_clear_def)
    show "lu_document_count s = int (card (dom (lu_docwords s)))"
      using I by (simp add: lucene_inv_def)
    fix w
    have "word_ok C' (lu_docwords s) (lu_wordinfo s w) w" using I by (simp add: lucene_inv_def)
    then show "case lu_wordinfo s w of
        None \<Rightarrow> docs_with (lu_docwords s) w = {}
      | Some (t, l) \<Rightarrow> t = {widscore C' ws d w | d ws. lu_docwords s d = Some ws \<and> w \<in> set ws} \<and>
          l = int (card (docs_with (lu_docwords s) w))"
      unfolding word_ok_def entries .
  qed
qed

text \<open>
  On such an index no operation raises: indexing returns the number of words, and
  unindexing a document it holds takes it out, as does unindexing one it does not hold.
\<close>

theorem lucene_operations_succeed:
  assumes "lucene_inv C s" "lc_keep_phrases C" "ws \<noteq> []"
  shows "\<exists>t u. lucene_index_doc C d ws s = (Inr (length ws), t) \<and> lu_docwords t d = Some ws \<and>
    lucene_unindex_doc C d t = (Inr (), u) \<and> lu_docwords u = (lu_docwords s)(d := None) \<and> lucene_inv C u"
proof -
  obtain t where t: "lucene_index_doc C d ws s = (Inr (length ws), t)" "lucene_inv C t"
    "lu_docwords t = (lu_docwords s)(d \<mapsto> ws)" using index_inv [OF assms] by blast
  obtain u where "lucene_unindex_doc C d t = (Inr (), u)" "lucene_inv C u"
    "lu_docwords u = (lu_docwords t)(d := None)" using unindex_inv [OF t(2)] by blast
  with t show ?thesis by simp
qed

text \<open>
  A document without any word can be indexed but never unindexed: \<open>unindex_doc\<close>
  raises a TypeError and leaves it in the index, however often it is tried.
\<close>

theorem wordless_document_stays:
  assumes "lu_docwords s d = None"
  shows "\<exists>t. lucene_index_doc C d [] s = (Inr 0, t) \<and> lu_docwords t d = Some [] \<and>
    lu_document_count t = lu_document_count s + 1 \<and> lucene_unindex_doc C d t = (Inl TypeError, t)"
  using assms
  by (simp add: lucene_index_doc_def encode_wid_def lucene_unindex_doc_def get_doctrees_def Let_def)

text \<open>
  Without \<open>keep_phrases\<close> the index forgets how often a word occurs, so that unindexing
  a document that repeats a word fails on its score, which is then not the stored one.
\<close>

theorem phrases_needed_for_unindexing:
  assumes "\<not> lc_keep_phrases C" "lc_score C 2 1 \<noteq> lc_score C 1 1"
  shows "fst (lucene_unindex_doc C d (snd (lucene_index_doc C d [w, w] lucene_clear))) = Inl KeyError"
  using assms
  by (simp add: lucene_index_doc_def encode_wid_def lucene_unindex_doc_def get_doctrees_def get_doctree_def
      lucene_clear_def drop_posting_def upd_word_def widscore_def Let_def m_bind_def numeral_2_eq_2)

section \<open>Instances\<close>

definition demo_config :: "bool \<Rightarrow> int lucene_config" where
  "demo_config keep = \<lparr>lc_score = (\<lambda>f n. - int f * 100 div int n), lc_keep_phrases = keep\<rparr>"

theorem lucene_history_witness:
  "\<exists>s. fold lucene.run_op [Put 1 [7, 8, 7], Put 2 [8], Put 1 [9], Del 2] (demo_config True, lucene_clear) = (demo_config True, s) \<and>
     lu_docwords s = [1 \<mapsto> [9]]"
proof -
  let ?ops = "[Put 1 [7, 8, 7], Put 2 [8], Put 1 [9], Del 2] :: int list doc_op list"
  have C: "lc_keep_phrases (demo_config True)" "\<forall>x \<in> set ?ops. valid_op (\<lambda>ws. ws \<noteq> []) x"
    by (simp_all add: demo_config_def)
  obtain s where s: "fold lucene.run_op ?ops (demo_config True, lucene_clear) = (demo_config True, s)"
    by (simp add: lucene_put_def lucene_del_def)
  from lucene_history [OF C s] have "lu_docwords s = fold map_op ?ops Map.empty" ..
  then have "lu_docwords s = [1 \<mapsto> [9]]" by (simp add: fun_eq_iff)
  with s show ?thesis by blast
qed

theorem lucene_operations_succeed_witness:
  "\<exists>t. lucene_index_doc (demo_config True) 1 [7, 8, 7] lucene_clear = (Inr 3, t) \<and> lu_docwords t 1 = Some [7, 8, 7]"
proof -
  have C: "lc_keep_phrases (demo_config True)" "[7, 8, 7 :: int] \<noteq> []" by (simp_all add: demo_config_def)
  from lucene_operations_succeed [OF lucene_clear_inv C, of 1] show ?thesis by auto
qed

theorem wordless_document_stays_witness:
  "fst (lucene_unindex_doc (demo_config True) 1 (snd (lucene_index_doc (demo_config True) 1 [] lucene_clear))) = Inl TypeError"
proof -
  have "lu_docwords (lucene_clear :: int lucene_index) 1 = None" by (simp add: lucene_clear_def)
  from wordless_document_stays [OF this, of "demo_config True"] show ?thesis by auto
qed

theorem phrases_needed_for_unindexing_witness:
  "fst (lucene_unindex_doc (demo_config False) 1 (snd (lucene_index_doc (demo_config False) 1 [5, 5] lucene_clear))) = Inl KeyError"
  by (rule phrases_needed_for_unindexing) (simp_all add: demo_config_def)

end
