(* ===== verification/Weighted_Union.thy ===== *)
theory Weighted_Union
  imports Prelude Complex_Main "HOL-Library.AList" "HOL-Library.Product_Lexorder"
begin

text \<open>
  zerodb/catalog/indexes/text_lucene.py, \<open>mass_weightedUnion\<close>: the documents of several
  words, each word's tree read piece by piece in the order of its scores, in the order of the
  weighted sum of their scores. The generator is modelled by what it yields until it ends or
  raises. Numbers are those of an ordered field, that is without rounding; as on the tested
  Python version \<open>/\<close> is exact and \<open>xrange\<close> refuses the float \<open>cache_size / 2\<close>, and a
  \<open>map\<close> can be read once.
\<close>

section \<open>State\<close>

text \<open>
  The constants, and the variables of the generator. A tree is the list of its pairs of a
  negative score and a docid in order; \<open>iters\<close> is a dict whose key is deleted when an iterator
  ends. \<open>maxscores\<close> is written and never read, and is left out.
\<close>

definition cache_size :: nat where "cache_size = 40"
definition order_size :: nat where "order_size = 15"
definition order_violation :: nat where "order_violation = 3"

type_synonym 'w postings_list = "('w \<times> int) list"

record 'w union_state =
  un_iters :: "'w postings_list option list"
  un_unread_max :: "'w list"
  un_caches :: "(int \<times> 'w) list list"
  un_cacheids :: "int \<Rightarrow> nat list"
  un_used :: "int set"
  un_sorted_mins :: "('w \<times> int) list"
  un_mins_dict :: "int \<Rightarrow> 'w option"

section \<open>Reading\<close>

text \<open>\<open>SortedSet\<close>: a sorted list without repetitions; removing what is not there raises.\<close>

definition tree_add :: "'a::linorder \<Rightarrow> 'a list \<Rightarrow> 'a list" where
  "tree_add x xs = (if x \<in> set xs then xs else insort x xs)"

definition tree_remove :: "'a \<Rightarrow> 'a list \<Rightarrow> 'a list res" where
  "tree_remove x xs = (if x \<in> set xs then Inr (remove1 x xs) else Inl KeyError)"

text \<open>What \<open>precache\<close> does with one pair that it reads from iterator \<open>i\<close>.\<close>

definition lower_unread :: "nat \<Rightarrow> 'w::linordered_field \<Rightarrow> 'w union_state \<Rightarrow> 'w union_state" where
  "lower_unread i score s =
     (if un_unread_max s ! i > score then s\<lparr>un_unread_max := (un_unread_max s)[i := score]\<rparr> else s)"

definition add_score :: "nat \<Rightarrow> 'w::linordered_field \<Rightarrow> int \<Rightarrow> 'w union_state \<Rightarrow> 'w union_state res" where
  "add_score i score docid s =
     (let total_score = (case un_mins_dict s docid of None \<Rightarrow> 0 | Some m \<Rightarrow> m) + score
      in bindr (case un_mins_dict s docid of
            None \<Rightarrow> Inr (un_sorted_mins s) | Some m \<Rightarrow> tree_remove (- m, docid) (un_sorted_mins s))
          (\<lambda>sorted_mins. Inr (s\<lparr>
             un_caches := (un_caches s)[i := AList.update docid score (un_caches s ! i)],
             un_cacheids := (un_cacheids s)(docid := un_cacheids s docid @ [i]),
             un_mins_dict := (un_mins_dict s)(docid \<mapsto> total_score),
             un_sorted_mins := tree_add (- total_score, docid) sorted_mins\<rparr>)))"

definition absorb :: "'w::linordered_field list \<Rightarrow> nat \<Rightarrow> 'w \<times> int \<Rightarrow> 'w union_state \<Rightarrow> 'w union_state res" where
  "absorb weights i e s =
     (let score = - fst e * weights ! i; s1 = lower_unread i score s
      in if snd e \<in> un_used s then Inr s1 else add_score i score (snd e) s1)"

fun precache :: "'w::linordered_field list \<Rightarrow> nat \<Rightarrow> nat \<Rightarrow> 'w union_state \<Rightarrow> 'w union_state res" where
  "precache weights i 0 s = Inr s"
| "precache weights i (Suc n) s =
     (case un_iters s ! i of
        None \<Rightarrow> Inl KeyError
      | Some [] \<Rightarrow> Inr (s\<lparr>un_iters := (un_iters s)[i := None], un_unread_max := (un_unread_max s)[i := 0]\<rparr>)
      | Some (e # es) \<Rightarrow>
          bindr (absorb weights i e (s\<lparr>un_iters := (un_iters s)[i := Some es]\<rparr>)) (precache weights i n))"

text \<open>The loop that fills the caches of the live iterators; \<open>True\<close> when it read anything.\<close>

definition cache_total :: "'w union_state \<Rightarrow> nat" where
  "cache_total s = sum_list (map length (un_caches s))"

definition refill_one ::
  "'w::linordered_field list \<Rightarrow> nat \<Rightarrow> 'w union_state \<times> nat option \<times> bool \<Rightarrow> ('w union_state \<times> nat option \<times> bool) res" where
  "refill_one weights i = (\<lambda>(s, cache_len, updated).
     let n = length (un_caches s ! i) in
     if 2 * n < cache_size
     then bindr (precache weights i (cache_size - n) s) (\<lambda>s. Inr (s, Some (cache_total s), True))
     else Inr (s, cache_len, updated))"

definition refill ::
  "'w::linordered_field list \<Rightarrow> 'w union_state \<Rightarrow> nat option \<Rightarrow> ('w union_state \<times> nat option \<times> bool) res" where
  "refill weights s cache_len =
     foldr_res (refill_one weights) (filter (\<lambda>i. un_iters s ! i \<noteq> None) [0..<length (un_iters s)])
       (s, cache_len, False)"

section \<open>The window\<close>

text \<open>
  The first documents with the least and the greatest value that their weights can have, and
  whether their order is uncertain. Then \<open>precache\<close> is called with a float size, which raises.
\<close>

record 'w window =
  wi_mins :: "'w list"
  wi_docids :: "int list"
  wi_maxs :: "'w list"

definition max_sum :: "'w::linordered_field union_state \<Rightarrow> 'w" where
  "max_sum s = sum_list (un_unread_max s)"

definition make_window :: "'w::linordered_field union_state \<Rightarrow> 'w window" where
  "make_window s =
     (let ws = take order_size (un_sorted_mins s)
      in \<lparr>wi_mins = map (\<lambda>(w, docid). - w) ws, wi_docids = map snd ws,
          wi_maxs = map (\<lambda>(w, docid).
            max_sum s - sum_list (map (\<lambda>i. un_unread_max s ! i) (un_cacheids s docid)) - w) ws\<rparr>)"

definition violated :: "'w::linordered_field union_state \<Rightarrow> 'w window \<Rightarrow> bool" where
  "violated s W \<longleftrightarrow>
     (\<exists>i \<in> set [0..<length (wi_mins W) - order_violation - 1].
        \<exists>m \<in> set (drop (i + order_violation) (wi_maxs W)). m > wi_mins W ! i)
     \<or> (length (wi_mins W) = order_size \<and> wi_mins W ! (order_size - order_violation) < max_sum s)"

definition update_window :: "'w::linordered_field union_state \<Rightarrow> 'w window res" where
  "update_window s = (let W = make_window s in if violated s W then Inl TypeError else Inr W)"

section \<open>Yielding\<close>

text \<open>A document leaves a cache; when it was the last one read, the bound is put back up.\<close>

definition forget :: "int \<Rightarrow> (int \<times> 'w::linordered_field) list \<times> 'w \<Rightarrow> ((int \<times> 'w) list \<times> 'w) res" where
  "forget docid = (\<lambda>(c, unread).
     case map_of c docid of
       None \<Rightarrow> Inr (c, unread)
     | Some x \<Rightarrow>
         (let c' = AList.delete docid c in
          if x \<noteq> unread then Inr (c', unread)
          else if c' = [] then Inl ValueError
          else Inr (c', Max (set (map snd c')))))"

fun forget_all ::
  "int \<Rightarrow> ((int \<times> 'w::linordered_field) list \<times> 'w) list \<Rightarrow> ((int \<times> 'w) list \<times> 'w) list res" where
  "forget_all docid [] = Inr []"
| "forget_all docid (cu # cus) =
     bindr (forget docid cu) (\<lambda>cu. bindr (forget_all docid cus) (\<lambda>cus. Inr (cu # cus)))"

text \<open>The number of the caches with the document, which \<open>cache_len\<close> goes down by.\<close>

definition copies :: "int \<Rightarrow> (int \<times> 'w) list list \<Rightarrow> nat" where
  "copies docid cs = length (filter (\<lambda>c. docid \<in> fst ` set c) cs)"

record 'w union_loop =
  ul_state :: "'w union_state"
  ul_cache_len :: "nat option"
  ul_window :: "'w window"

definition emit ::
  "'w::linordered_field union_state \<Rightarrow> nat option \<Rightarrow> 'w window \<Rightarrow> ((int \<times> 'w) \<times> 'w union_loop) option res" where
  "emit s cache_len W =
     (case (wi_mins W, wi_maxs W, wi_docids W) of
        (minw # mins, maxw # maxs, docid # docids) \<Rightarrow>
          bindr (forget_all docid (zip (un_caches s) (un_unread_max s))) (\<lambda>cus.
          bindr (tree_remove (- minw, docid) (un_sorted_mins s)) (\<lambda>sorted_mins.
            Inr (Some ((docid, (minw + maxw) / 2),
              \<lparr>ul_state = s\<lparr>un_caches := map fst cus, un_unread_max := map snd cus,
                            un_used := insert docid (un_used s), un_sorted_mins := sorted_mins,
                            un_mins_dict := (un_mins_dict s)(docid := None)\<rparr>,
               ul_cache_len = map_option (\<lambda>n. n - copies docid (un_caches s)) cache_len,
               ul_window = \<lparr>wi_mins = mins, wi_docids = docids, wi_maxs = maxs\<rparr>\<rparr>))))
      | _ \<Rightarrow> Inr None)"

text \<open>One round of the main cycle; \<open>None\<close> is its \<open>break\<close>.\<close>

definition needs_window :: "bool \<Rightarrow> nat option \<Rightarrow> 'w window \<Rightarrow> bool" where
  "needs_window updated cache_len W \<longleftrightarrow>
     updated \<or> (case cache_len of None \<Rightarrow> False | Some n \<Rightarrow> n > order_violation \<and> length (wi_docids W) < order_violation)"

definition turn :: "'w::linordered_field list \<Rightarrow> 'w union_loop \<Rightarrow> ((int \<times> 'w) \<times> 'w union_loop) option res" where
  "turn weights L =
     bindr (refill weights (ul_state L) (ul_cache_len L)) (\<lambda>(s, cache_len, updated).
     bindr (if needs_window updated cache_len (ul_window L) then update_window s else Inr (ul_window L)) (\<lambda>W.
       emit s cache_len W))"

text \<open>
  Every round that yields takes a document out of the sorted weights, and every document that
  gets there is read from an iterator, so the cycle ends.
\<close>

definition work :: "'w union_state \<Rightarrow> nat" where
  "work s = sum_list (map (\<lambda>it. case it of None \<Rightarrow> 0 | Some es \<Rightarrow> length es) (un_iters s)) + length (un_sorted_mins s)"

lemma length_tree_add: "length (tree_add x xs) \<le> Suc (length xs)"
  by (simp add: tree_add_def)

lemma length_tree_remove: "tree_remove x xs = Inr ys \<Longrightarrow> length xs = Suc (length ys)"
  by (auto simp: tree_remove_def length_remove1 split: if_splits) (metis Suc_pred length_pos_if_in_set)

lemma absorb_iters: "absorb ws i e s = Inr t \<Longrightarrow> un_iters t = un_iters s"
  by (auto simp: absorb_def lower_unread_def add_score_def Let_def bindr_eq_Inr split: if_splits option.splits)

lemma add_score_sorted:
  assumes "add_score i score docid s = Inr t"
  obtains ms x where "length ms \<le> length (un_sorted_mins s)" "un_sorted_mins t = tree_add x ms"
proof -
  obtain ms where ms: "(case un_mins_dict s docid of None \<Rightarrow> Inr (un_sorted_mins s)
      | Some m \<Rightarrow> tree_remove (- m, docid) (un_sorted_mins s)) = Inr ms"
    using assms unfolding add_score_def Let_def bindr_eq_Inr by blast
  then have "length ms \<le> length (un_sorted_mins s)" by (auto dest: length_tree_remove split: option.splits)
  moreover have "\<exists>x. un_sorted_mins t = tree_add x ms"
    using assms unfolding add_score_def Let_def ms bindr_Inr sum.inject by (intro exI) (drule sym, simp)
  ultimately show thesis using that by blast
qed

lemma lower_unread_same [simp]:
  "un_sorted_mins (lower_unread i sc s) = un_sorted_mins s" "un_iters (lower_unread i sc s) = un_iters s"
  "un_mins_dict (lower_unread i sc s) = un_mins_dict s" "un_used (lower_unread i sc s) = un_used s"
  "un_caches (lower_unread i sc s) = un_caches s" "un_cacheids (lower_unread i sc s) = un_cacheids s"
  by (simp_all add: lower_unread_def)

lemma absorb_sorted:
  assumes "absorb ws i e s = Inr t"
  shows "length (un_sorted_mins t) \<le> Suc (length (un_sorted_mins s))"
proof (cases "snd e \<in> un_used s")
  case True
  then show ?thesis using assms by (auto simp: absorb_def Let_def)
next
  case False
  then have "add_score i (- fst e * ws ! i) (snd e) (lower_unread i (- fst e * ws ! i) s) = Inr t"
    using assms by (simp add: absorb_def Let_def)
  then obtain ms x where "length ms \<le> length (un_sorted_mins s)" "un_sorted_mins t = tree_add x ms"
    by (rule add_score_sorted) simp
  then show ?thesis using length_tree_add [of x ms] by simp
qed

lemma precache_work: "precache ws i n s = Inr t \<Longrightarrow> i < length (un_iters s) \<Longrightarrow> work t \<le> work s"
proof (induction n arbitrary: s)
  case (Suc n)
  show ?case
  proof (cases "un_iters s ! i")
    case (Some es)
    show ?thesis
    proof (cases es)
      case Nil
      then show ?thesis using Suc.prems Some by (auto simp: work_def map_update sum_list_update)
    next
      case (Cons e es')
      let ?s = "s\<lparr>un_iters := (un_iters s)[i := Some es']\<rparr>"
      obtain u where u: "absorb ws i e ?s = Inr u" "precache ws i n u = Inr t"
        using Suc.prems(1) Some Cons by (auto simp: bindr_eq_Inr)
      have it: "un_iters u = (un_iters s)[i := Some es']" using absorb_iters [OF u(1)] by simp
      have "work t \<le> work u" using Suc.IH [OF u(2)] it Suc.prems(2) by simp
      also have "\<dots> \<le> work s"
        using absorb_sorted [OF u(1)] it Some Cons Suc.prems(2)
          elem_le_sum_list [of i "map (\<lambda>it. case it of None \<Rightarrow> 0 | Some es \<Rightarrow> length es) (un_iters s)"]
        by (simp add: work_def map_update sum_list_update)
      finally show ?thesis .
    qed
  qed (use Suc.prems in simp)
qed simp

lemma precache_length: "precache ws i n s = Inr t \<Longrightarrow> length (un_iters t) = length (un_iters s)"
proof (induction n arbitrary: s)
  case (Suc n)
  then show ?case
    by (auto simp: bindr_eq_Inr dest!: absorb_iters split: option.splits list.splits)
qed simp

lemma refill_work:
  assumes "refill ws s cl = Inr (t, cl', up)"
  shows "work t \<le> work s"
proof -
  let ?P = "\<lambda>(u :: 'a union_state, c :: nat option, b :: bool). work u \<le> work s \<and> length (un_iters u) = length (un_iters s)"
  have "?P (t, cl', up)"
    using assms unfolding refill_def
  proof (rule foldr_res_invariant [where P = ?P])
    fix i x y
    assume i: "i \<in> set (filter (\<lambda>i. un_iters s ! i \<noteq> None) [0..<length (un_iters s)])" and P: "?P x"
      and r: "refill_one ws i x = Inr y"
    obtain u c b where x: "x = (u, c, b)" by (cases x)
    show "?P y"
    proof (cases "2 * length (un_caches u ! i) < cache_size")
      case True
      then obtain v where v: "precache ws i (cache_size - length (un_caches u ! i)) u = Inr v"
        "y = (v, Some (cache_total v), True)"
        using r by (auto simp: x refill_one_def Let_def bindr_eq_Inr)
      then show ?thesis using precache_work [OF v(1)] precache_length [OF v(1)] P i by (simp add: x)
    qed (use r P in \<open>simp add: x refill_one_def Let_def\<close>)
  qed simp
  then show ?thesis by simp
qed

lemma emit_work:
  assumes "emit s cl W = Inr (Some (y, L))"
  shows "work (ul_state L) < work s"
proof -
  from assms obtain minw docid sorted where "tree_remove (- minw, docid) (un_sorted_mins s) = Inr sorted"
    "un_iters (ul_state L) = un_iters s" "un_sorted_mins (ul_state L) = sorted"
    by (auto simp: emit_def bindr_eq_Inr split: list.splits)
  then show ?thesis by (auto simp: work_def dest: length_tree_remove)
qed

lemma turn_work:
  assumes "turn ws L = Inr (Some (y, L'))"
  shows "work (ul_state L') < work (ul_state L)"
proof -
  obtain r where r: "refill ws (ul_state L) (ul_cache_len L) = Inr r"
    using assms unfolding turn_def bindr_eq_Inr by blast
  obtain s cl up where scu: "r = (s, cl, up)" by (cases r)
  obtain W where "emit s cl W = Inr (Some (y, L'))"
    using assms unfolding turn_def r scu bindr_Inr case_prod_conv bindr_eq_Inr by blast
  from emit_work [OF this] refill_work [OF r [unfolded scu]] show ?thesis by simp
qed

text \<open>What the generator yields, and the exception it ends with, if any.\<close>

function union_yields :: "'w::linordered_field list \<Rightarrow> 'w union_loop \<Rightarrow> (int \<times> 'w) list \<times> py_exc option" where
  "union_yields weights L =
     (case turn weights L of
        Inl e \<Rightarrow> ([], Some e)
      | Inr None \<Rightarrow> ([], None)
      | Inr (Some (y, L')) \<Rightarrow> (case union_yields weights L' of (ys, e) \<Rightarrow> (y # ys, e)))"
  by pat_completeness auto
termination
  by (relation "measure (\<lambda>(weights, L). work (ul_state L))") (auto dest: turn_work)

declare union_yields.simps [simp del]

text \<open>The smallest key of an empty tree is a ValueError.\<close>

definition start_unread :: "'w::linordered_field postings_list \<times> 'w \<Rightarrow> 'w res" where
  "start_unread = (\<lambda>(t, w). case t of [] \<Rightarrow> Inl ValueError | (score, docid) # es \<Rightarrow> Inr (- score * w))"

fun start_unreads :: "('w::linordered_field postings_list \<times> 'w) list \<Rightarrow> 'w list res" where
  "start_unreads [] = Inr []"
| "start_unreads (tw # L) = bindr (start_unread tw) (\<lambda>u. bindr (start_unreads L) (\<lambda>us. Inr (u # us)))"

definition start_loop :: "('w::linordered_field postings_list \<times> 'w) list \<Rightarrow> 'w list \<Rightarrow> 'w union_loop" where
  "start_loop L unread =
     \<lparr>ul_state = \<lparr>un_iters = map (Some \<circ> fst) L, un_unread_max = unread, un_caches = map (\<lambda>_. []) L,
                  un_cacheids = (\<lambda>_. []), un_used = {}, un_sorted_mins = [], un_mins_dict = Map.empty\<rparr>,
      ul_cache_len = None, ul_window = \<lparr>wi_mins = [], wi_docids = [], wi_maxs = []\<rparr>\<rparr>"

definition mass_weightedUnion ::
  "('w::linordered_field postings_list \<times> 'w) list \<Rightarrow> (int \<times> 'w) list \<times> py_exc option" where
  "mass_weightedUnion L =
     (case L of
        [] \<Rightarrow> ([], None)
      | [(tree, weight)] \<Rightarrow> (map (\<lambda>(score, docid). (docid, - score * weight)) tree, None)
      | _ \<Rightarrow> (case start_unreads L of
                Inl e \<Rightarrow> ([], Some e)
              | Inr unread \<Rightarrow> union_yields (map snd L) (start_loop L unread)))"

section \<open>The ranking\<close>

text \<open>
  What the trees say about each document, in the order in which they are read; a document's
  total weight, and the documents by falling weight, those of equal weight by number.
\<close>

definition weighted :: "'w::linordered_field postings_list \<times> 'w \<Rightarrow> (int \<times> 'w) list" where
  "weighted = (\<lambda>(t, w). map (\<lambda>(score, docid). (docid, - score * w)) t)"

definition scores_of :: "('w::linordered_field postings_list \<times> 'w) list \<Rightarrow> (int \<times> 'w) list" where
  "scores_of L = concat (map weighted L)"

definition total_weight :: "(int \<times> 'w::linordered_field) list \<Rightarrow> int \<Rightarrow> 'w" where
  "total_weight E d = sum_list (map snd (filter (\<lambda>x. fst x = d) E))"

definition ranking :: "(int \<times> 'w::linordered_field) list \<Rightarrow> ('w \<times> int) list" where
  "ranking E = sorted_list_of_set ((\<lambda>d. (- total_weight E d, d)) ` fst ` set E)"

lemma ranking_set: "set (ranking E) = (\<lambda>d. (- total_weight E d, d)) ` fst ` set E"
  by (simp add: ranking_def)

lemma ranking_distinct: "distinct (map snd (ranking E))"
proof -
  have "inj_on snd (set (ranking E))" by (auto simp: ranking_set inj_on_def)
  then show ?thesis by (simp add: distinct_map ranking_def)
qed

lemma length_ranking: "length (ranking E) = card (fst ` set E)"
proof -
  have "card ((\<lambda>d. (- total_weight E d, d)) ` fst ` set E) = card (fst ` set E)"
    by (rule card_image) (auto simp: inj_on_def)
  then show ?thesis by (simp add: ranking_def)
qed

lemma total_weight_snoc: "total_weight (E @ [(d, x)]) d' = total_weight E d' + (if d' = d then x else 0)"
  by (simp add: total_weight_def)

lemma total_weight_absent: "d \<notin> fst ` set E \<Longrightarrow> total_weight E d = 0"
proof -
  assume "d \<notin> fst ` set E"
  then have "filter (\<lambda>x. fst x = d) E = []" by (auto simp: filter_empty_conv)
  then show ?thesis by (simp add: total_weight_def)
qed

lemma ranking_snoc:
  "ranking (E @ [(d, x)]) =
     tree_add (- (total_weight E d + x), d)
       (if d \<in> fst ` set E then remove1 (- total_weight E d, d) (ranking E) else ranking E)"
proof -
  let ?A = "(\<lambda>d. (- total_weight E d, d)) ` fst ` set E" and ?y = "(- (total_weight E d + x), d)"
  have eq: "(\<lambda>d'. (- total_weight (E @ [(d, x)]) d', d')) ` fst ` set (E @ [(d, x)]) = insert ?y (?A - {(- total_weight E d, d)})"
  proof -
    let ?f = "\<lambda>d. (- total_weight E d, d)" and ?g = "\<lambda>d'. (- total_weight (E @ [(d, x)]) d', d')" and ?D = "fst ` set E"
    have "?g ` fst ` set (E @ [(d, x)]) = insert (?g d) (?g ` (?D - {d}))" by auto
    also have "?g ` (?D - {d}) = ?f ` (?D - {d})" by (rule image_cong) (auto simp: total_weight_snoc)
    also have "\<dots> = ?f ` ?D - {?f d}" by auto
    finally show ?thesis by (simp add: total_weight_snoc)
  qed
  have fin: "finite (?A - {(- total_weight E d, d)})" by simp
  have new: "?y \<notin> ?A - {(- total_weight E d, d)}" by auto
  have "ranking (E @ [(d, x)]) = insort ?y (sorted_list_of_set (?A - {(- total_weight E d, d)}))"
    unfolding ranking_def eq using sorted_list_of_set_insert [OF fin new] .
  moreover have "sorted_list_of_set (?A - {(- total_weight E d, d)}) =
      (if d \<in> fst ` set E then remove1 (- total_weight E d, d) (ranking E) else ranking E)"
    by (cases "d \<in> fst ` set E") (auto simp: ranking_def sorted_list_of_set_remove image_iff intro!: remove1_idem)
  moreover have "?y \<notin> set (sorted_list_of_set (?A - {(- total_weight E d, d)}))" using new by simp
  ultimately show ?thesis by (simp add: tree_add_def)
qed

section \<open>Short trees are read at once\<close>

definition loaded :: "(int \<times> 'w::linordered_field) list \<Rightarrow> 'w union_state \<Rightarrow> bool" where
  "loaded E s \<longleftrightarrow> un_used s = {} \<and>
     un_mins_dict s = (\<lambda>d. if d \<in> fst ` set E then Some (total_weight E d) else None) \<and>
     un_sorted_mins s = ranking E \<and> (\<forall>d. set (un_cacheids s d) \<subseteq> {..<length (un_caches s)})"

lemma add_score_loaded:
  assumes "loaded E s" "i < length (un_caches s)"
  shows "\<exists>t. add_score i x d s = Inr t \<and> loaded (E @ [(d, x)]) t \<and>
    un_caches t = (un_caches s)[i := AList.update d x (un_caches s ! i)] \<and>
    un_iters t = un_iters s \<and> un_unread_max t = un_unread_max s"
proof (cases "d \<in> fst ` set E")
  case True
  then have "(- total_weight E d, d) \<in> set (ranking E)" by (simp add: ranking_set)
  then show ?thesis
    using assms True
    by (simp add: add_score_def Let_def loaded_def tree_remove_def ranking_snoc total_weight_snoc fun_eq_iff)
next
  case False
  then show ?thesis
    using assms
    by (simp add: add_score_def Let_def loaded_def ranking_snoc total_weight_snoc total_weight_absent fun_eq_iff)
qed

lemma update_new: "d \<notin> fst ` set c \<Longrightarrow> AList.update d x c = c @ [(d, x)]"
  by (induction c) auto

lemma lower_unread_unread: "i < length (un_unread_max s) \<Longrightarrow>
  (un_unread_max (lower_unread i x s))[i := y] = (un_unread_max s)[i := y] \<and>
  length (un_unread_max (lower_unread i x s)) = length (un_unread_max s)"
  by (simp add: lower_unread_def)

lemma precache_loads:
  assumes "un_iters s ! i = Some es" "length es < n" "loaded E s"
    and "i < length (un_caches s)" "i < length (un_iters s)" "i < length (un_unread_max s)"
    and "distinct (map fst (un_caches s ! i) @ map snd es)"
  shows "\<exists>t. precache ws i n s = Inr t \<and> loaded (E @ weighted (es, ws ! i)) t \<and>
    un_caches t = (un_caches s)[i := un_caches s ! i @ weighted (es, ws ! i)] \<and>
    un_iters t = (un_iters s)[i := None] \<and> un_unread_max t = (un_unread_max s)[i := 0]"
  using assms
proof (induction es arbitrary: n E s)
  case Nil
  then obtain m where n: "n = Suc m" by (cases n) auto
  show ?case using Nil.prems by (auto simp: n loaded_def weighted_def)
next
  case (Cons e es)
  obtain sc d where e: "e = (sc, d)" by (cases e)
  obtain m where n: "n = Suc m" using Cons.prems(2) by (cases n) auto
  let ?x = "- sc * ws ! i"
  let ?u = "lower_unread i ?x (s\<lparr>un_iters := (un_iters s)[i := Some es]\<rparr>)"
  have lu: "loaded E ?u" using Cons.prems(3) by (simp add: loaded_def)
  have d: "d \<notin> fst ` set (un_caches s ! i)" using Cons.prems(7) e by auto
  obtain t where t: "add_score i ?x d ?u = Inr t" "loaded (E @ [(d, ?x)]) t"
      "un_caches t = (un_caches s)[i := un_caches s ! i @ [(d, ?x)]]"
      "un_iters t = (un_iters s)[i := Some es]" "un_unread_max t = un_unread_max ?u"
    using add_score_loaded [OF lu, of i ?x d] Cons.prems(4) by (auto simp: update_new [OF d])
  have ab: "absorb ws i e (s\<lparr>un_iters := (un_iters s)[i := Some es]\<rparr>) = Inr t"
    using t(1) Cons.prems(3) by (simp add: absorb_def Let_def e loaded_def)
  have un: "length (un_unread_max t) = length (un_unread_max s)"
    "(un_unread_max t)[i := 0] = (un_unread_max s)[i := 0]"
    using lower_unread_unread [of i "s\<lparr>un_iters := (un_iters s)[i := Some es]\<rparr>" ?x 0] Cons.prems(6) t(5) by simp_all
  have "\<exists>t'. precache ws i m t = Inr t' \<and> loaded ((E @ [(d, ?x)]) @ weighted (es, ws ! i)) t' \<and>
    un_caches t' = (un_caches t)[i := un_caches t ! i @ weighted (es, ws ! i)] \<and>
    un_iters t' = (un_iters t)[i := None] \<and> un_unread_max t' = (un_unread_max t)[i := 0]"
    by (rule Cons.IH) (use Cons.prems e n un t in auto)
  moreover have "precache ws i n s = precache ws i m t" by (simp add: n Cons.prems(1) ab)
  moreover have "weighted (e # es, ws ! i) = (d, ?x) # weighted (es, ws ! i)" by (simp add: weighted_def e)
  ultimately show ?case using Cons.prems(4,5) t(3,4) un by auto
qed


lemma start_unreads_length: "start_unreads L = Inr us \<Longrightarrow> length us = length L"
  by (induction L arbitrary: us) (auto simp: bindr_eq_Inr)

lemma start_unreads_total: "\<forall>(t, w) \<in> set L. t \<noteq> [] \<Longrightarrow> \<exists>us. start_unreads L = Inr us"
proof (induction L)
  case (Cons tw L)
  then obtain us where "start_unreads L = Inr us" by auto
  moreover obtain sc d es w where "tw = ((sc, d) # es, w)" using Cons.prems by (cases tw) (auto simp: neq_Nil_conv)
  ultimately show ?case by (simp add: start_unread_def)
qed simp

text \<open>The trees of the words: pairs of a negative score and a docid, each docid once.\<close>

definition tree_ok :: "'w::linordered_field postings_list \<times> 'w \<Rightarrow> bool" where
  "tree_ok = (\<lambda>(t, w). t \<noteq> [] \<and> distinct (map snd t) \<and> (\<forall>(score, d) \<in> set t. score < 0) \<and> w > 0)"

lemma refill_prefix:
  assumes L: "\<forall>(t, w) \<in> set L. length t < cache_size \<and> distinct (map snd t)" and us: "length us = length L"
    and k: "k \<le> length L"
  shows "\<exists>t cl. foldr_res (refill_one (map snd L)) [0..<k] (ul_state (start_loop L us), None, False) = Inr (t, cl, k > 0)
    \<and> (k > 0 \<longrightarrow> cl = Some (cache_total t)) \<and> loaded (scores_of (take k L)) t
    \<and> un_caches t = map weighted (take k L) @ replicate (length L - k) []
    \<and> un_iters t = replicate k None @ map (Some \<circ> fst) (drop k L)
    \<and> un_unread_max t = replicate k 0 @ drop k us"
  using k
proof (induction k)
  case 0
  have "map (\<lambda>_. []) L = replicate (length L) []" by (rule map_replicate_const)
  then show ?case
    by (simp add: start_loop_def loaded_def scores_of_def ranking_def fun_eq_iff)
next
  case (Suc k)
  then obtain s cl where s: "foldr_res (refill_one (map snd L)) [0..<k] (ul_state (start_loop L us), None, False) = Inr (s, cl, k > 0)"
    "loaded (scores_of (take k L)) s" "un_caches s = map weighted (take k L) @ replicate (length L - k) []"
    "un_iters s = replicate k None @ map (Some \<circ> fst) (drop k L)" "un_unread_max s = replicate k 0 @ drop k us"
    by auto
  have k: "k < length L" using Suc.prems by simp
  obtain t w where tw: "L ! k = (t, w)" by (cases "L ! k")
  have ok: "length t < cache_size" "distinct (map snd t)" using L nth_mem [OF k] tw by auto
  have drop: "drop k L = (t, w) # drop (Suc k) L" using Cons_nth_drop_Suc [OF k] tw by simp
  have take: "take (Suc k) L = take k L @ [(t, w)]" using take_Suc_conv_app_nth [OF k] tw by simp
  have drop_us: "drop k us = us ! k # drop (Suc k) us" using Cons_nth_drop_Suc [of k us] k us by simp
  have rep: "replicate (length L - k) ([] :: (int \<times> 'a) list) = [] # replicate (length L - Suc k) []"
    using k by (metis Suc_diff_Suc replicate_Suc)
  have at: "un_iters s ! k = Some t" "un_caches s ! k = []"
    using k by (simp_all add: s(3,4) nth_append drop rep)
  have "\<exists>u. precache (map snd L) k cache_size s = Inr u \<and> loaded (scores_of (take k L) @ weighted (t, map snd L ! k)) u \<and>
    un_caches u = (un_caches s)[k := un_caches s ! k @ weighted (t, map snd L ! k)] \<and>
    un_iters u = (un_iters s)[k := None] \<and> un_unread_max u = (un_unread_max s)[k := 0]"
    by (rule precache_loads) (use at ok k us s in simp_all)
  then obtain u where u: "precache (map snd L) k cache_size s = Inr u" "loaded (scores_of (take k L) @ weighted (t, w)) u"
    "un_caches u = (un_caches s)[k := weighted (t, w)]"
    "un_iters u = (un_iters s)[k := None]" "un_unread_max u = (un_unread_max s)[k := 0]"
    using k tw at by auto
  have "foldr_res (refill_one (map snd L)) [0..<Suc k] (ul_state (start_loop L us), None, False) = Inr (u, Some (cache_total u), True)"
    using s(1) u(1) at by (simp add: foldr_res_append refill_one_def Let_def cache_size_def)
  moreover have "loaded (scores_of (take (Suc k) L)) u" using u(2) by (simp add: take scores_of_def)
  moreover have "un_caches u = map weighted (take (Suc k) L) @ replicate (length L - Suc k) []"
    using u(3) k by (simp add: s(3) take rep list_update_append)
  moreover have "un_iters u = replicate (Suc k) None @ map (Some \<circ> fst) (drop (Suc k) L)"
    using u(4) k by (simp add: s(4) drop list_update_append replicate_app_Cons_same)
  moreover have "un_unread_max u = replicate (Suc k) 0 @ drop (Suc k) us"
    using u(5) k by (simp add: s(5) drop_us list_update_append replicate_app_Cons_same)
  ultimately show ?case by (intro exI [where x = u] exI [where x = "Some (cache_total u)"]) simp
qed

lemma refill_all:
  assumes "\<forall>(t, w) \<in> set L. length t < cache_size \<and> distinct (map snd t)" "length us = length L" "L \<noteq> []"
  shows "\<exists>t. refill (map snd L) (ul_state (start_loop L us)) None = Inr (t, Some (cache_total t), True)
    \<and> loaded (scores_of L) t \<and> un_caches t = map weighted L
    \<and> un_iters t = replicate (length L) None \<and> un_unread_max t = replicate (length L) 0"
proof -
  have "filter (\<lambda>i. un_iters (ul_state (start_loop L us)) ! i \<noteq> None) [0..<length (un_iters (ul_state (start_loop L us)))]
      = [0..<length L]"
    by (simp add: start_loop_def filter_id_conv)
  then show ?thesis
    using refill_prefix [OF assms(1,2) order.refl] assms(3) by (auto simp: refill_def assms(2))
qed

section \<open>What is read is yielded in order\<close>

definition drained :: "('w::linordered_field \<times> int) list \<Rightarrow> 'w union_state \<Rightarrow> bool" where
  "drained R s \<longleftrightarrow> (\<forall>it \<in> set (un_iters s). it = None) \<and> (\<forall>u \<in> set (un_unread_max s). u = 0) \<and>
     length (un_caches s) = length (un_unread_max s) \<and> un_sorted_mins s = R \<and>
     sorted R \<and> distinct (map snd R) \<and> (\<forall>x \<in> set R. fst x < 0) \<and>
     (\<forall>c \<in> set (un_caches s). distinct (map fst c) \<and> (\<forall>x \<in> set c. snd x > 0)) \<and>
     snd ` set R = fst ` set (concat (un_caches s)) \<and>
     (\<forall>d. set (un_cacheids s d) \<subseteq> {..<length (un_caches s)})"

definition window_of :: "nat \<Rightarrow> ('w::linordered_field \<times> int) list \<Rightarrow> 'w window" where
  "window_of k R = \<lparr>wi_mins = map (\<lambda>(w, d). - w) (take k R), wi_docids = map snd (take k R),
                    wi_maxs = map (\<lambda>(w, d). - w) (take k R)\<rparr>"

lemma refill_drained: "\<forall>it \<in> set (un_iters s). it = None \<Longrightarrow> refill ws s cl = Inr (s, cl, False)"
proof -
  assume "\<forall>it \<in> set (un_iters s). it = None"
  then have "filter (\<lambda>i. un_iters s ! i \<noteq> None) [0..<length (un_iters s)] = []"
    by (auto simp: filter_empty_conv dest: nth_mem)
  then show ?thesis by (simp add: refill_def)
qed

lemma sum_list_0: "\<forall>x \<in> set xs. x = 0 \<Longrightarrow> sum_list xs = (0 :: 'a::monoid_add)"
  by (induction xs) auto

lemma not_violated:
  assumes "wi_maxs W = wi_mins W" "max_sum s = 0"
    and "\<And>m i. m \<in> set (drop (i + order_violation) (wi_mins W)) \<Longrightarrow> m \<le> wi_mins W ! i"
    and "\<And>i. i < length (wi_mins W) \<Longrightarrow> 0 < wi_mins W ! i"
  shows "\<not> violated s W"
  using assms(3) assms(4) [of "order_size - order_violation"]
  unfolding violated_def assms(1,2) by (auto simp: not_less order_size_def order_violation_def dest: less_imp_le)

lemma update_window_drained:
  assumes "drained R s"
  shows "update_window s = Inr (window_of order_size R)"
proof -
  have zero: "un_unread_max s ! i = 0" if "i < length (un_caches s)" for i
    using assms that nth_mem [of i "un_unread_max s"] by (auto simp: drained_def)
  have "sum_list (map (\<lambda>i. un_unread_max s ! i) is) = 0" if "set is \<subseteq> {..<length (un_caches s)}" for "is"
    using that by (induction "is") (auto simp: zero)
  moreover have "set (un_cacheids s d) \<subseteq> {..<length (un_caches s)}" for d
    using assms unfolding drained_def by (elim conjE) (erule spec)
  ultimately have ids: "sum_list (map (\<lambda>i. un_unread_max s ! i) (un_cacheids s d)) = 0" for d by blast
  have sum: "max_sum s = 0"
    unfolding max_sum_def using assms by (intro sum_list_0) (simp add: drained_def)
  have W: "make_window s = window_of order_size R"
    using assms by (auto simp: make_window_def window_of_def Let_def ids sum drained_def)
  let ?ms = "map (\<lambda>(w, d). - w) (take order_size R)"
  have anti: "?ms ! j \<le> ?ms ! i" if "i \<le> j" "j < length ?ms" for i j
  proof -
    have "sorted (take order_size R)" using assms by (simp add: drained_def sorted_wrt_take)
    then have "take order_size R ! i \<le> take order_size R ! j"
      using that by (intro sorted_nth_mono) auto
    then show ?thesis using that by (auto simp: less_eq_prod_def split: prod.split)
  qed
  have "m \<le> ?ms ! i" if m: "m \<in> set (drop (i + order_violation) ?ms)" for m i
  proof -
    obtain j where j: "j < length (drop (i + order_violation) ?ms)" "drop (i + order_violation) ?ms ! j = m"
      using m unfolding in_set_conv_nth by (elim exE conjE)
    have le: "i + order_violation \<le> length ?ms" and "i + order_violation + j < length ?ms"
      using j(1) unfolding length_drop by linarith+
    moreover have "m = ?ms ! (i + order_violation + j)" using nth_drop [OF le, of j] j(2) by (simp only:)
    ultimately show ?thesis using anti [of i "i + order_violation + j"] by simp
  qed
  moreover have "0 < ?ms ! i" if "i < length ?ms" for i
  proof -
    have "R ! i \<in> set R" using that by simp
    then have "fst (R ! i) < 0" using assms unfolding drained_def by blast
    then show ?thesis using that by (cases "R ! i") simp
  qed
  ultimately have "\<not> violated s (window_of order_size R)"
    using sum by (intro not_violated) (simp_all add: window_of_def)
  then show ?thesis by (simp add: update_window_def W)
qed


lemma delete_new: "d \<notin> fst ` set c \<Longrightarrow> AList.delete d c = c"
  by (force simp: AList.delete_eq filter_id_conv)

lemma forget_drained:
  assumes "\<forall>x \<in> set c. snd x > 0"
  shows "forget d (c, 0) = Inr (AList.delete d c, 0)"
proof (cases "map_of c d")
  case None
  then have "AList.delete d c = c" by (intro delete_new) (simp add: map_of_eq_None_iff)
  then show ?thesis by (simp add: forget_def None)
next
  case (Some x)
  then have "x > 0" using assms map_of_SomeD [OF Some] by auto
  then show ?thesis by (simp add: forget_def Some)
qed

lemma forget_all_drained:
  assumes "\<forall>c \<in> set cs. \<forall>x \<in> set c. snd x > 0" "length us = length cs" "\<forall>u \<in> set us. u = 0"
  shows "forget_all d (zip cs us) = Inr (zip (map (AList.delete d) cs) us)"
  using assms(2,1,3)
proof (induction us cs rule: list_induct2)
  case (Cons u us c cs)
  then show ?case by (simp add: forget_drained)
qed simp

lemma length_delete: "distinct (map fst c) \<Longrightarrow>
  length (AList.delete d c) + (if d \<in> fst ` set c then 1 else 0) = length c"
proof (induction c)
  case (Cons x c)
  obtain k v where x: "x = (k, v)" by (cases x)
  show ?case
  proof (cases "k = d")
    case True
    then have "AList.delete d c = c" using Cons.prems by (intro delete_new) (simp add: x)
    then show ?thesis by (simp add: x True)
  next
    case False
    then have "length (AList.delete d (x # c)) = Suc (length (AList.delete d c))" "d \<in> fst ` set (x # c) \<longleftrightarrow> d \<in> fst ` set c"
      by (auto simp: x AList.delete_eq)
    then show ?thesis using Cons by simp
  qed
qed simp

lemma cache_total_delete:
  assumes "\<forall>c \<in> set cs. distinct (map fst c)"
  shows "sum_list (map length (map (AList.delete d) cs)) = sum_list (map length cs) - copies d cs"
    and "copies d cs \<le> sum_list (map length cs)"
proof -
  have "sum_list (map length cs) = sum_list (map length (map (AList.delete d) cs)) + copies d cs"
    using assms
  proof (induction cs)
    case (Cons c cs)
    then show ?case using length_delete [of c d] by (cases "d \<in> fst ` set c") (simp_all add: copies_def)
  qed (simp add: copies_def)
  then show "sum_list (map length (map (AList.delete d) cs)) = sum_list (map length cs) - copies d cs"
    and "copies d cs \<le> sum_list (map length cs)" by simp_all
qed

text \<open>A round that yields, and the end.\<close>

lemma emit_drained:
  assumes "drained (r # R) s" "k > 0"
  shows "\<exists>L. emit s (Some (cache_total s)) (window_of k (r # R)) = Inr (Some ((snd r, - fst r), L))
    \<and> drained R (ul_state L) \<and> ul_cache_len L = Some (cache_total (ul_state L)) \<and> ul_window L = window_of (k - 1) R
    \<and> un_caches (ul_state L) = map (AList.delete (snd r)) (un_caches s)"
proof -
  obtain w d where r: "r = (w, d)" by (cases r)
  obtain k' where k': "k = Suc k'" using assms(2) by (cases k) auto
  have fa: "forget_all d (zip (un_caches s) (un_unread_max s)) =
      Inr (zip (map (AList.delete d) (un_caches s)) (un_unread_max s))"
    using assms(1) by (intro forget_all_drained) (auto simp: drained_def)
  let ?s = "s\<lparr>un_caches := map (AList.delete d) (un_caches s), un_used := insert d (un_used s),
      un_sorted_mins := R, un_mins_dict := (un_mins_dict s)(d := None)\<rparr>"
  have len: "length (un_caches s) = length (un_unread_max s)" and sorted: "un_sorted_mins s = (w, d) # R"
    using assms(1) by (simp_all add: drained_def r)
  have total: "cache_total ?s = cache_total s - copies d (un_caches s)"
    using assms(1) cache_total_delete(1) [of "un_caches s" d] by (simp add: cache_total_def drained_def)
  have "emit s (Some (cache_total s)) (window_of k (r # R)) =
      Inr (Some ((d, - w), \<lparr>ul_state = ?s, ul_cache_len = Some (cache_total ?s), ul_window = window_of k' R\<rparr>))"
    by (simp add: emit_def window_of_def k' r fa sorted tree_remove_def len total)
  moreover have "drained R ?s"
  proof -
    have notin: "d \<notin> snd ` set R" using assms(1) by (simp add: drained_def r)
    have "insert d (snd ` set R) = fst ` set (concat (un_caches s))" using assms(1) by (simp add: drained_def r)
    then have "snd ` set R = fst ` set (concat (un_caches s)) - {d}" using notin by blast
    also have "\<dots> = fst ` set (concat (map (AList.delete d) (un_caches s)))"
      by (auto simp: AList.delete_eq image_iff)
    finally have "snd ` set R = fst ` set (concat (map (AList.delete d) (un_caches s)))" .
    moreover have "\<forall>c \<in> set (un_caches s). distinct (map fst (AList.delete d c)) \<and> (\<forall>x \<in> set (AList.delete d c). snd x > 0)"
      using assms(1) by (auto simp: drained_def AList.delete_eq distinct_map_filter)
    moreover have "\<forall>d. set (un_cacheids s d) \<subseteq> {..<length (un_caches s)}" using assms(1) unfolding drained_def by (elim conjE)
    ultimately show ?thesis using assms(1) by (simp add: drained_def r)
  qed
  ultimately show ?thesis by (simp add: r k')
qed

lemma emit_empty: "k = 0 \<or> R = [] \<Longrightarrow> emit s cl (window_of k R) = Inr None"
  by (auto simp: emit_def window_of_def)

definition next_size :: "nat \<Rightarrow> nat \<Rightarrow> nat \<Rightarrow> nat" where
  "next_size cl k n = (if cl > 3 \<and> k < 3 then min 15 n else k)"

lemma turn_drained:
  assumes "drained R s" "k \<le> length R"
  shows "turn ws \<lparr>ul_state = s, ul_cache_len = Some (cache_total s), ul_window = window_of k R\<rparr> =
    emit s (Some (cache_total s)) (window_of (next_size (cache_total s) k (length R)) R)"
proof -
  have "window_of order_size R = window_of (min 15 (length R)) R"
    by (simp add: window_of_def order_size_def min_def)
  then show ?thesis
    using assms(2)
    by (simp add: turn_def refill_drained [of s] assms(1) [unfolded drained_def] needs_window_def next_size_def
        update_window_drained [OF assms(1)] order_violation_def window_of_def min_def)
qed

lemma cache_total_ge: "drained R s \<Longrightarrow> length R \<le> cache_total s"
proof -
  assume d: "drained R s"
  then have "length R = card (snd ` set R)" by (metis drained_def distinct_card length_map list.set_map)
  also have "\<dots> = card (set (map fst (concat (un_caches s))))" using d by (simp add: drained_def)
  also have "\<dots> \<le> length (concat (un_caches s))" using card_length [of "map fst (concat (un_caches s))"] by simp
  finally show ?thesis by (simp add: cache_total_def length_concat)
qed

definition yields :: "('w::linordered_field \<times> int) list \<Rightarrow> (int \<times> 'w) list" where
  "yields R = map (\<lambda>(w, d). (d, - w)) R"

lemma drain:
  assumes "drained R s" "k \<le> length R"
  shows "\<exists>n \<le> length R. union_yields ws \<lparr>ul_state = s, ul_cache_len = Some (cache_total s), ul_window = window_of k R\<rparr>
      = (yields (take n R), None) \<and> (length R \<ge> 4 \<or> length R \<le> k + 1 \<longrightarrow> length R \<le> n + 1) \<and> (k = length R \<longrightarrow> n = length R)"
  using assms
proof (induction R arbitrary: s k)
  case Nil
  then show ?case
    by (simp add: union_yields.simps [of ws "\<lparr>ul_state = _, ul_cache_len = _, ul_window = _\<rparr>"] turn_drained emit_empty yields_def)
next
  case (Cons r R)
  let ?L = "\<lparr>ul_state = s, ul_cache_len = Some (cache_total s), ul_window = window_of k (r # R)\<rparr>"
  let ?k = "next_size (cache_total s) k (length (r # R))"
  have cl: "length (r # R) \<le> cache_total s" by (rule cache_total_ge [OF Cons.prems(1)])
  have k: "?k \<le> length (r # R)" using Cons.prems(2) by (simp add: next_size_def)
  show ?case
  proof (cases "?k = 0")
    case True
    then have "union_yields ws ?L = ([], None)"
      by (simp add: union_yields.simps [of ws ?L] turn_drained [OF Cons.prems] emit_empty del: length_Cons)
    moreover have "k = 0 \<and> cache_total s \<le> 3" using True Cons.prems(2) by (auto simp: next_size_def split: if_splits)
    ultimately show ?thesis using cl by (intro exI [where x = 0]) (auto simp: yields_def)
  next
    case False
    then obtain L where L: "emit s (Some (cache_total s)) (window_of ?k (r # R)) = Inr (Some ((snd r, - fst r), L))"
      "drained R (ul_state L)" "ul_cache_len L = Some (cache_total (ul_state L))" "ul_window L = window_of (?k - 1) R"
      using emit_drained [OF Cons.prems(1), of ?k] by blast
    have Leq: "L = \<lparr>ul_state = ul_state L, ul_cache_len = Some (cache_total (ul_state L)), ul_window = window_of (?k - 1) R\<rparr>"
      using L(3,4) by simp
    have "?k - 1 \<le> length R" using k by simp
    from Cons.IH [OF L(2) this] obtain n where n: "n \<le> length R" "union_yields ws L = (yields (take n R), None)"
      "length R \<ge> 4 \<or> length R \<le> ?k - 1 + 1 \<longrightarrow> length R \<le> n + 1" "?k - 1 = length R \<longrightarrow> n = length R"
      using Leq by auto
    have "union_yields ws ?L = ((snd r, - fst r) # yields (take n R), None)"
      unfolding union_yields.simps [of ws ?L] turn_drained [OF Cons.prems] L(1) by (simp add: n(2))
    moreover have "length (r # R) \<ge> 4 \<or> length (r # R) \<le> k + 1 \<longrightarrow> length R \<ge> 4 \<or> length R \<le> ?k - 1 + 1"
      using False Cons.prems(2) cl by (auto simp: next_size_def split: if_splits)
    moreover have "k = length (r # R) \<longrightarrow> ?k - 1 = length R" by (auto simp: next_size_def)
    ultimately show ?thesis
      using n by (intro exI [where x = "Suc n"]) (auto simp: yields_def split: prod.split)
  qed
qed

lemma weighted_keys: "map fst (weighted (t, w)) = map snd t"
  by (simp add: weighted_def comp_def split_def)

lemma weighted_pos: "tree_ok (t, w) \<Longrightarrow> x \<in> set (weighted (t, w)) \<Longrightarrow> snd x > 0"
  by (auto simp: tree_ok_def weighted_def mult_neg_pos)

lemma total_weight_pos:
  assumes "\<forall>x \<in> set E. snd x > 0" "d \<in> fst ` set E"
  shows "total_weight E d > 0"
proof -
  have "sum_list (map snd xs) > 0" if "xs \<noteq> []" "\<forall>x \<in> set xs. snd x > 0" for xs :: "(int \<times> 'a) list"
    using that
  proof (induction xs)
    case (Cons x xs)
    then show ?case by (cases "xs = []") (auto intro: add_pos_pos)
  qed simp
  moreover have "filter (\<lambda>x. fst x = d) E \<noteq> []" using assms(2) by (auto simp: filter_empty_conv)
  ultimately show ?thesis using assms(1) by (simp add: total_weight_def)
qed

lemma loaded_drained:
  assumes L: "\<forall>tw \<in> set L. tree_ok tw" and t: "loaded (scores_of L) t" "un_caches t = map weighted L"
    "un_iters t = replicate (length L) None" "un_unread_max t = replicate (length L) 0"
  shows "drained (ranking (scores_of L)) t"
proof -
  have pos: "\<forall>x \<in> set (scores_of L). snd x > 0"
    using L weighted_pos by (fastforce simp: scores_of_def)
  have "fst x < 0" if "x \<in> set (ranking (scores_of L))" for x
    using that total_weight_pos [OF pos] by (force simp: ranking_set)
  moreover have "distinct (map fst c) \<and> (\<forall>x \<in> set c. snd x > 0)" if c: "c \<in> set (map weighted L)" for c
  proof -
    obtain tr w where tw: "(tr, w) \<in> set L" "c = weighted (tr, w)" using c by auto
    then have ok: "tree_ok (tr, w)" using L by blast
    then show ?thesis using tw(2) weighted_pos [OF ok] by (simp add: weighted_keys) (simp add: tree_ok_def)
  qed
  moreover have "snd ` set (ranking (scores_of L)) = fst ` set (concat (map weighted L))"
    by (force simp: ranking_set scores_of_def)
  moreover have "\<forall>d. set (un_cacheids t d) \<subseteq> {..<length (un_caches t)}" using t(1) by (simp add: loaded_def)
  ultimately show ?thesis
    using t ranking_distinct [of "scores_of L"] unfolding drained_def
    by (simp add: loaded_def ranking_def)
qed

lemma union_yields_cong: "turn ws A = turn ws B \<Longrightarrow> union_yields ws A = union_yields ws B"
  by (simp add: union_yields.simps [of ws A] union_yields.simps [of ws B])

text \<open>The generator's start and first read, for short trees.\<close>

lemma union_short:
  assumes "length L \<ge> 2" "\<forall>tw \<in> set L. tree_ok tw \<and> length (fst tw) < cache_size"
  obtains t where "drained (ranking (scores_of L)) t" "un_caches t = map weighted L"
    "mass_weightedUnion L = union_yields (map snd L)
       \<lparr>ul_state = t, ul_cache_len = Some (cache_total t),
        ul_window = window_of (min 15 (length (ranking (scores_of L)))) (ranking (scores_of L))\<rparr>"
proof -
  let ?R = "ranking (scores_of L)"
  have ok: "\<forall>tw \<in> set L. tree_ok tw" "\<forall>(t, w) \<in> set L. t \<noteq> []"
    "\<forall>(t, w) \<in> set L. length t < cache_size \<and> distinct (map snd t)"
    using assms(2) by (auto simp: tree_ok_def)
  obtain us where us: "start_unreads L = Inr us" using start_unreads_total [OF ok(2)] by blast
  have "L \<noteq> []" using assms(1) by auto
  from refill_all [OF ok(3) start_unreads_length [OF us] this]
  obtain t where t: "refill (map snd L) (ul_state (start_loop L us)) None = Inr (t, Some (cache_total t), True)"
    "loaded (scores_of L) t" "un_caches t = map weighted L"
    "un_iters t = replicate (length L) None" "un_unread_max t = replicate (length L) 0" by blast
  have dr: "drained ?R t" by (rule loaded_drained [OF ok(1) t(2-5)])
  let ?k = "min 15 (length ?R)"
  let ?L = "\<lparr>ul_state = t, ul_cache_len = Some (cache_total t), ul_window = window_of ?k ?R\<rparr>"
  have w: "window_of order_size ?R = window_of ?k ?R" by (simp add: window_of_def order_size_def min_def)
  have "turn (map snd L) (start_loop L us) = emit t (Some (cache_total t)) (window_of ?k ?R)"
    using t(1) update_window_drained [OF dr]
    by (simp add: turn_def needs_window_def w) (simp add: start_loop_def)
  moreover have "turn (map snd L) ?L = emit t (Some (cache_total t)) (window_of ?k ?R)"
    using turn_drained [OF dr, of ?k "map snd L"] by (simp add: next_size_def)
  ultimately have "union_yields (map snd L) (start_loop L us) = union_yields (map snd L) ?L"
    by (intro union_yields_cong) simp
  moreover have "mass_weightedUnion L = union_yields (map snd L) (start_loop L us)"
    using assms(1) us by (cases L; cases "tl L") (auto simp: mass_weightedUnion_def)
  ultimately show thesis using that [OF dr t(3)] by simp
qed

section \<open>Documents with one of the words\<close>

fun yielded :: "nat \<Rightarrow> nat \<Rightarrow> nat" where
  "yielded 0 k = 0"
| "yielded (Suc r) k =
     (let k' = next_size (Suc r) k (Suc r) in if k' = 0 then 0 else Suc (yielded r (k' - 1)))"

lemma drain_disjoint:
  assumes "drained R s" "k \<le> length R" "distinct (map fst (concat (un_caches s)))"
  shows "union_yields ws \<lparr>ul_state = s, ul_cache_len = Some (cache_total s), ul_window = window_of k R\<rparr>
      = (yields (take (yielded (length R) k) R), None)"
  using assms
proof (induction R arbitrary: s k)
  case Nil
  then show ?case
    by (simp add: union_yields.simps [of ws "\<lparr>ul_state = _, ul_cache_len = _, ul_window = _\<rparr>"] turn_drained emit_empty yields_def)
next
  case (Cons r R)
  let ?L = "\<lparr>ul_state = s, ul_cache_len = Some (cache_total s), ul_window = window_of k (r # R)\<rparr>"
  let ?k = "next_size (cache_total s) k (length (r # R))"
  have "card (snd ` set (r # R)) = length (r # R)"
    using Cons.prems(1) by (metis drained_def distinct_card length_map list.set_map)
  moreover have "card (fst ` set (concat (un_caches s))) = length (concat (un_caches s))"
    using Cons.prems(3) by (metis distinct_card length_map list.set_map)
  ultimately have cl: "cache_total s = length (r # R)"
    using Cons.prems(1) by (simp add: drained_def cache_total_def length_concat)
  have k: "?k \<le> length (r # R)" using Cons.prems(2) by (simp add: next_size_def)
  show ?case
  proof (cases "?k = 0")
    case True
    then show ?thesis
      unfolding union_yields.simps [of ws ?L] turn_drained [OF Cons.prems(1,2)]
      using cl by (simp add: emit_empty yields_def)
  next
    case False
    then obtain L where L: "emit s (Some (cache_total s)) (window_of ?k (r # R)) = Inr (Some ((snd r, - fst r), L))"
      "drained R (ul_state L)" "ul_cache_len L = Some (cache_total (ul_state L))" "ul_window L = window_of (?k - 1) R"
      "un_caches (ul_state L) = map (AList.delete (snd r)) (un_caches s)"
      using emit_drained [OF Cons.prems(1), of ?k] by blast
    have Leq: "L = \<lparr>ul_state = ul_state L, ul_cache_len = Some (cache_total (ul_state L)), ul_window = window_of (?k - 1) R\<rparr>"
      using L(3,4) by simp
    have dist: "distinct (map fst (concat (un_caches (ul_state L))))"
      using Cons.prems(3) by (simp add: L(5) AList.delete_eq distinct_map_filter flip: filter_concat)
    have "?k - 1 \<le> length R" using k by simp
    from Cons.IH [OF L(2) this dist] have "union_yields ws L = (yields (take (yielded (length R) (?k - 1)) R), None)"
      using Leq by simp
    then show ?thesis
      unfolding union_yields.simps [of ws ?L] turn_drained [OF Cons.prems(1,2)] L(1)
      using False cl by (simp add: yields_def split: prod.split)
  qed
qed

lemma yielded_all: "k = r \<Longrightarrow> r \<le> 15 \<Longrightarrow> yielded r k = r"
  by (induction r arbitrary: k) (auto simp: Let_def next_size_def)

lemma yielded_run: "j \<le> 13 \<Longrightarrow> j \<le> r \<Longrightarrow> yielded r 15 = j + yielded (r - j) (15 - j)"
proof (induction j)
  case (Suc j)
  then obtain m where m: "r - j = Suc m" by (cases "r - j") auto
  have "next_size (r - j) (15 - j) (r - j) = 15 - j"
  proof -
    have "\<not> 15 - j < 3" using Suc.prems by linarith
    then show ?thesis by (simp add: next_size_def)
  qed
  then have "yielded (r - j) (15 - j) = Suc (yielded m (15 - Suc j))"
    using Suc.prems m by (simp add: Let_def)
  moreover have "m = r - Suc j" using m by simp
  ultimately show ?case using Suc by simp
qed simp

lemma yielded_refill: "4 \<le> n \<Longrightarrow> yielded n 2 = yielded n (min 15 n)"
  by (cases n) (auto simp: Let_def next_size_def)

lemma yielded_many: "17 \<le> r \<Longrightarrow> yielded r 15 = 13 + yielded (r - 13) (min 15 (r - 13))"
  using yielded_run [of 13 r] yielded_refill [of "r - 13"] by simp

lemma yielded_sixteen: "yielded 16 15 = 15"
  using yielded_run [of 13 16] by (simp add: numeral_2_eq_2 numeral_3_eq_3 next_size_def)

lemma yielded_count: "yielded r (min 15 r) = (if 16 \<le> r \<and> r mod 13 = 3 then r - 1 else r)"
proof (induction r rule: less_induct)
  case (less r)
  consider "r \<le> 15" | "r = 16" | "17 \<le> r" by linarith
  then show ?case
  proof cases
    case 1
    then show ?thesis using yielded_all [of r r] by simp
  next
    case 2
    then show ?thesis by (simp add: yielded_sixteen)
  next
    case 3
    have "(16 \<le> r - 13 \<and> (r - 13) mod 13 = 3) = (16 \<le> r \<and> r mod 13 = 3)"
    proof (cases "r < 29")
      case True
      then have "(r - 13) mod 13 \<noteq> 3"
        using 3 by (cases "r - 13 < 13") (auto simp: le_mod_geq [of 13 "r - 13"])
      then show ?thesis using True 3 le_mod_geq [of 13 r] by simp
    next
      case False
      then show ?thesis using le_mod_geq [of 13 r] by auto
    qed
    then show ?thesis using yielded_many [OF 3] less.IH [of "r - 13"] 3 by auto
  qed
qed

section \<open>Nothing twice\<close>

text \<open>
  Whatever the trees: a document that waits in the sorted weights is one of the trees and
  has not been yielded before.
\<close>

definition waiting :: "int set \<Rightarrow> 'w::linordered_field union_state \<Rightarrow> bool" where
  "waiting T s \<longleftrightarrow> (\<forall>it \<in> set (un_iters s). \<forall>es. it = Some es \<longrightarrow> snd ` set es \<subseteq> T) \<and>
     distinct (un_sorted_mins s) \<and> (\<forall>(w, d) \<in> set (un_sorted_mins s). un_mins_dict s d = Some (- w)) \<and>
     dom (un_mins_dict s) \<subseteq> T - un_used s"

lemma tree_add_set: "set (tree_add x xs) = insert x (set xs)" "distinct xs \<Longrightarrow> distinct (tree_add x xs)"
  by (auto simp: tree_add_def set_insort_key distinct_insort)

lemma add_score_waiting:
  assumes "waiting T s" "d \<in> T - un_used s" "add_score i x d s = Inr t"
  shows "waiting T t \<and> un_iters t = un_iters s \<and> un_used t = un_used s"
proof -
  obtain ms where ms: "(case un_mins_dict s d of None \<Rightarrow> Inr (un_sorted_mins s)
      | Some m \<Rightarrow> tree_remove (- m, d) (un_sorted_mins s)) = Inr ms"
    using assms(3) unfolding add_score_def Let_def bindr_eq_Inr by blast
  have dist: "distinct (un_sorted_mins s)"
    and key: "\<And>w d. (w, d) \<in> set (un_sorted_mins s) \<Longrightarrow> un_mins_dict s d = Some (- w)"
    using assms(1) by (auto simp: waiting_def)
  have "distinct ms \<and> (\<forall>(w, d') \<in> set ms. d' \<noteq> d \<and> un_mins_dict s d' = Some (- w))"
  proof (cases "un_mins_dict s d")
    case None
    then show ?thesis using ms dist key by fastforce
  next
    case (Some m)
    then have "ms = remove1 (- m, d) (un_sorted_mins s)" using ms by (auto simp: tree_remove_def split: if_splits)
    then have "distinct ms" "set ms = set (un_sorted_mins s) - {(- m, d)}" using dist by simp_all
    then show ?thesis using key Some by fastforce
  qed
  moreover obtain tot where t: "un_mins_dict t = (un_mins_dict s)(d \<mapsto> tot)" "un_sorted_mins t = tree_add (- tot, d) ms"
    "un_iters t = un_iters s" "un_used t = un_used s"
    using assms(3) unfolding add_score_def Let_def ms bindr_Inr by fastforce
  moreover have "dom (un_mins_dict t) \<subseteq> T - un_used t"
    using assms(1,2) by (simp add: t waiting_def)
  ultimately show ?thesis
    using assms(1) unfolding waiting_def by (auto simp: tree_add_set)
qed

lemma lower_unread_waiting: "waiting T (lower_unread i x s) = waiting T s"
  by (simp add: waiting_def)

lemma absorb_waiting:
  assumes "waiting T s" "snd e \<in> T" "absorb ws i e s = Inr t"
  shows "waiting T t \<and> un_iters t = un_iters s \<and> un_used t = un_used s"
proof (cases "snd e \<in> un_used s")
  case True
  then show ?thesis using assms by (auto simp: absorb_def Let_def lower_unread_waiting)
next
  case False
  then show ?thesis
    using add_score_waiting [of T "lower_unread i (- fst e * ws ! i) s" "snd e" i "- fst e * ws ! i" t] assms
    by (simp add: absorb_def Let_def lower_unread_waiting)
qed

lemma waiting_iters: "waiting T s \<Longrightarrow> \<forall>es. it = Some es \<longrightarrow> snd ` set es \<subseteq> T \<Longrightarrow>
  waiting T (s\<lparr>un_iters := (un_iters s)[i := it]\<rparr>)"
proof -
  assume w: "waiting T s" and it: "\<forall>es. it = Some es \<longrightarrow> snd ` set es \<subseteq> T"
  have "\<forall>x \<in> set ((un_iters s)[i := it]). \<forall>es. x = Some es \<longrightarrow> snd ` set es \<subseteq> T"
    using w it set_update_subset_insert [of "un_iters s" i it] unfolding waiting_def by blast
  then show ?thesis using w by (simp add: waiting_def)
qed

lemma precache_waiting:
  "precache ws i n s = Inr t \<Longrightarrow> waiting T s \<Longrightarrow> i < length (un_iters s) \<Longrightarrow> waiting T t \<and> un_used t = un_used s"
proof (induction n arbitrary: s)
  case (Suc n)
  obtain es where es: "un_iters s ! i = Some es" using Suc.prems(1) by (cases "un_iters s ! i") auto
  have T: "snd ` set es \<subseteq> T"
    using Suc.prems(2,3) nth_mem [OF Suc.prems(3)] unfolding es waiting_def by blast
  show ?case
  proof (cases es)
    case Nil
    then have t: "t = s\<lparr>un_iters := (un_iters s)[i := None]\<rparr>\<lparr>un_unread_max := (un_unread_max s)[i := 0]\<rparr>"
      using Suc.prems(1) es by simp
    show ?thesis using waiting_iters [OF Suc.prems(2), of None i] by (simp add: t waiting_def)
  next
    case (Cons e es')
    let ?s = "s\<lparr>un_iters := (un_iters s)[i := Some es']\<rparr>"
    obtain u where u: "absorb ws i e ?s = Inr u" "precache ws i n u = Inr t"
      using Suc.prems(1) es Cons by (auto simp: bindr_eq_Inr)
    have "waiting T ?s" by (rule waiting_iters [OF Suc.prems(2)]) (use T Cons in auto)
    from absorb_waiting [OF this _ u(1)] T Cons
    have "waiting T u" "un_iters u = (un_iters s)[i := Some es']" "un_used u = un_used s" by auto
    with Suc.IH [OF u(2)] Suc.prems(3) show ?thesis by simp
  qed
qed simp

lemma refill_waiting:
  assumes "refill ws s cl = Inr (t, cl', up)" "waiting T s"
  shows "waiting T t \<and> un_used t = un_used s"
proof -
  let ?P = "\<lambda>(u :: 'a union_state, c :: nat option, b :: bool).
    waiting T u \<and> un_used u = un_used s \<and> length (un_iters u) = length (un_iters s)"
  have "?P (t, cl', up)"
    using assms(1) unfolding refill_def
  proof (rule foldr_res_invariant [where P = ?P])
    fix i x y
    assume i: "i \<in> set (filter (\<lambda>i. un_iters s ! i \<noteq> None) [0..<length (un_iters s)])" and P: "?P x"
      and r: "refill_one ws i x = Inr y"
    obtain u c b where x: "x = (u, c, b)" by (cases x)
    show "?P y"
    proof (cases "2 * length (un_caches u ! i) < cache_size")
      case True
      then obtain v where v: "precache ws i (cache_size - length (un_caches u ! i)) u = Inr v"
        "y = (v, Some (cache_total v), True)"
        using r by (auto simp: x refill_one_def Let_def bindr_eq_Inr)
      then show ?thesis using precache_waiting [OF v(1), of T] precache_length [OF v(1)] P i by (simp add: x)
    qed (use r P in \<open>simp add: x refill_one_def Let_def\<close>)
  qed (use assms(2) in simp)
  then show ?thesis by simp
qed

lemma emit_waiting:
  assumes "emit s cl W = Inr (Some (y, L))" "waiting T s"
  shows "waiting T (ul_state L) \<and> un_used (ul_state L) = insert (fst y) (un_used s) \<and> fst y \<in> T - un_used s"
proof -
  obtain minw docid ms where r: "tree_remove (- minw, docid) (un_sorted_mins s) = Inr ms" "fst y = docid"
    "un_iters (ul_state L) = un_iters s" "un_sorted_mins (ul_state L) = ms"
    "un_mins_dict (ul_state L) = (un_mins_dict s)(docid := None)" "un_used (ul_state L) = insert docid (un_used s)"
    using assms(1) by (auto simp: emit_def bindr_eq_Inr split: list.splits)
  have dist: "distinct (un_sorted_mins s)"
    and key: "\<And>w d. (w, d) \<in> set (un_sorted_mins s) \<Longrightarrow> un_mins_dict s d = Some (- w)"
    using assms(2) by (auto simp: waiting_def)
  have ms: "(- minw, docid) \<in> set (un_sorted_mins s)" "set ms = set (un_sorted_mins s) - {(- minw, docid)}" "distinct ms"
    using r(1) dist by (auto simp: tree_remove_def split: if_splits)
  have "un_mins_dict s docid = Some minw" using key [OF ms(1)] by simp
  then have "docid \<in> T - un_used s" using assms(2) by (auto simp: waiting_def)
  moreover have "d' \<noteq> docid" if d': "(w, d') \<in> set ms" for w d'
  proof
    assume "d' = docid"
    then have "(w, docid) \<in> set (un_sorted_mins s)" "(w, docid) \<noteq> (- minw, docid)" using d' ms(2) by auto
    then show False using key [of w docid] \<open>un_mins_dict s docid = Some minw\<close> by simp
  qed
  moreover have "\<forall>(w, d') \<in> set ms. ((un_mins_dict s)(docid := None)) d' = Some (- w)"
    using calculation(2) key ms(2) by fastforce
  moreover have "dom ((un_mins_dict s)(docid := None)) \<subseteq> T - insert docid (un_used s)"
    using assms(2) by (auto simp: waiting_def)
  ultimately show ?thesis
    using assms(2) ms(3) unfolding waiting_def r(2-6) by simp
qed

lemma yields_waiting:
  "waiting T (ul_state L) \<Longrightarrow> distinct (map fst (fst (union_yields ws L)))
     \<and> fst ` set (fst (union_yields ws L)) \<subseteq> T - un_used (ul_state L)"
proof (induction ws L rule: union_yields.induct)
  case (1 ws L)
  show ?case
  proof (cases "turn ws L")
    case (Inr r)
    show ?thesis
    proof (cases r)
      case (Some yL)
      obtain y L' where yL: "yL = (y, L')" by (cases yL)
      have turn: "turn ws L = Inr (Some (y, L'))" using Inr Some yL by simp
      obtain q where q: "refill ws (ul_state L) (ul_cache_len L) = Inr q"
        using turn unfolding turn_def bindr_eq_Inr by blast
      obtain s cl up where scu: "q = (s, cl, up)" by (cases q)
      obtain W where W: "emit s cl W = Inr (Some (y, L'))"
        using turn unfolding turn_def q scu bindr_Inr case_prod_conv bindr_eq_Inr by blast
      have s: "waiting T s" "un_used s = un_used (ul_state L)"
        using refill_waiting [OF q [unfolded scu] "1.prems"] by simp_all
      note e = emit_waiting [OF W s(1)]
      have IH: "distinct (map fst (fst (union_yields ws L')))
          \<and> fst ` set (fst (union_yields ws L')) \<subseteq> T - un_used (ul_state L')"
        by (rule "1.IH" [OF Inr Some yL [symmetric]]) (use e in simp)
      have "fst (union_yields ws L) = y # fst (union_yields ws L')"
        by (simp add: union_yields.simps [of ws L] turn split: prod.split)
      then show ?thesis using IH e s(2) by auto
    qed (simp add: union_yields.simps [of ws L] Inr)
  qed (simp add: union_yields.simps [of ws L])
qed

lemma start_waiting: "waiting (\<Union>(t, w) \<in> set L. snd ` set t) (ul_state (start_loop L us))"
  by (force simp: waiting_def start_loop_def)

lemma ranked_union:
  assumes "length L \<ge> 2" "\<forall>tw \<in> set L. tree_ok tw \<and> length (fst tw) < cache_size"
  shows "\<exists>n. mass_weightedUnion L = (yields (take n (ranking (scores_of L))), None) \<and>
    n \<le> card (fst ` set (scores_of L)) \<and> card (fst ` set (scores_of L)) \<le> n + 1 \<and>
    (card (fst ` set (scores_of L)) \<le> order_size \<longrightarrow> n = card (fst ` set (scores_of L)))"
proof -
  let ?R = "ranking (scores_of L)"
  obtain t where t: "drained ?R t"
    "mass_weightedUnion L = union_yields (map snd L)
       \<lparr>ul_state = t, ul_cache_len = Some (cache_total t), ul_window = window_of (min 15 (length ?R)) ?R\<rparr>"
    by (rule union_short [OF assms])
  have "min 15 (length ?R) \<le> length ?R" by simp
  from drain [OF t(1) this, of "map snd L"]
  obtain n where "n \<le> length ?R" "mass_weightedUnion L = (yields (take n ?R), None)"
    "length ?R \<ge> 4 \<or> length ?R \<le> min 15 (length ?R) + 1 \<longrightarrow> length ?R \<le> n + 1"
    "min 15 (length ?R) = length ?R \<longrightarrow> n = length ?R"
    unfolding t(2) by blast
  then show ?thesis by (intro exI [where x = n]) (auto simp: order_size_def length_ranking)
qed

section \<open>Properties\<close>

text \<open>
  Whatever the trees and weights of several words, and even if the search ends with an
  exception, every document that it yields is in one of the trees, and none is yielded
  twice. (With one word the tree itself has each document once.)
\<close>

theorem union_yields_once:
  assumes "mass_weightedUnion L = (ys, e)" "length L \<noteq> 1"
  shows "distinct (map fst ys) \<and> fst ` set ys \<subseteq> (\<Union>(t, w) \<in> set L. snd ` set t)"
proof (cases "length L \<ge> 2")
  case True
  then obtain a b M where L: "L = a # b # M" by (cases L; cases "tl L") auto
  show ?thesis
  proof (cases "start_unreads L")
    case (Inr us)
    then have "mass_weightedUnion L = union_yields (map snd L) (start_loop L us)"
      unfolding L mass_weightedUnion_def by simp
    then have "ys = fst (union_yields (map snd L) (start_loop L us))" using assms(1) by (metis fst_conv)
    then show ?thesis
      using yields_waiting [OF start_waiting [of L us], of "map snd L"] by blast
  qed (use assms(1) in \<open>simp add: L mass_weightedUnion_def\<close>)
next
  case False
  then have "L = []" using assms(2) by (cases L; cases "tl L") auto
  then show ?thesis using assms(1) by (simp add: mass_weightedUnion_def)
qed

text \<open>
  C18: For two or more words that are each in less than forty documents, a search yields the
  documents by falling weight, with exactly the sum of their weighted scores, and never
  raises; but it may leave out the last one. With at most fifteen documents it yields all.
\<close>

theorem union_ranked:
  assumes "length L \<ge> 2" "\<forall>tw \<in> set L. tree_ok tw \<and> length (fst tw) < cache_size"
  shows "\<exists>n. mass_weightedUnion L = (yields (take n (ranking (scores_of L))), None) \<and>
    n \<le> card (fst ` set (scores_of L)) \<and> card (fst ` set (scores_of L)) \<le> n + 1 \<and>
    (card (fst ` set (scores_of L)) \<le> order_size \<longrightarrow> n = card (fst ` set (scores_of L)))"
  by (rule ranked_union [OF assms])

text \<open>
  C38: when no document has two of the words, the last document is left out exactly if the
  words are in 16, 29, 42, \<open>\<dots>\<close> documents.
\<close>

theorem union_loses_last:
  assumes "length L \<ge> 2" "\<forall>tw \<in> set L. tree_ok tw \<and> length (fst tw) < cache_size"
    and "distinct (map fst (scores_of L))" and "n = length (scores_of L)"
  shows "mass_weightedUnion L =
    (yields (take (if 16 \<le> n \<and> n mod 13 = 3 then n - 1 else n) (ranking (scores_of L))), None)"
proof -
  let ?R = "ranking (scores_of L)"
  obtain t where t: "drained ?R t" "un_caches t = map weighted L"
    "mass_weightedUnion L = union_yields (map snd L)
       \<lparr>ul_state = t, ul_cache_len = Some (cache_total t), ul_window = window_of (min 15 (length ?R)) ?R\<rparr>"
    by (rule union_short [OF assms(1,2)])
  have n: "length ?R = n"
    using assms(3,4) by (simp add: length_ranking) (metis distinct_card length_map list.set_map)
  have "distinct (map fst (concat (un_caches t)))" using assms(3) by (simp add: t(2) scores_of_def)
  from drain_disjoint [OF t(1) _ this, of "min 15 (length ?R)" "map snd L"]
  show ?thesis using t(3) yielded_count [of n] by (simp add: n)
qed

theorem union_yields_once_witness:
  "\<exists>ys e. mass_weightedUnion [([(-3, 1), (-1, 2)], 1), ([(-2, 2)], 2 :: real)] = (ys, e) \<and> distinct (map fst ys)"
proof -
  obtain ys e where r: "mass_weightedUnion [([(-3, 1), (-1, 2)], 1), ([(-2, 2)], 2 :: real)] = (ys, e)" by fastforce
  from union_yields_once [OF r] show ?thesis using r by auto
qed

definition two_words :: "(real postings_list \<times> real) list" where
  "two_words = [([(-3, 1), (-1, 2)], 1), ([(-2, 2), (-1, 3)], 2)]"

lemma two_words_ok: "\<forall>tw \<in> set two_words. tree_ok tw \<and> length (fst tw) < cache_size" "length two_words = 2"
  by (simp_all add: two_words_def tree_ok_def cache_size_def)

lemma two_words_docs: "fst ` set (scores_of two_words) = {1, 2, 3}"
  by (auto simp: two_words_def scores_of_def weighted_def)

lemma two_words_ranking: "ranking (scores_of two_words) = [(-5, 2), (-3, 1), (-2, 3)]"
  unfolding ranking_def two_words_docs
  by (simp add: two_words_def scores_of_def weighted_def total_weight_def)

theorem union_ranked_witness: "mass_weightedUnion two_words = ([(2, 5), (1, 3), (3, 2)], None)"
proof -
  from union_ranked [of two_words] two_words_ok
  obtain n where "mass_weightedUnion two_words = (yields (take n (ranking (scores_of two_words))), None)"
    "card (fst ` set (scores_of two_words)) \<le> order_size \<longrightarrow> n = card (fst ` set (scores_of two_words))" by auto
  then show ?thesis unfolding two_words_docs two_words_ranking by (simp add: order_size_def yields_def)
qed

definition sixteen_documents :: "(real postings_list \<times> real) list" where
  "sixteen_documents = [(map (\<lambda>i. (-1, int i)) [0..<8], 1), (map (\<lambda>i. (-1, int i)) [8..<16], 1)]"

theorem union_loses_last_witness:
  "length (ranking (scores_of sixteen_documents)) = 16 \<and>
    mass_weightedUnion sixteen_documents = (yields (take 15 (ranking (scores_of sixteen_documents))), None)"
proof -
  have ok: "length sixteen_documents \<ge> 2" "\<forall>tw \<in> set sixteen_documents. tree_ok tw \<and> length (fst tw) < cache_size"
    by (auto simp: sixteen_documents_def tree_ok_def cache_size_def comp_def distinct_map inj_on_def)
  have keys: "map fst (scores_of sixteen_documents) = map int [0..<16]"
    by (simp add: sixteen_documents_def scores_of_def weighted_keys upt_rec)
  then have dist: "distinct (map fst (scores_of sixteen_documents))" and n: "16 = length (scores_of sixteen_documents)"
    by (simp add: distinct_map inj_on_def, metis length_map length_upt minus_nat.diff_0)
  have "card (fst ` set (scores_of sixteen_documents)) = 16"
    using dist n by (metis distinct_card length_map list.set_map)
  then show ?thesis using union_loses_last [OF ok dist n] by (simp add: length_ranking)
qed

end
