(* ===== verification/Text_Lexicon.thy ===== *)
theory Text_Lexicon
  imports Prelude
begin

text \<open>
  zerodb/catalog/indexes/text_lexicon.py: the lexicon, which gives words their numbers.
  The pipeline (splitter, normaliser, stop words) is a list of functions, and creating a
  number for a word, \<open>_getWordIdCreate\<close> of the base class in zope.index, is a parameter.
  Reading ahead and unloading the counter change nothing and are left out.
\<close>

section \<open>State and operations\<close>

text \<open>The argument of the pipeline: nothing, a text, or a list of texts.\<close>

datatype 't text_source = No_Text | Text 't | Texts "'t list"

record 't lexicon =
  lx_wids :: "'t \<Rightarrow> int option"
  lx_words :: "int \<Rightarrow> 't option"
  lx_word_count :: int
  lx_pipeline :: "('t list \<Rightarrow> 't list) list"

definition new_lexicon :: "('t list \<Rightarrow> 't list) list \<Rightarrow> 't lexicon" where
  "new_lexicon pipeline =
     \<lparr>lx_wids = Map.empty, lx_words = Map.empty, lx_word_count = 0, lx_pipeline = pipeline\<rparr>"

text \<open>\<open>none\<close> is the empty text, which stands for no text.\<close>

fun text2list :: "'t \<Rightarrow> 't text_source \<Rightarrow> 't list" where
  "text2list none No_Text = [none]"
| "text2list none (Text t) = [t]"
| "text2list none (Texts ts) = ts"

definition run_pipeline :: "'t lexicon \<Rightarrow> 't list \<Rightarrow> 't list" where
  "run_pipeline L texts = fold (\<lambda>element. element) (lx_pipeline L) texts"

text \<open>\<open>_getWordIdCreate\<close>: the word's number, and the lexicon with it.\<close>

type_synonym 't word_creator = "'t \<Rightarrow> 't lexicon \<Rightarrow> int \<times> 't lexicon"

fun word_ids :: "'t word_creator \<Rightarrow> 't list \<Rightarrow> 't lexicon \<Rightarrow> int list \<times> 't lexicon" where
  "word_ids create [] L = ([], L)"
| "word_ids create (w # ws) L =
     (case create w L of (i, L1) \<Rightarrow> (case word_ids create ws L1 of (is, L2) \<Rightarrow> (i # is, L2)))"

definition sourceToWordIds :: "'t word_creator \<Rightarrow> 't \<Rightarrow> 't text_source \<Rightarrow> 't lexicon \<Rightarrow> int list \<times> 't lexicon" where
  "sourceToWordIds create none text L = word_ids create (run_pipeline L (text2list none text)) L"

text \<open>A word that is not known has number 0 here. (\<open>None\<close> is not a text here.)\<close>

definition termToWordIds :: "'t text_source \<Rightarrow> 't lexicon \<Rightarrow> int list res" where
  "termToWordIds text L =
     (if text = No_Text then Inl TypeError
      else Inr (map (\<lambda>w. case lx_wids L w of None \<Rightarrow> 0 | Some i \<Rightarrow> i) (run_pipeline L (text2list undefined text))))"

section \<open>Numbers of words\<close>

text \<open>
  The numbers are consistent when both maps agree and no word has number 0. \<open>_getWordIdCreate\<close> is
  documented to return a known word's number and to give a new word a number of its own, with whatever counter.
\<close>

definition lexicon_inv :: "'t lexicon \<Rightarrow> bool" where
  "lexicon_inv L \<longleftrightarrow> (\<forall>w i. lx_wids L w = Some i \<longleftrightarrow> lx_words L i = Some w) \<and> lx_words L 0 = None \<and> finite (dom (lx_words L))"

definition creates_ids :: "'t word_creator \<Rightarrow> bool" where
  "creates_ids create \<longleftrightarrow> (\<forall>w L. lexicon_inv L \<longrightarrow>
     (case lx_wids L w of
        Some i \<Rightarrow> create w L = (i, L)
      | None \<Rightarrow> (\<exists>i n. i \<noteq> 0 \<and> lx_words L i = None \<and>
          create w L = (i, L\<lparr>lx_wids := (lx_wids L)(w \<mapsto> i), lx_words := (lx_words L)(i \<mapsto> w),
                            lx_word_count := n\<rparr>))))"

lemma creates_idsD:
  assumes "creates_ids create" "lexicon_inv L"
  shows "case lx_wids L w of Some i \<Rightarrow> create w L = (i, L)
    | None \<Rightarrow> \<exists>i n. i \<noteq> 0 \<and> lx_words L i = None \<and>
        create w L = (i, L\<lparr>lx_wids := (lx_wids L)(w \<mapsto> i), lx_words := (lx_words L)(i \<mapsto> w),
                            lx_word_count := n\<rparr>)"
  using assms unfolding creates_ids_def by blast

lemma create_result:
  assumes "creates_ids create" "lexicon_inv L" "create w L = (i, L')"
  shows "lexicon_inv L' \<and> lx_wids L \<subseteq>\<^sub>m lx_wids L' \<and> lx_wids L' w = Some i \<and> lx_pipeline L' = lx_pipeline L
    \<and> dom (lx_wids L') = insert w (dom (lx_wids L))"
proof (cases "lx_wids L w")
  case (Some j)
  then have "create w L = (j, L)" using creates_idsD [OF assms(1,2), of w] by simp
  then have "i = j" "L' = L" using assms(3) by simp_all
  moreover have "insert w (dom (lx_wids L)) = dom (lx_wids L)" using Some by (simp add: insert_absorb domI)
  ultimately show ?thesis using assms(2) Some by simp
next
  case None
  then obtain j n where j: "j \<noteq> 0" "lx_words L j = None"
    "create w L = (j, L\<lparr>lx_wids := (lx_wids L)(w \<mapsto> j), lx_words := (lx_words L)(j \<mapsto> w),
                        lx_word_count := n\<rparr>)"
    using creates_idsD [OF assms(1,2), of w] by auto
  then have "L' = L\<lparr>lx_wids := (lx_wids L)(w \<mapsto> i), lx_words := (lx_words L)(i \<mapsto> w),
                    lx_word_count := n\<rparr>" "i = j" using assms(3) by simp_all
  then have L': "lx_wids L' = (lx_wids L)(w \<mapsto> j)" "lx_words L' = (lx_words L)(j \<mapsto> w)" "lx_pipeline L' = lx_pipeline L" by simp_all
  have ok: "\<And>v k. lx_wids L v = Some k \<longleftrightarrow> lx_words L k = Some v" "lx_words L 0 = None" "finite (dom (lx_words L))"
    using assms(2) by (auto simp: lexicon_inv_def)
  have "lexicon_inv L'"
    using ok(2,3) j(1,2) None ok(1) [of _ j] ok(1) [of w] unfolding lexicon_inv_def L'
    by (auto simp: ok(1))
  moreover have "lx_wids L \<subseteq>\<^sub>m lx_wids L'" using None unfolding L' by (auto simp: map_le_def)
  ultimately show ?thesis using \<open>i = j\<close> L' by simp
qed

lemma word_ids_result:
  assumes "creates_ids create" "lexicon_inv L" "word_ids create ws L = (is, L')"
  shows "lexicon_inv L' \<and> lx_wids L \<subseteq>\<^sub>m lx_wids L' \<and> map (lx_wids L') ws = map Some is \<and> lx_pipeline L' = lx_pipeline L
    \<and> dom (lx_wids L') = dom (lx_wids L) \<union> set ws"
  using assms(2,3)
proof (induction ws arbitrary: L "is")
  case (Cons w ws)
  obtain i L1 where c: "create w L = (i, L1)" by fastforce
  obtain js L2 where r: "word_ids create ws L1 = (js, L2)" by fastforce
  note R = create_result [OF assms(1) Cons.prems(1) c]
  have eq: "is = i # js" "L' = L2" using Cons.prems(2) c r by auto
  note I = Cons.IH [OF conjunct1 [OF R] r [folded eq(2)]]
  have "lx_wids L' w = Some i" using R I by (metis domI map_le_def)
  then show ?case using R I eq(1) by (auto intro: map_le_trans)
qed simp

section \<open>Properties\<close>

text \<open>
  C36: After a text is indexed, a search for the same text gets exactly the numbers that its
  words were given; words that were known keep theirs; no word has the number 0, which
  stands for unknown words, and different words have different numbers.
\<close>

theorem lexicon_roundtrip:
  assumes "creates_ids create" "lexicon_inv L" "t \<noteq> No_Text"
    and "sourceToWordIds create none t L = (ids, L')"
  shows "termToWordIds t L' = Inr ids \<and> lexicon_inv L' \<and> lx_wids L \<subseteq>\<^sub>m lx_wids L' \<and> 0 \<notin> set ids
    \<and> dom (lx_wids L') = dom (lx_wids L) \<union> set (run_pipeline L (text2list none t))
    \<and> (\<forall>v w. lx_wids L' v = lx_wids L' w \<longrightarrow> lx_wids L' v = None \<or> v = w)"
proof -
  let ?ws = "run_pipeline L (text2list none t)"
  have R: "lexicon_inv L' \<and> lx_wids L \<subseteq>\<^sub>m lx_wids L' \<and> map (lx_wids L') ?ws = map Some ids \<and> lx_pipeline L' = lx_pipeline L
      \<and> dom (lx_wids L') = dom (lx_wids L) \<union> set ?ws"
    by (rule word_ids_result [OF assms(1,2)]) (use assms(4) in \<open>simp add: sourceToWordIds_def\<close>)
  have src: "text2list undefined t = text2list none t" using assms(3) by (cases t) simp_all
  have "run_pipeline L' (text2list none t) = ?ws" using R by (simp add: run_pipeline_def)
  moreover have "map (\<lambda>w. case lx_wids L' w of None \<Rightarrow> 0 | Some i \<Rightarrow> i) ?ws =
      map (\<lambda>x. case x of None \<Rightarrow> 0 | Some i \<Rightarrow> i) (map (lx_wids L') ?ws)" by simp
  then have "map (\<lambda>w. case lx_wids L' w of None \<Rightarrow> 0 | Some i \<Rightarrow> i) ?ws = ids" using R by (simp add: comp_def)
  ultimately have "termToWordIds t L' = Inr ids" using assms(3) by (simp add: termToWordIds_def src)
  moreover have "0 \<notin> set ids"
  proof
    assume "0 \<in> set ids"
    then have "Some 0 \<in> set (map (lx_wids L') ?ws)" using R by simp
    then obtain w where "lx_wids L' w = Some 0" by auto
    then show False using R by (auto simp: lexicon_inv_def)
  qed
  moreover have "\<forall>v w. lx_wids L' v = lx_wids L' w \<longrightarrow> lx_wids L' v = None \<or> v = w"
    using R unfolding lexicon_inv_def by (metis not_Some_eq option.inject)
  ultimately show ?thesis using R by blast
qed

text \<open>A creator that gives the next number.\<close>

definition next_word :: "'t word_creator" where
  "next_word w L =
     (case lx_wids L w of
        Some i \<Rightarrow> (i, L)
      | None \<Rightarrow>
          (let i = Max (insert 0 (dom (lx_words L))) + 1
           in (i, L\<lparr>lx_wids := (lx_wids L)(w \<mapsto> i), lx_words := (lx_words L)(i \<mapsto> w),
                    lx_word_count := lx_word_count L + 1\<rparr>)))"

lemma next_word_creates: "creates_ids next_word"
  unfolding creates_ids_def
proof (intro allI impI)
  fix w and L :: "'a lexicon"
  assume L: "lexicon_inv L"
  let ?m = "Max (insert 0 (dom (lx_words L)))"
  have fin: "finite (insert 0 (dom (lx_words L)))" using L by (simp add: lexicon_inv_def)
  have "0 \<le> ?m" using Max_ge [OF fin, of 0] by simp
  moreover have "lx_words L (?m + 1) = None"
    using Max_ge [OF fin, of "?m + 1"] by (metis domIff insertCI less_add_one not_less)
  ultimately show "case lx_wids L w of Some i \<Rightarrow> next_word w L = (i, L)
      | None \<Rightarrow> \<exists>i n. i \<noteq> 0 \<and> lx_words L i = None \<and>
          next_word w L = (i, L\<lparr>lx_wids := (lx_wids L)(w \<mapsto> i), lx_words := (lx_words L)(i \<mapsto> w),
                               lx_word_count := n\<rparr>)"
    by (cases "lx_wids L w") (auto simp: next_word_def Let_def intro!: exI [where x = "?m + 1"] exI [where x = "lx_word_count L + 1"])
qed

definition split_words :: "string list \<Rightarrow> string list" where
  "split_words ts = concat (map (\<lambda>t. if t = ''a b a'' then [''a'', ''b'', ''a''] else [t]) ts)"

theorem lexicon_roundtrip_witness:
  "\<exists>ids L. sourceToWordIds next_word [] (Text ''a b a'') (new_lexicon [split_words]) = (ids, L)
    \<and> termToWordIds (Text ''a b a'') L = Inr ids \<and> dom (lx_wids L) = {''a'', ''b''}"
proof -
  obtain ids L where r: "sourceToWordIds next_word [] (Text ''a b a'') (new_lexicon [split_words]) = (ids, L)" by fastforce
  have "lexicon_inv (new_lexicon [split_words])" by (simp add: lexicon_inv_def new_lexicon_def)
  from lexicon_roundtrip [OF next_word_creates this _ r] show ?thesis
    using r by (auto simp: run_pipeline_def new_lexicon_def split_words_def)
qed

end
