(* ===== verification/Lucene_Search.thy ===== *)
theory Lucene_Search
  imports Lucene_Index Weighted_Union Text_Lexicon
begin

text \<open>
  zerodb/catalog/indexes/text_lucene.py, the queries of \<open>IncrementalLuceneIndex\<close>: the weight
  of a word, and searches for texts, for patterns, and for both. The logarithm, the
  expansion of a pattern to word numbers and the tokenizer are parameters.
\<close>

section \<open>Operations\<close>

definition idf2 :: "('s \<Rightarrow> 's) \<Rightarrow> 's::linordered_field lucene_index \<Rightarrow> int \<Rightarrow> 's res" where
  "idf2 lg s wid =
     (case lu_wordinfo s wid of
        None \<Rightarrow> Inl KeyError
      | Some (t, N_for_term) \<Rightarrow>
          (let N_docs = of_int (lu_document_count s); m = 1 + of_int N_for_term in
           if m = 0 then Inl OtherError
           else if N_docs / m \<le> 0 then Inl ValueError
           else Inr ((1 + lg (N_docs / m)) ^ 2)))"

definition remove_oov_wids :: "'s lucene_index \<Rightarrow> int list \<Rightarrow> int list" where
  "remove_oov_wids s wids = filter (\<lambda>w. lu_wordinfo s w \<noteq> None) wids"

text \<open>\<open>query_weight\<close> of a text, or of word numbers.\<close>

datatype 't terms = Term_Text "'t text_source" | Term_Ids "int list"

definition term_ids :: "'t terms \<Rightarrow> 't lexicon \<Rightarrow> int list res" where
  "term_ids terms L = (case terms of Term_Text t \<Rightarrow> termToWordIds t L | Term_Ids ids \<Rightarrow> Inr ids)"

definition query_weight ::
  "('s \<Rightarrow> 's) \<Rightarrow> 's::linordered_field lucene_index \<Rightarrow> 't lexicon \<Rightarrow> 't terms \<Rightarrow> 's res" where
  "query_weight lg s L terms =
     bindr (term_ids terms L) (\<lambda>ids.
       let wids = remove_oov_wids s (filter (\<lambda>w. w \<noteq> 0) (remdups ids)) in
       bindr (map_res (idf2 lg s) wids) (\<lambda>ws.
         Inr (sum_list (map (\<lambda>(w, x). x * of_nat (count_list ids w)) (zip wids ws)))))"

definition search_wid :: "('s \<Rightarrow> 's) \<Rightarrow> 's::linordered_field lucene_index \<Rightarrow> int \<Rightarrow> ('s postings_list \<times> 's) res" where
  "search_wid lg s w =
     (case lu_wordinfo s w of
        None \<Rightarrow> Inl KeyError
      | Some (t, l) \<Rightarrow> bindr (idf2 lg s w) (\<lambda>x. Inr (sorted_list_of_set t, x)))"

definition search_wids ::
  "('s \<Rightarrow> 's) \<Rightarrow> 's::linordered_field lucene_index \<Rightarrow> int list \<Rightarrow> ('s postings_list \<times> 's) list res" where
  "search_wids lg s wids = map_res (search_wid lg s) wids"

text \<open>
  What a search yields, and the exception that it ends with; an outer exception comes before
  anything is yielded. An empty \<open>filter\<close> object counts as true, so \<open>search\<close> always gets to the
  union.
\<close>

type_synonym 's found_docs = "((int \<times> 's) list \<times> py_exc option) res"

definition search_ids :: "('s \<Rightarrow> 's) \<Rightarrow> 's::linordered_field lucene_index \<Rightarrow> int list \<Rightarrow> 's found_docs" where
  "search_ids lg s wids =
     bindr (search_wids lg s (remove_oov_wids s wids)) (\<lambda>L. Inr (mass_weightedUnion L))"

definition lucene_search ::
  "('s \<Rightarrow> 's) \<Rightarrow> 's::linordered_field lucene_index \<Rightarrow> 't lexicon \<Rightarrow> 't text_source \<Rightarrow> 's found_docs" where
  "lucene_search lg s L t = bindr (termToWordIds t L) (search_ids lg s)"

definition search_glob ::
  "('s \<Rightarrow> 's) \<Rightarrow> (string \<Rightarrow> int list) \<Rightarrow> 's::linordered_field lucene_index \<Rightarrow> string \<Rightarrow> 's found_docs" where
  "search_glob lg globToWordIds s pat = search_ids lg s (globToWordIds (lower pat))"

text \<open>\<open>_search_all\<close>; the set of the word numbers is listed by their first occurrence.\<close>

definition glob_cond :: "string \<Rightarrow> bool" where
  "glob_cond t \<longleftrightarrow> CHR ''?'' \<in> set t \<or> CHR ''*'' \<in> set t"

definition search_all ::
  "('s \<Rightarrow> 's) \<Rightarrow> (string \<Rightarrow> int list) \<Rightarrow> (string \<Rightarrow> string list) \<Rightarrow> 's::linordered_field lucene_index
     \<Rightarrow> string lexicon \<Rightarrow> string \<Rightarrow> (int list \<times> py_exc option) res" where
  "search_all lg globToWordIds tokens s L q =
     (let ts = map lower (tokens q);
          glob_tokens = filter glob_cond ts;
          word_tokens = filter (\<lambda>t. \<not> glob_cond t) ts
      in bindr (termToWordIds (Texts word_tokens) L) (\<lambda>ws.
         bindr (search_ids lg s (remdups (ws @ concat (map globToWordIds glob_tokens)))) (\<lambda>(ys, e).
           Inr (map fst ys, e))))"

definition search_phrase :: "string \<Rightarrow> 's found_docs" where
  "search_phrase phrase = Inl NotImplementedError"

section \<open>What the trees of a consistent index say\<close>

text \<open>A word's weight in a document: nothing when it is not there.\<close>

definition word_score :: "'s::linordered_field lucene_config \<Rightarrow> (int \<Rightarrow> int list option) \<Rightarrow> int \<Rightarrow> int \<Rightarrow> 's" where
  "word_score C D w d = (if d \<in> docs_with D w then - fst (entry_of C D w d) else 0)"

definition postings_of :: "'s::linordered_field lucene_config \<Rightarrow> (int \<Rightarrow> int list option) \<Rightarrow> int \<Rightarrow> 's postings_list" where
  "postings_of C D w = sorted_list_of_set (entry_of C D w ` docs_with D w)"

lemma postings_set: "finite (dom D) \<Longrightarrow> set (postings_of C D w) = entry_of C D w ` docs_with D w"
  by (simp add: postings_of_def finite_docs_with)

lemma entry_of_inj: "inj_on (entry_of C D w) A"
  by (rule inj_onI) (metis entry_of_snd)

lemma postings_docs:
  assumes "finite (dom D)"
  shows "distinct (map snd (postings_of C D w))" "snd ` set (postings_of C D w) = docs_with D w"
    "length (postings_of C D w) = card (docs_with D w)"
proof -
  have fin: "finite (docs_with D w)" by (rule finite_docs_with [OF assms])
  have inj: "inj_on snd (entry_of C D w ` docs_with D w)" by (auto simp: inj_on_def entry_of_snd)
  show "distinct (map snd (postings_of C D w))"
    using fin inj by (simp add: distinct_map postings_of_def)
  show "snd ` set (postings_of C D w) = docs_with D w"
    unfolding postings_set [OF assms] by (simp add: image_image entry_of_snd)
  show "length (postings_of C D w) = card (docs_with D w)"
    using fin by (simp add: postings_of_def card_image entry_of_inj)
qed

text \<open>In a consistent index with documents every word has a weight, that of the formula.\<close>

definition word_weight :: "('s \<Rightarrow> 's) \<Rightarrow> (int \<Rightarrow> int list option) \<Rightarrow> int \<Rightarrow> 's::linordered_field" where
  "word_weight lg D w = (1 + lg (of_nat (card (dom D)) / (1 + of_nat (card (docs_with D w))))) ^ 2"

lemma idf2_known:
  fixes s :: "'s::linordered_field lucene_index"
  assumes "lucene_inv C s" "lu_wordinfo s w \<noteq> None" "lu_docwords s \<noteq> Map.empty"
  shows "idf2 lg s w = Inr (word_weight lg (lu_docwords s) w)"
proof -
  let ?D = "lu_docwords s"
  obtain t l where tl: "lu_wordinfo s w = Some (t, l)" using assms(2) by auto
  have "word_ok C ?D (Some (t, l)) w" using assms(1) tl unfolding lucene_inv_def by metis
  then have l: "l = int (card (docs_with ?D w))" by (rule word_okD(1) [THEN conjunct2])
  have N: "lu_document_count s = int (card (dom ?D))" "finite (dom ?D)" using assms(1) by (simp_all add: lucene_inv_def)
  then have "card (dom ?D) > 0" using assms(3) by (simp add: card_gt_0_iff)
  moreover have m: "(1 :: 's) + of_nat (card (docs_with ?D w)) > 0" by (simp add: add_pos_nonneg)
  ultimately have "of_nat (card (dom ?D)) / ((1 :: 's) + of_nat (card (docs_with ?D w))) > 0" by simp
  with m show ?thesis by (simp add: idf2_def tl l N(1) word_weight_def)
qed

lemma word_known: "lucene_inv C s \<Longrightarrow> docs_with (lu_docwords s) w \<noteq> {} \<Longrightarrow> lu_wordinfo s w \<noteq> None"
  unfolding lucene_inv_def using word_okD(2) by metis

lemma search_ids_known:
  assumes inv: "lucene_inv C s" and D: "lu_docwords s \<noteq> Map.empty"
  shows "search_ids lg s ids = Inr (mass_weightedUnion
    (map (\<lambda>w. (postings_of C (lu_docwords s) w, word_weight lg (lu_docwords s) w)) (remove_oov_wids s ids)))"
proof -
  have "map_res (search_wid lg s) (remove_oov_wids s ids) =
      Inr (map (\<lambda>w. (postings_of C (lu_docwords s) w, word_weight lg (lu_docwords s) w)) (remove_oov_wids s ids))"
  proof (rule map_res_Inr)
    fix w
    assume w: "w \<in> set (remove_oov_wids s ids)"
    then have known: "lu_wordinfo s w \<noteq> None" by (simp add: remove_oov_wids_def)
    then obtain t l where tl: "lu_wordinfo s w = Some (t, l)" by auto
    have "word_ok C (lu_docwords s) (Some (t, l)) w" using inv tl unfolding lucene_inv_def by metis
    from word_okD(1) [OF this]
    show "search_wid lg s w = Inr (postings_of C (lu_docwords s) w, word_weight lg (lu_docwords s) w)"
      using idf2_known [OF inv known D, of lg] by (simp add: search_wid_def tl postings_of_def)
  qed
  then show ?thesis by (simp add: search_ids_def search_wids_def)
qed

lemma total_weight_append: "total_weight (E @ F) d = total_weight E d + total_weight F d"
  by (simp add: total_weight_def)

lemma total_weight_unique:
  "distinct (map fst E) \<Longrightarrow> total_weight E d = (case map_of E d of None \<Rightarrow> 0 | Some x \<Rightarrow> x)"
proof (induction E)
  case (Cons e E)
  obtain k v where e: "e = (k, v)" by (cases e)
  have split: "total_weight ((k, v) # E) d = (if k = d then v else 0) + total_weight E d" by (simp add: total_weight_def)
  show ?case
  proof (cases "k = d")
    case True
    then have "total_weight E d = 0" using Cons.prems by (intro total_weight_absent) (simp add: e)
    then show ?thesis using split True by (simp add: e)
  next
    case False
    then show ?thesis using Cons split by (simp add: e)
  qed
qed (simp add: total_weight_def)

lemma total_weight_postings:
  assumes "finite (dom D)"
  shows "total_weight (weighted (postings_of C D w, x)) d = word_score C D w d * x"
proof -
  let ?E = "weighted (postings_of C D w, x)"
  have dist: "distinct (map fst ?E)" using postings_docs(1) [OF assms] by (simp add: weighted_keys)
  have E: "set ?E = (\<lambda>d. (d, - fst (entry_of C D w d) * x)) ` docs_with D w"
    by (simp add: weighted_def split_def postings_set [OF assms] image_image entry_of_snd)
  show ?thesis
  proof (cases "d \<in> docs_with D w")
    case True
    then have "(d, - fst (entry_of C D w d) * x) \<in> set ?E" unfolding E by blast
    from map_of_is_SomeI [OF dist this] show ?thesis
      unfolding total_weight_unique [OF dist] using True by (simp add: word_score_def)
  next
    case False
    then have "d \<notin> fst ` set ?E" unfolding E by force
    then show ?thesis using False by (simp add: total_weight_absent word_score_def)
  qed
qed

lemma total_weight_search:
  assumes "finite (dom D)"
  shows "total_weight (scores_of (map (\<lambda>w. (postings_of C D w, x w)) ws)) d = (\<Sum>w\<leftarrow>ws. word_score C D w d * x w)"
    and "fst ` set (scores_of (map (\<lambda>w. (postings_of C D w, x w)) ws)) = (\<Union>w \<in> set ws. docs_with D w)"
proof -
  show "total_weight (scores_of (map (\<lambda>w. (postings_of C D w, x w)) ws)) d = (\<Sum>w\<leftarrow>ws. word_score C D w d * x w)"
  proof (induction ws)
    case (Cons w ws)
    have "scores_of (map (\<lambda>w. (postings_of C D w, x w)) (w # ws)) =
        weighted (postings_of C D w, x w) @ scores_of (map (\<lambda>w. (postings_of C D w, x w)) ws)"
      by (simp add: scores_of_def)
    then show ?case using Cons total_weight_postings [OF assms, of C w "x w" d] by (simp add: total_weight_append)
  qed (simp add: scores_of_def total_weight_def)
  have "fst ` set (weighted (postings_of C D w, y)) = docs_with D w" for w y
    using weighted_keys [of "postings_of C D w" y] postings_docs(2) [OF assms, of C w] by (metis list.set_map)
  then show "fst ` set (scores_of (map (\<lambda>w. (postings_of C D w, x w)) ws)) = (\<Union>w \<in> set ws. docs_with D w)"
    by (auto simp: scores_of_def image_UN)
qed

text \<open>Indexing a document again forgets no word.\<close>

lemma reindex_keeps_words:
  "lu_docwords s d = Some os \<Longrightarrow> lu_wordinfo s w \<noteq> None \<Longrightarrow> lu_wordinfo (snd (lucene_index_doc C d ws s)) w \<noteq> None"
  by (auto simp: lucene_index_doc_def reindex_doc_def Let_def fold_upd_word get_doctrees_wordinfo)

lemma entry_of_negative:
  assumes "\<And>f n. 0 < f \<Longrightarrow> 0 < n \<Longrightarrow> lc_score C f n < 0" "d \<in> docs_with D w"
  shows "fst (entry_of C D w d) < 0"
proof -
  obtain ws where ws: "D d = Some ws" "w \<in> set ws" using assms(2) by (auto simp: docs_with_def)
  then have "0 < count_list ws w" by (metis count_notin gr0I count_list_0_iff)
  moreover have "0 < length (remdups ws)" using ws(2) by (metis length_greater_0_conv list.set(1) empty_iff set_remdups)
  ultimately show ?thesis using assms(1) ws(1) by (simp add: entry_of_def widscore_def)
qed

section \<open>Properties\<close>

text \<open>
  A search for one word of a consistent index yields exactly the documents that contain
  it, each once, in the order of their scores, with the score times the word's weight; words
  that are in no document do not matter.
\<close>

theorem search_one_word:
  assumes "lucene_inv C s" "lu_docwords s \<noteq> Map.empty" "termToWordIds t L = Inr ids" "remove_oov_wids s ids = [w]"
  shows "lucene_search lg s L t =
      Inr (map (\<lambda>(score, d). (d, - score * word_weight lg (lu_docwords s) w)) (sorted_list_of_set
             {widscore C ws d w | d ws. lu_docwords s d = Some ws \<and> w \<in> set ws}), None)
    \<and> snd ` {widscore C ws d w | d ws. lu_docwords s d = Some ws \<and> w \<in> set ws} = docs_with (lu_docwords s) w
    \<and> inj_on snd {widscore C ws d w | d ws. lu_docwords s d = Some ws \<and> w \<in> set ws}"
proof -
  let ?D = "lu_docwords s"
  have eq: "{widscore C ws d w | d ws. ?D d = Some ws \<and> w \<in> set ws} = entry_of C ?D w ` docs_with ?D w"
    by (force simp: entry_of_def docs_with_def)
  have "lucene_search lg s L t = Inr (map (\<lambda>(score, d). (d, - score * word_weight lg ?D w)) (postings_of C ?D w), None)"
    using search_ids_known [OF assms(1,2), of lg ids]
    by (simp add: lucene_search_def assms(3,4) mass_weightedUnion_def)
  then show ?thesis
    unfolding eq by (simp add: postings_of_def image_image entry_of_snd inj_on_def)
qed


text \<open>
  C37: When a document is indexed again without a word that only it had, the word stays with
  an empty tree, and a search for it together with another word raises a ValueError before
  it yields anything.
\<close>

theorem reindexed_word_breaks_search:
  assumes inv: "lucene_inv C s" and C: "lc_keep_phrases C" and w: "docs_with (lu_docwords s) w = {d}"
    and ws: "w \<notin> set ws" "v \<in> set ws" and ix: "lucene_index_doc C d ws s = (r, s')"
    and ids: "termToWordIds t L = Inr [w, v]"
  shows "r = Inr (length ws) \<and> lucene_search lg s' L t = Inr ([], Some ValueError)"
proof -
  obtain os where os: "lu_docwords s d = Some os" using w by (auto simp: docs_with_def)
  have "ws \<noteq> []" using ws(2) by auto
  from reindex_inv [OF inv C this os] ix
  have s': "r = Inr (length ws)" "lucene_inv C s'" "lu_docwords s' = (lu_docwords s)(d \<mapsto> ws)" by auto
  have "lu_wordinfo s w \<noteq> None" by (rule word_known [OF inv]) (simp add: w)
  then have "lu_wordinfo s' w \<noteq> None" using reindex_keeps_words [OF os, of w C ws] ix by simp
  moreover have "docs_with (lu_docwords s') v \<noteq> {}" using ws(2) by (auto simp: s'(3) docs_with_def)
  then have "lu_wordinfo s' v \<noteq> None" by (rule word_known [OF s'(2)])
  ultimately have known: "remove_oov_wids s' [w, v] = [w, v]" by (simp add: remove_oov_wids_def)
  have "docs_with (lu_docwords s') w = {}" using w ws(1) unfolding s'(3) docs_with_put by auto
  then have "postings_of C (lu_docwords s') w = []" by (simp add: postings_of_def)
  moreover have "lu_docwords s' \<noteq> Map.empty" using s'(3) by (metis fun_upd_same option.distinct(1))
  ultimately have "search_ids lg s' [w, v] = Inr ([], Some ValueError)"
    using search_ids_known [OF s'(2), of lg "[w, v]"] unfolding known
    by (simp add: mass_weightedUnion_def start_unread_def)
  then show ?thesis using s'(1) by (simp add: lucene_search_def ids)
qed

section \<open>Witnesses\<close>

text \<open>Two documents, of the words 7 (named a) and 8 (named b).\<close>

definition ab_config :: "real lucene_config" where
  "ab_config = \<lparr>lc_score = (\<lambda>f n. - sqrt (real f) / sqrt (real n)), lc_keep_phrases = True\<rparr>"

definition ab_lexicon :: "string lexicon" where
  "ab_lexicon = \<lparr>lx_wids = [''a'' \<mapsto> 7, ''b'' \<mapsto> 8], lx_words = [7 \<mapsto> ''a'', 8 \<mapsto> ''b''], lx_word_count = 2,
                 lx_pipeline = []\<rparr>"

definition ab_index :: "real lucene_index" where
  "ab_index = snd (lucene_index_doc ab_config 2 [8] (snd (lucene_index_doc ab_config 1 [7, 8, 7] lucene_clear)))"

lemma ab_index_ok: "lucene_inv ab_config ab_index" "lu_docwords ab_index = [1 \<mapsto> [7, 8, 7], 2 \<mapsto> [8]]"
proof -
  have C: "lc_keep_phrases ab_config" by (simp add: ab_config_def)
  obtain s1 where s1: "lucene_index_doc ab_config 1 [7, 8, 7] lucene_clear = (Inr 3, s1)"
    "lucene_inv ab_config s1" "lu_docwords s1 = [1 \<mapsto> [7, 8, 7]]"
    using index_inv [OF lucene_clear_inv C, of "[7, 8, 7]" 1] by (auto simp: lucene_clear_def)
  obtain s2 where s2: "lucene_index_doc ab_config 2 [8] s1 = (Inr 1, s2)" "lucene_inv ab_config s2"
    "lu_docwords s2 = (lu_docwords s1)(2 \<mapsto> [8])"
    using index_inv [OF s1(2) C, of "[8]" 2] by auto
  show "lucene_inv ab_config ab_index" "lu_docwords ab_index = [1 \<mapsto> [7, 8, 7], 2 \<mapsto> [8]]"
    using s1 s2 by (simp_all add: ab_index_def)
qed

lemma ab_docs: "docs_with (lu_docwords ab_index) 7 = {1}" "docs_with (lu_docwords ab_index) 8 = {1, 2}"
  by (auto simp: ab_index_ok(2) docs_with_def split: if_splits)

lemma ab_terms: "termToWordIds (Texts [''a'']) ab_lexicon = Inr [7]"
  "termToWordIds (Texts [''a'', ''b'']) ab_lexicon = Inr [7, 8]"
  by (simp_all add: termToWordIds_def run_pipeline_def ab_lexicon_def)

lemma ab_known: "lu_wordinfo ab_index 7 \<noteq> None" "lu_wordinfo ab_index 8 \<noteq> None"
  by (rule word_known [OF ab_index_ok(1)], simp add: ab_docs)+

theorem search_one_word_witness:
  "\<exists>ys. lucene_search ln ab_index ab_lexicon (Texts [''a'']) = Inr (ys, None) \<and> map fst ys = [1]"
proof -
  have "lu_docwords ab_index \<noteq> Map.empty" unfolding ab_index_ok(2) by (metis fun_upd_same option.distinct(1))
  moreover have "remove_oov_wids ab_index [7] = [7]" using ab_known by (simp add: remove_oov_wids_def)
  moreover have "{widscore ab_config ws d 7 | d ws. lu_docwords ab_index d = Some ws \<and> 7 \<in> set ws}
      = {widscore ab_config [7, 8, 7] 1 7}"
    by (auto simp: ab_index_ok(2) split: if_splits)
  ultimately show ?thesis
    using search_one_word [OF ab_index_ok(1) _ ab_terms(1), of 7 ln] by (simp add: widscore_def)
qed


theorem reindexed_word_breaks_search_witness:
  "\<exists>s'. lucene_index_doc ab_config 1 [8] ab_index = (Inr 1, s')
    \<and> lucene_search ln s' ab_lexicon (Texts [''a'', ''b'']) = Inr ([], Some ValueError)"
proof -
  obtain r s' where r: "lucene_index_doc ab_config 1 [8] ab_index = (r, s')" by fastforce
  have C: "lc_keep_phrases ab_config" "7 \<notin> set [8 :: int]" "8 \<in> set [8 :: int]" by (simp_all add: ab_config_def)
  from reindexed_word_breaks_search [OF ab_index_ok(1) C(1) ab_docs(1) C(2,3) r ab_terms(2), of ln]
  show ?thesis using r by simp
qed

end
