(* ===== verification/Text_Index.thy ===== *)
theory Text_Index
  imports Lucene_Search Sliceable
begin

text \<open>
  The text index of a catalog (zerodb/catalog/indexes/text.py), which ties a lexicon (theory
  Text_Lexicon) to the index of the words' numbers (theories Lucene_Index and Lucene_Search).
\<close>

section \<open>The text index\<close>

record ('t, 's) text_index =
  ti_lexicon :: "'t lexicon"
  ti_index :: "'s lucene_index"

definition new_text_index :: "('t list \<Rightarrow> 't list) list \<Rightarrow> ('t, 's) text_index" where
  "new_text_index pipeline = \<lparr>ti_lexicon = new_lexicon pipeline, ti_index = lucene_clear\<rparr>"

text \<open>\<open>index_doc\<close> of the index, with the word numbers that its lexicon gives.\<close>

definition text_index_doc ::
  "'s lucene_config \<Rightarrow> 't word_creator \<Rightarrow> 't \<Rightarrow> int \<Rightarrow> 't text_source \<Rightarrow> (('t, 's) text_index, nat) meth" where
  "text_index_doc C create none docid text s =
     (case sourceToWordIds create none text (ti_lexicon s) of (wids, L) \<Rightarrow>
        (case lucene_index_doc C docid wids (ti_index s) of (r, x) \<Rightarrow> (r, \<lparr>ti_lexicon = L, ti_index = x\<rparr>)))"

text \<open>
  \<open>apply\<close>: an index with \<open>_search_all\<close> answers with a lazy result over what it yields (and the
  exception that it ends with), any other as its base class does.
\<close>

datatype ('a, 'r) text_answer = Lazy_Answer "int source" "'a sliceable" | Base_Answer 'r

definition text_apply ::
  "(string \<Rightarrow> (int list \<times> py_exc option) res) option \<Rightarrow> (string \<Rightarrow> 'r res) \<Rightarrow> 'a \<Rightarrow> string \<Rightarrow> ('a, 'r) text_answer res" where
  "text_apply own_search super cache querytext =
     (case own_search of
        Some f \<Rightarrow> bindr (f querytext) (\<lambda>(docs, e).
          Inr (Lazy_Answer \<lparr>so_elements = docs, so_iterator = True, so_end = (case e of None \<Rightarrow> StopIteration | Some x \<Rightarrow> x)\<rparr>
            (new_sliceable cache)))
      | None \<Rightarrow> bindr (super querytext) (\<lambda>r. Inr (Base_Answer r)))"

section \<open>Histories of texts\<close>

text \<open>Texts are indexed under document numbers, some again under the same one.\<close>

fun text_run ::
  "'s lucene_config \<Rightarrow> 't word_creator \<Rightarrow> 't \<Rightarrow> (int \<times> 't) list \<Rightarrow> (('t, 's) text_index, nat list) meth" where
  "text_run C create none [] s = (Inr [], s)"
| "text_run C create none ((d, t) # docs) s =
     m_bind (text_index_doc C create none d (Text t))
       (\<lambda>n. m_bind (text_run C create none docs) (\<lambda>ns. m_return (n # ns))) s"

text \<open>The words of a text; the index is in step with the texts when each document has the numbers of its words.\<close>

definition words_of :: "('t list \<Rightarrow> 't list) list \<Rightarrow> 't \<Rightarrow> 't list" where
  "words_of pipeline t = fold (\<lambda>element. element) pipeline [t]"

definition numbered :: "'t lexicon \<Rightarrow> int list option \<Rightarrow> 't list option \<Rightarrow> bool" where
  "numbered L wids ws \<longleftrightarrow>
     (case ws of None \<Rightarrow> wids = None | Some ws \<Rightarrow> (\<exists>is. wids = Some is \<and> map (lx_wids L) ws = map Some is))"

lemma numbered_simps [simp]:
  "numbered L wids None \<longleftrightarrow> wids = None"
  "numbered L wids (Some ws) \<longleftrightarrow> (\<exists>is. wids = Some is \<and> map (lx_wids L) ws = map Some is)"
  by (simp_all add: numbered_def)

definition text_synced ::
  "'s lucene_config \<Rightarrow> ('t list \<Rightarrow> 't list) list \<Rightarrow> (int \<Rightarrow> 't option) \<Rightarrow> ('t, 's) text_index \<Rightarrow> bool" where
  "text_synced C pipeline texts s \<longleftrightarrow> lexicon_inv (ti_lexicon s) \<and> lucene_inv C (ti_index s) \<and>
     lx_pipeline (ti_lexicon s) = pipeline \<and>
     (\<forall>d. numbered (ti_lexicon s) (lu_docwords (ti_index s) d) (map_option (words_of pipeline) (texts d)))"

lemma new_text_index_synced: "text_synced C pipeline Map.empty (new_text_index pipeline)"
  by (simp add: text_synced_def new_text_index_def new_lexicon_def lexicon_inv_def lucene_clear_inv)
    (simp add: lucene_clear_def)

lemma map_some_grows:
  assumes "map m ws = map Some is" "m \<subseteq>\<^sub>m m'"
  shows "map m' ws = map Some is"
proof -
  have "m' w = m w" if "w \<in> set ws" for w
  proof -
    have "m w \<in> set (map Some is)" unfolding assms(1) [symmetric] using that by simp
    then have "w \<in> dom m" by auto
    then show ?thesis using assms(2) by (simp add: map_le_def)
  qed
  then show ?thesis unfolding assms(1) [symmetric] by simp
qed

lemma text_index_doc_synced:
  assumes create: "creates_ids create" and C: "lc_keep_phrases C" and s: "text_synced C pipeline texts s"
    and t: "words_of pipeline t \<noteq> []"
  shows "\<exists>s'. text_index_doc C create none d (Text t) s = (Inr (length (words_of pipeline t)), s') \<and>
    text_synced C pipeline (texts(d \<mapsto> t)) s'"
proof -
  let ?L = "ti_lexicon s" and ?ws = "words_of pipeline t"
  obtain wids L' where src: "sourceToWordIds create none (Text t) ?L = (wids, L')" by fastforce
  have L: "lexicon_inv ?L" "lucene_inv C (ti_index s)" "lx_pipeline ?L = pipeline" using s by (simp_all add: text_synced_def)
  then have ws: "run_pipeline ?L [t] = ?ws" by (simp add: run_pipeline_def words_of_def)
  have R: "lexicon_inv L'" "lx_wids ?L \<subseteq>\<^sub>m lx_wids L'" "map (lx_wids L') ?ws = map Some wids" "lx_pipeline L' = pipeline"
    using word_ids_result [OF create L(1), of ?ws wids L'] src L(3) by (simp_all add: sourceToWordIds_def ws)
  have len: "length wids = length ?ws" using R(3) by (metis length_map)
  then have "wids \<noteq> []" using t by auto
  from index_inv [OF L(2) C this] obtain x where
    x: "lucene_index_doc C d wids (ti_index s) = (Inr (length wids), x)" "lucene_inv C x"
      "lu_docwords x = (lu_docwords (ti_index s))(d \<mapsto> wids)" by blast
  have "numbered L' (lu_docwords x e) (map_option (words_of pipeline) ((texts(d \<mapsto> t)) e))" for e
  proof (cases "e = d")
    case False
    have "numbered ?L (lu_docwords (ti_index s) e) (map_option (words_of pipeline) (texts e))"
      using s unfolding text_synced_def by blast
    then show ?thesis using False map_some_grows [OF _ R(2)] by (cases "texts e") (auto simp: x(3))
  qed (simp add: x(3) R(3))
  then have "text_synced C pipeline (texts(d \<mapsto> t)) \<lparr>ti_lexicon = L', ti_index = x\<rparr>"
    using R(1,4) x(2) by (simp add: text_synced_def)
  then show ?thesis by (simp add: text_index_doc_def src x(1) len)
qed

lemma text_run_synced:
  assumes create: "creates_ids create" and C: "lc_keep_phrases C"
  shows "text_synced C pipeline texts s \<Longrightarrow> \<forall>t \<in> snd ` set docs. words_of pipeline t \<noteq> [] \<Longrightarrow>
    \<exists>s'. text_run C create none docs s = (Inr (map (length \<circ> words_of pipeline \<circ> snd) docs), s') \<and>
      text_synced C pipeline (texts ++ map_of (rev docs)) s'"
proof (induction docs arbitrary: s texts)
  case (Cons x docs)
  obtain d t where x: "x = (d, t)" by (cases x)
  have ne: "\<forall>t \<in> snd ` set docs. words_of pipeline t \<noteq> []" using Cons.prems(2) by simp
  obtain s1 where s1: "text_index_doc C create none d (Text t) s = (Inr (length (words_of pipeline t)), s1)"
    "text_synced C pipeline (texts(d \<mapsto> t)) s1"
    using text_index_doc_synced [OF create C Cons.prems(1), of t none d] Cons.prems(2) x by auto
  obtain s2 where s2: "text_run C create none docs s1 = (Inr (map (length \<circ> words_of pipeline \<circ> snd) docs), s2)"
    "text_synced C pipeline ((texts(d \<mapsto> t)) ++ map_of (rev docs)) s2"
    using Cons.IH [OF s1(2) ne] by blast
  have "texts ++ map_of (rev (x # docs)) = (texts(d \<mapsto> t)) ++ map_of (rev docs)"
    by (simp add: x map_add_def fun_eq_iff split: option.split)
  moreover have "text_run C create none (x # docs) s = (Inr (map (length \<circ> words_of pipeline \<circ> snd) (x # docs)), s2)"
    by (simp add: x meth_simps s1(1) s2(1))
  ultimately show ?case using s2(2) by auto
qed simp

section \<open>Searching for a word\<close>

definition number :: "'t lexicon \<Rightarrow> 't \<Rightarrow> int" where
  "number L w = (case lx_wids L w of None \<Rightarrow> 0 | Some i \<Rightarrow> i)"

lemma number_in:
  assumes L: "lexicon_inv L" and ids: "map (lx_wids L) ws = map Some is"
  shows "number L w \<in> set is \<longleftrightarrow> w \<in> set ws"
proof -
  have eq: "lx_wids L ` set ws = Some ` set is" using ids by (metis list.set_map)
  have inv: "lx_wids L v = Some i \<longleftrightarrow> lx_words L i = Some v" "lx_words L 0 = None" for v i
    using L by (simp_all add: lexicon_inv_def)
  show ?thesis
  proof
    assume "w \<in> set ws"
    then have "lx_wids L w \<in> Some ` set is" unfolding eq [symmetric] by simp
    then show "number L w \<in> set is" by (auto simp: number_def)
  next
    assume "number L w \<in> set is"
    then have "Some (number L w) \<in> lx_wids L ` set ws" unfolding eq by simp
    then obtain v where "v \<in> set ws" "lx_wids L v = Some (number L w)" by (metis imageE)
    then have v: "v \<in> set ws" "lx_words L (number L w) = Some v" using inv(1) by simp_all
    then obtain i where i: "lx_wids L w = Some i" using inv(2) by (cases "lx_wids L w") (auto simp: number_def)
    then have "lx_words L i = Some w" using inv(1) by simp
    then show "w \<in> set ws" using v i by (simp add: number_def)
  qed
qed

lemma docs_with_word:
  assumes s: "text_synced C pipeline texts s"
  shows "docs_with (lu_docwords (ti_index s)) (number (ti_lexicon s) w) =
    {d. \<exists>t. texts d = Some t \<and> w \<in> set (words_of pipeline t)}"
proof -
  have L: "lexicon_inv (ti_lexicon s)" using s by (simp add: text_synced_def)
  have num: "numbered (ti_lexicon s) (lu_docwords (ti_index s) d) (map_option (words_of pipeline) (texts d))" for d
    using s unfolding text_synced_def by blast
  have "(\<exists>ids. lu_docwords (ti_index s) d = Some ids \<and> number (ti_lexicon s) w \<in> set ids) \<longleftrightarrow>
      (\<exists>t. texts d = Some t \<and> w \<in> set (words_of pipeline t))" for d
  proof (cases "texts d")
    case (Some t)
    then obtain ids where ids: "lu_docwords (ti_index s) d = Some ids"
      "map (lx_wids (ti_lexicon s)) (words_of pipeline t) = map Some ids"
      using num [of d] by auto
    then show ?thesis using Some number_in [OF L ids(2)] by simp
  qed (use num [of d] in simp)
  then show ?thesis by (simp add: docs_with_def)
qed

lemma word_search:
  assumes s: "text_synced C pipeline texts s" and some: "texts \<noteq> Map.empty" and w: "words_of pipeline w = [w]"
  shows "\<exists>ys. lucene_search lg (ti_index s) (ti_lexicon s) (Text w) = Inr (ys, None) \<and> distinct (map fst ys) \<and>
    fst ` set ys = {d. \<exists>t. texts d = Some t \<and> w \<in> set (words_of pipeline t)}"
proof -
  let ?D = "lu_docwords (ti_index s)" and ?i = "number (ti_lexicon s) w"
  have inv: "lucene_inv C (ti_index s)" "lx_pipeline (ti_lexicon s) = pipeline" using s by (simp_all add: text_synced_def)
  obtain d t where "texts d = Some t" using some by fastforce
  moreover have "numbered (ti_lexicon s) (?D d) (map_option (words_of pipeline) (texts d))"
    using s unfolding text_synced_def by blast
  ultimately have D: "?D \<noteq> Map.empty" by auto
  have "run_pipeline (ti_lexicon s) [w] = [w]" using w inv(2) by (simp add: run_pipeline_def words_of_def)
  then have ids: "termToWordIds (Text w) (ti_lexicon s) = Inr [?i]" by (simp add: termToWordIds_def number_def)
  let ?L = "map (\<lambda>w. (postings_of C ?D w, word_weight lg ?D w)) (remove_oov_wids (ti_index s) [?i])"
  have r: "lucene_search lg (ti_index s) (ti_lexicon s) (Text w) = Inr (mass_weightedUnion ?L)"
    using search_ids_known [OF inv(1) D, of lg "[?i]"] by (simp add: lucene_search_def ids)
  show ?thesis
  proof (cases "lu_wordinfo (ti_index s) ?i")
    case None
    then have "docs_with ?D ?i = {}" using word_known [OF inv(1)] by blast
    then show ?thesis using r None docs_with_word [OF s, of w] by (simp add: remove_oov_wids_def mass_weightedUnion_def)
  next
    case (Some p)
    let ?p = "postings_of C ?D ?i"
    have fin: "finite (dom ?D)" using inv(1) by (simp add: lucene_inv_def)
    define ys where "ys = map (\<lambda>(score, d). (d, - score * word_weight lg ?D ?i)) ?p"
    have "mass_weightedUnion ?L = (ys, None)"
      using Some by (simp add: remove_oov_wids_def mass_weightedUnion_def ys_def)
    moreover have keys: "map fst ys = map snd ?p" by (simp add: ys_def comp_def split_def)
    then have "fst ` set ys = snd ` set ?p" by (metis list.set_map)
    then have "fst ` set ys = {d. \<exists>t. texts d = Some t \<and> w \<in> set (words_of pipeline t)}"
      using postings_docs(2) [OF fin, of C ?i] docs_with_word [OF s, of w] by simp
    moreover have "distinct (map fst ys)" unfolding keys by (rule postings_docs(1) [OF fin])
    ultimately show ?thesis using r by auto
  qed
qed

section \<open>Properties\<close>

text \<open>
  C15: Texts are indexed, some of them again under the same number. Whatever numbers the lexicon
  gave to their words: every call returns the number of words of its text, and a search for a
  word yields, without raising, exactly the documents whose latest text has the word, each
  once; a word that is in no text yields nothing.
\<close>

theorem indexed_words_found:
  assumes "creates_ids create" "lc_keep_phrases C" "docs \<noteq> []"
    and "\<forall>t \<in> snd ` set docs. words_of pipeline t \<noteq> []" "words_of pipeline w = [w]"
    and "text_run C create none docs (new_text_index pipeline) = (r, s)"
  shows "r = Inr (map (length \<circ> words_of pipeline \<circ> snd) docs) \<and>
    (\<exists>ys. lucene_search lg (ti_index s) (ti_lexicon s) (Text w) = Inr (ys, None) \<and> distinct (map fst ys) \<and>
      fst ` set ys = {d. \<exists>t. map_of (rev docs) d = Some t \<and> w \<in> set (words_of pipeline t)})"
proof -
  have R: "r = Inr (map (length \<circ> words_of pipeline \<circ> snd) docs)" "text_synced C pipeline (map_of (rev docs)) s"
    using text_run_synced [OF assms(1,2) new_text_index_synced assms(4), of none] assms(6) by auto
  have "map_of (rev docs) \<noteq> Map.empty" using assms(3) by (simp add: map_of_eq_empty_iff)
  from word_search [OF R(2) this assms(5), of lg] R(1) show ?thesis by blast
qed

text \<open>The answer of a query for a text can be read as a list, in any order of reading.\<close>

lemma text_apply_iterates:
  assumes L: "lru_ok L" "\<And>i. lru_lookup L c i = None"
    and "text_apply (Some f) super c q = Inr (Lazy_Answer F s)" "f q = Inr (docs, e)" "e \<noteq> Some StopIteration"
    and "fuel > length docs"
  shows "\<exists>t. iterate_from L F fuel 0 s = Some (docs, e, t)"
proof -
  have F: "so_iterator F" "s = new_sliceable c" "so_elements F = docs" "raised F = e"
    using assms(3-5) by (auto simp: text_apply_def raised_def split: option.splits)
  have "sl_inv L F s" unfolding F(2) by (rule new_sliceable_inv) (simp add: cache_sound_def L(2))
  then show ?thesis using iterate_from_ok [OF L(1) F(1), of s 0 fuel] assms(6) F(3,4) by auto
qed

lemma indexed_words_found_witness:
  "\<exists>s ys. text_run ab_config next_word [] [(1, ''a b a''), (2, ''b''), (1, ''b'')] (new_text_index [split_words]) = (Inr [3, 1, 1], s) \<and>
     lucene_search ln (ti_index s) (ti_lexicon s) (Text ''b'') = Inr (ys, None) \<and> fst ` set ys = {1, 2}"
proof -
  let ?docs = "[(1, ''a b a''), (2, ''b''), (1, ''b'')]"
  obtain r s where r: "text_run ab_config next_word [] ?docs (new_text_index [split_words]) = (r, s)" by fastforce
  have C: "lc_keep_phrases ab_config" by (simp add: ab_config_def)
  have words: "words_of [split_words] ''a b a'' = [''a'', ''b'', ''a'']" "words_of [split_words] ''b'' = [''b'']"
    by (simp_all add: words_of_def split_words_def)
  have docs: "?docs \<noteq> []" "\<forall>t \<in> snd ` set ?docs. words_of [split_words] t \<noteq> []" by (simp_all add: words)
  have found: "{d. \<exists>t. map_of (rev ?docs) d = Some t \<and> ''b'' \<in> set (words_of [split_words] t)} = {1, 2}"
    by (auto simp: words)
  have "map (length \<circ> words_of [split_words] \<circ> snd) ?docs = [3, 1, 1]" by (simp add: words)
  with indexed_words_found [OF next_word_creates C docs words(2) r, of ln] show ?thesis
    unfolding found using r by auto
qed

end
