(* ===== verification/Okapi_Index.thy ===== *)
theory Okapi_Index
  imports Prelude "HOL-Library.AList"
begin

text \<open>
  The Okapi text index (zerodb/catalog/indexes/text_okapi.py), a subclass of the index of
  zope.index: building, indexing and reindexing. The words of a text come as the list of their
  numbers, as in theory Lucene_Index. What the file calls in its base class is the record
  \<open>okapi_base\<close>. Reading trees ahead has no effect on the results.
\<close>

section \<open>State\<close>

text \<open>
  The scores of a word by document: a dictionary while there are few, then a tree. Both are
  association lists, of which only the entries matter.
\<close>

datatype 'w doc_scores = Score_Dict "(int \<times> 'w) list" | Score_Tree "(int \<times> 'w) list"

fun score_items :: "'w doc_scores \<Rightarrow> (int \<times> 'w) list" where
  "score_items (Score_Dict xs) = xs"
| "score_items (Score_Tree xs) = xs"

text \<open>A counter: a \<open>Length\<close>, or in an old database a plain number, which has no \<open>change\<close>.\<close>

datatype counter = Length_Counter int | Plain_Counter int

text \<open>\<open>oi_base\<close> is what the base class keeps besides, with the total length of the documents.\<close>

record ('w, 'b) okapi_index =
  oi_wordinfo :: "(int \<times> 'w doc_scores) list"
  oi_docweight :: "(int \<times> 'w) list"
  oi_docwords :: "(int \<times> int list) list"
  oi_word_count :: counter
  oi_document_count :: counter
  oi_base :: 'b

type_synonym ('w, 'b) okapi_method = "(('w, 'b) okapi_index, unit) meth"

record ('w, 'b) okapi_base =
  ob_get_frequencies :: "int list \<Rightarrow> (int \<times> 'w) list \<times> 'w"
  ob_add_wordinfo :: "int \<Rightarrow> 'w \<Rightarrow> int \<Rightarrow> ('w, 'b) okapi_method"
  ob_del_wordinfo :: "int \<Rightarrow> int \<Rightarrow> ('w, 'b) okapi_method"
  ob_change_doc_len :: "'w \<Rightarrow> 'b \<Rightarrow> 'b"
  ob_dict_cutoff :: nat

section \<open>Operations\<close>

definition okapi_clear :: "('w, 'b) okapi_index \<Rightarrow> ('w, 'b) okapi_index" where
  "okapi_clear s = s\<lparr>oi_wordinfo := [], oi_docweight := [], oi_docwords := [],
     oi_word_count := Length_Counter 0, oi_document_count := Length_Counter 0\<rparr>"

text \<open>\<open>try: counter.change(n) except AttributeError: counter = Length(l)\<close>\<close>

fun change_counter :: "int \<Rightarrow> nat \<Rightarrow> counter \<Rightarrow> counter" where
  "change_counter n l (Length_Counter k) = Length_Counter (k + n)"
| "change_counter n l (Plain_Counter k) = Length_Counter (int l)"

text \<open>\<open>_mass_add_wordinfo\<close>: the new score of one word, then of all, counting the new words.\<close>

definition put_score :: "nat \<Rightarrow> int \<Rightarrow> 'w \<Rightarrow> 'w doc_scores option \<Rightarrow> 'w doc_scores" where
  "put_score cutoff docid weight doc2score =
     (case doc2score of
        None \<Rightarrow> Score_Dict [(docid, weight)]
      | Some (Score_Dict xs) \<Rightarrow>
          if length xs = cutoff then Score_Tree (AList.update docid weight xs)
          else Score_Dict (AList.update docid weight xs)
      | Some (Score_Tree xs) \<Rightarrow> Score_Tree (AList.update docid weight xs))"

fun add_words ::
  "nat \<Rightarrow> int \<Rightarrow> (int \<times> 'w) list \<Rightarrow> (int \<times> 'w doc_scores) list \<times> nat \<Rightarrow> (int \<times> 'w doc_scores) list \<times> nat" where
  "add_words cutoff docid [] st = st"
| "add_words cutoff docid ((wid, weight) # ws) (info, new_words) =
     add_words cutoff docid ws
       (AList.update wid (put_score cutoff docid weight (map_of info wid)) info,
        if map_of info wid = None then new_words + 1 else new_words)"

definition mass_add_wordinfo ::
  "('w, 'b) okapi_base \<Rightarrow> (int \<times> 'w) list \<Rightarrow> int \<Rightarrow> ('w, 'b) okapi_index \<Rightarrow> ('w, 'b) okapi_index" where
  "mass_add_wordinfo B wid2weight docid s =
     (case add_words (ob_dict_cutoff B) docid wid2weight (oi_wordinfo s, 0) of
        (info, n) \<Rightarrow> s\<lparr>oi_wordinfo := info, oi_word_count := change_counter (int n) (length info) (oi_word_count s)\<rparr>)"

definition okapi_get_words :: "int \<Rightarrow> ('w, 'b) okapi_index \<Rightarrow> int list res" where
  "okapi_get_words docid s = (case map_of (oi_docwords s) docid of None \<Rightarrow> Inl KeyError | Some ws \<Rightarrow> Inr ws)"

text \<open>\<open>_reindex_doc\<close>, with the sets of words in increasing order.\<close>

definition okapi_reindex_doc :: "('w::linordered_idom, 'b) okapi_base \<Rightarrow> int \<Rightarrow> int list \<Rightarrow> (('w, 'b) okapi_index, nat) meth" where
  "okapi_reindex_doc B docid new_wids =
     m_bind (m_lift (\<lambda>s. case map_of (oi_docweight s) docid of None \<Rightarrow> Inl KeyError | Some w \<Rightarrow> Inr w)) (\<lambda>w.
     m_bind (m_modify (\<lambda>s. s\<lparr>oi_base := ob_change_doc_len B (- w) (oi_base s)\<rparr>)) (\<lambda>_.
     m_bind (m_lift (okapi_get_words docid)) (\<lambda>old_wids.
       let (old_wid2w, old_docw) = ob_get_frequencies B old_wids;
           (new_wid2w, new_docw) = ob_get_frequencies B new_wids;
           old_widset = fst ` set old_wid2w; new_widset = fst ` set new_wid2w;
           in_both = sorted_list_of_set (old_widset \<inter> new_widset);
           only_old = sorted_list_of_set (old_widset - new_widset);
           only_new = sorted_list_of_set (new_widset - old_widset)
       in m_bind (m_each (\<lambda>wid. ob_del_wordinfo B wid docid) only_old) (\<lambda>_.
          m_bind (m_each (\<lambda>wid. ob_add_wordinfo B wid (the (map_of new_wid2w wid)) docid) only_new) (\<lambda>_.
          m_bind (m_each (\<lambda>wid. if map_of old_wid2w wid \<noteq> map_of new_wid2w wid
                                then ob_add_wordinfo B wid (the (map_of new_wid2w wid)) docid else m_return ()) in_both) (\<lambda>_.
          m_bind (m_modify (\<lambda>s. s\<lparr>oi_docweight := AList.update docid new_docw (oi_docweight s),
                                  oi_docwords := AList.update docid new_wids (oi_docwords s)\<rparr>)) (\<lambda>_.
            m_return (length new_wids))))))))"

definition okapi_index_doc :: "('w::linordered_idom, 'b) okapi_base \<Rightarrow> int \<Rightarrow> int list \<Rightarrow> (('w, 'b) okapi_index, nat) meth" where
  "okapi_index_doc B docid wids s =
     (if map_of (oi_docwords s) docid \<noteq> None then okapi_reindex_doc B docid wids s
      else
        (let (wid2weight, docweight) = ob_get_frequencies B wids;
             s1 = mass_add_wordinfo B wid2weight docid s;
             s2 = s1\<lparr>oi_docweight := AList.update docid docweight (oi_docweight s1),
                     oi_docwords := AList.update docid wids (oi_docwords s1)\<rparr>;
             s3 = s2\<lparr>oi_document_count := change_counter 1 (length (oi_docweight s2)) (oi_document_count s2)\<rparr>
         in (Inr (length wids), s3\<lparr>oi_base := ob_change_doc_len B (of_nat (length wids)) (oi_base s3)\<rparr>)))"

text \<open>\<open>_search_wids\<close>: the scores of all the words are looked up before the base class searches.\<close>

definition okapi_search_wids ::
  "(int list \<Rightarrow> ('w, 'b) okapi_index \<Rightarrow> 'r res) \<Rightarrow> int list \<Rightarrow> ('w, 'b) okapi_index \<Rightarrow> 'r res" where
  "okapi_search_wids super wids s =
     bindr (map_res (\<lambda>wid. case map_of (oi_wordinfo s) wid of None \<Rightarrow> Inl KeyError | Some x \<Rightarrow> Inr x) wids) (\<lambda>_. super wids s)"

section \<open>What the index relies on\<close>

text \<open>The score of a word in a document; the parts that the base class leaves alone.\<close>

definition okapi_score :: "('w, 'b) okapi_index \<Rightarrow> int \<Rightarrow> int \<Rightarrow> 'w option" where
  "okapi_score s wid d = (case map_of (oi_wordinfo s) wid of None \<Rightarrow> None | Some x \<Rightarrow> map_of (score_items x) d)"

definition okapi_rest :: "('w, 'b) okapi_index \<Rightarrow> (int \<times> 'w) list \<times> (int \<times> int list) list \<times> counter \<times> 'b" where
  "okapi_rest s = (oi_docweight s, oi_docwords s, oi_document_count s, oi_base s)"

definition word_effect ::
  "('w, 'b) okapi_method \<Rightarrow> int \<Rightarrow> int \<Rightarrow> 'w option \<Rightarrow> ('w, 'b) okapi_index \<Rightarrow> bool" where
  "word_effect m wid d x s \<longleftrightarrow> (\<exists>s'. m s = (Inr (), s') \<and> okapi_rest s' = okapi_rest s \<and>
     okapi_score s' = (okapi_score s)(wid := (okapi_score s wid)(d := x)))"

text \<open>
  The base class as it is documented: the frequencies have an entry for each word of the text, and
  the weight of a document is its length; \<open>_add_wordinfo\<close> sets a score, and \<open>_del_wordinfo\<close> takes
  one out that is there.
\<close>

definition base_laws :: "('w::linordered_idom, 'b) okapi_base \<Rightarrow> bool" where
  "base_laws B \<longleftrightarrow>
     (\<forall>ws. distinct (map fst (fst (ob_get_frequencies B ws))) \<and> fst ` set (fst (ob_get_frequencies B ws)) = set ws \<and>
        snd (ob_get_frequencies B ws) = of_nat (length ws)) \<and>
     (\<forall>wid w d s. word_effect (ob_add_wordinfo B wid w d) wid d (Some w) s) \<and>
     (\<forall>wid d s. okapi_score s wid d \<noteq> None \<longrightarrow> word_effect (ob_del_wordinfo B wid d) wid d None s)"

definition freq :: "('w, 'b) okapi_base \<Rightarrow> int list \<Rightarrow> int \<Rightarrow> 'w option" where
  "freq B ws wid = map_of (fst (ob_get_frequencies B ws)) wid"

lemma freq_None: "base_laws B \<Longrightarrow> freq B ws wid = None \<longleftrightarrow> wid \<notin> set ws"
  by (simp add: base_laws_def freq_def map_of_eq_None_iff)

text \<open>The index is determined by the words of the documents in it.\<close>

definition okapi_inv :: "('w::linordered_idom, 'b) okapi_base \<Rightarrow> ('w, 'b) okapi_index \<Rightarrow> bool" where
  "okapi_inv B s \<longleftrightarrow>
     (\<forall>wid d. okapi_score s wid d = (case map_of (oi_docwords s) d of None \<Rightarrow> None | Some ws \<Rightarrow> freq B ws wid)) \<and>
     (\<forall>d. map_of (oi_docweight s) d = map_option (\<lambda>ws. of_nat (length ws)) (map_of (oi_docwords s) d)) \<and>
     distinct (map fst (oi_docwords s)) \<and> oi_document_count s = Length_Counter (int (length (oi_docwords s)))"

lemma okapi_clear_inv: "okapi_inv B (okapi_clear s)"
  by (simp add: okapi_inv_def okapi_clear_def okapi_score_def)

section \<open>A new document\<close>

lemma map_of_put_score:
  "map_of (score_items (put_score c d w x)) e = (if e = d then Some w else case x of None \<Rightarrow> None | Some y \<Rightarrow> map_of (score_items y) e)"
  by (auto simp: put_score_def update_conv' split: option.split doc_scores.split)

lemma add_words_info:
  "distinct (map fst ws) \<Longrightarrow> map_of (fst (add_words c d ws (info, n))) wid =
     (case map_of ws wid of None \<Rightarrow> map_of info wid | Some w \<Rightarrow> Some (put_score c d w (map_of info wid)))"
proof (induction ws arbitrary: info n)
  case (Cons x ws)
  obtain v w where x: "x = (v, w)" by (cases x)
  have "map_of ws v = None" using Cons.prems x by (simp add: map_of_eq_None_iff)
  then show ?case using Cons x by (auto simp: update_conv' split: option.split)
qed simp

lemma mass_add_score:
  assumes "distinct (map fst ws)"
  shows "okapi_score (mass_add_wordinfo B ws d s) wid e =
      (if e = d \<and> map_of ws wid \<noteq> None then map_of ws wid else okapi_score s wid e)"
    and "okapi_rest (mass_add_wordinfo B ws d s) = okapi_rest s"
proof -
  let ?r = "add_words (ob_dict_cutoff B) d ws (oi_wordinfo s, 0)"
  have "oi_wordinfo (mass_add_wordinfo B ws d s) = fst ?r" by (simp add: mass_add_wordinfo_def split: prod.split)
  then show "okapi_score (mass_add_wordinfo B ws d s) wid e =
      (if e = d \<and> map_of ws wid \<noteq> None then map_of ws wid else okapi_score s wid e)"
    using assms by (auto simp: okapi_score_def add_words_info map_of_put_score split: option.split)
  show "okapi_rest (mass_add_wordinfo B ws d s) = okapi_rest s"
    by (simp add: mass_add_wordinfo_def okapi_rest_def split: prod.split)
qed

lemma length_update: "length (AList.update k v xs) = (if k \<in> fst ` set xs then length xs else Suc (length xs))"
  by (induction xs) auto

lemma okapi_index_new:
  assumes B: "base_laws B" and I: "okapi_inv B s" and new: "map_of (oi_docwords s) d = None"
  shows "\<exists>s'. okapi_index_doc B d ws s = (Inr (length ws), s') \<and> okapi_inv B s' \<and>
    map_of (oi_docwords s') = (map_of (oi_docwords s))(d \<mapsto> ws) \<and>
    oi_base s' = ob_change_doc_len B (of_nat (length ws)) (oi_base s)"
proof -
  obtain f n where f: "ob_get_frequencies B ws = (f, n)" by fastforce
  have fn: "distinct (map fst f)" "fst ` set f = set ws" "n = of_nat (length ws)"
    using B f unfolding base_laws_def by (metis fst_conv snd_conv)+
  let ?s1 = "mass_add_wordinfo B f d s"
  note m = mass_add_score [OF fn(1), of B d s]
  have rest: "oi_docweight ?s1 = oi_docweight s" "oi_docwords ?s1 = oi_docwords s"
    "oi_document_count ?s1 = oi_document_count s" "oi_base ?s1 = oi_base s"
    using m(2) by (simp_all add: okapi_rest_def)
  define s' where "s' = snd (okapi_index_doc B d ws s)"
  have s': "okapi_index_doc B d ws s = (Inr (length ws), s')" "oi_wordinfo s' = oi_wordinfo ?s1"
    "oi_docweight s' = AList.update d n (oi_docweight s)" "oi_docwords s' = AList.update d ws (oi_docwords s)"
    "oi_document_count s' = change_counter 1 (length (oi_docweight s')) (oi_document_count s)"
    "oi_base s' = ob_change_doc_len B (of_nat (length ws)) (oi_base s)"
    using new by (simp_all add: s'_def okapi_index_doc_def f Let_def rest)
  have "okapi_score s' wid e = (case map_of (oi_docwords s') e of None \<Rightarrow> None | Some ws \<Rightarrow> freq B ws wid)" for wid e
  proof -
    have old: "okapi_score s wid e = (case map_of (oi_docwords s) e of None \<Rightarrow> None | Some ws \<Rightarrow> freq B ws wid)"
      using I by (simp add: okapi_inv_def)
    have "okapi_score s' wid e = okapi_score ?s1 wid e" by (simp add: okapi_score_def s'(2))
    moreover have "map_of f wid = freq B ws wid" by (simp add: freq_def f)
    ultimately show ?thesis using m(1) [of wid e] old new by (auto simp: s'(4) update_conv')
  qed
  moreover have "d \<notin> fst ` set (oi_docwords s)" using new by (simp add: map_of_eq_None_iff)
  ultimately have "okapi_inv B s'"
    using I fn(3) by (simp add: okapi_inv_def s'(3-5) update_conv' distinct_update length_update)
  then show ?thesis using s'(1,4,6) by (auto simp: update_conv')
qed

section \<open>A document again\<close>

lemma each_word:
  assumes "\<And>wid t. wid \<in> set ws \<Longrightarrow> okapi_score t wid d = old wid \<Longrightarrow> word_effect (f wid) wid d (g wid) t"
    and "distinct ws" "\<And>wid. wid \<in> set ws \<Longrightarrow> okapi_score s wid d = old wid"
  shows "\<exists>s'. m_each f ws s = (Inr (), s') \<and> okapi_rest s' = okapi_rest s \<and>
    (\<forall>v e. okapi_score s' v e = (if v \<in> set ws \<and> e = d then g v else okapi_score s v e))"
  using assms
proof (induction ws arbitrary: s)
  case Nil
  then show ?case by (simp add: m_return_def)
next
  case (Cons w ws)
  have "word_effect (f w) w d (g w) s" using Cons.prems(1,3) by simp
  then obtain t where t: "f w s = (Inr (), t)" "okapi_rest t = okapi_rest s"
    "okapi_score t = (okapi_score s)(w := (okapi_score s w)(d := g w))"
    unfolding word_effect_def by blast
  have "okapi_score t v d = old v" if "v \<in> set ws" for v
    using Cons.prems(2,3) that by (auto simp: t(3))
  moreover have "distinct ws" using Cons.prems(2) by simp
  ultimately obtain s' where s': "m_each f ws t = (Inr (), s')" "okapi_rest s' = okapi_rest t"
    "\<forall>v e. okapi_score s' v e = (if v \<in> set ws \<and> e = d then g v else okapi_score t v e)"
    using Cons.IH [of t] Cons.prems(1) by auto
  then show ?case using t Cons.prems(2) by (auto simp: m_bind_def)
qed

text \<open>The three loops of \<open>_reindex_doc\<close> put the new scores in the place of the old ones.\<close>

lemma reindex_words:
  assumes B: "base_laws B" and old: "\<And>wid. okapi_score s wid d = freq B os wid"
  shows "\<exists>s1 s2 s3.
    m_each (\<lambda>wid. ob_del_wordinfo B wid d) (sorted_list_of_set (set os - set ns)) s = (Inr (), s1) \<and>
    m_each (\<lambda>wid. ob_add_wordinfo B wid (the (freq B ns wid)) d) (sorted_list_of_set (set ns - set os)) s1 = (Inr (), s2) \<and>
    m_each (\<lambda>wid. if freq B os wid \<noteq> freq B ns wid then ob_add_wordinfo B wid (the (freq B ns wid)) d else m_return ())
      (sorted_list_of_set (set os \<inter> set ns)) s2 = (Inr (), s3) \<and>
    okapi_rest s3 = okapi_rest s \<and> (\<forall>v e. okapi_score s3 v e = (if e = d then freq B ns v else okapi_score s v e))"
proof -
  have add: "word_effect (ob_add_wordinfo B wid w d) wid d (Some w) t" for wid w t
    using B by (simp add: base_laws_def)
  have del: "word_effect (ob_del_wordinfo B wid d) wid d None t" if "okapi_score t wid d \<noteq> None" for wid t
    using B that by (simp add: base_laws_def)
  have some: "freq B ws wid \<noteq> None \<longleftrightarrow> wid \<in> set ws" for ws wid by (simp add: freq_None [OF B])
  have del_old: "word_effect (ob_del_wordinfo B wid d) wid d None t"
    if "wid \<in> set (sorted_list_of_set (set os - set ns))" "okapi_score t wid d = freq B os wid" for wid t
    using that del some [of os wid] by simp
  have add_new: "word_effect (ob_add_wordinfo B wid (the (freq B ns wid)) d) wid d (freq B ns wid) t"
    if "wid \<in> set ns" for wid t
    using add [of wid "the (freq B ns wid)" t] some [of ns wid] that by simp
  have add_both: "word_effect (if freq B os wid \<noteq> freq B ns wid then ob_add_wordinfo B wid (the (freq B ns wid)) d else m_return ())
      wid d (freq B ns wid) t"
    if "wid \<in> set (sorted_list_of_set (set os \<inter> set ns))" "okapi_score t wid d = freq B os wid" for wid t
    using that add_new [of wid t] by (auto simp: word_effect_def m_return_def fun_eq_iff)
  obtain s1 where s1: "m_each (\<lambda>wid. ob_del_wordinfo B wid d) (sorted_list_of_set (set os - set ns)) s = (Inr (), s1)"
    "okapi_rest s1 = okapi_rest s" "\<And>v e. okapi_score s1 v e = (if v \<in> set os - set ns \<and> e = d then None else okapi_score s v e)"
    using each_word [where f = "\<lambda>wid. ob_del_wordinfo B wid d" and g = "\<lambda>_. None" and s = s and old = "freq B os" and d = d
        and ws = "sorted_list_of_set (set os - set ns)"] del_old old by auto
  obtain s2 where s2: "m_each (\<lambda>wid. ob_add_wordinfo B wid (the (freq B ns wid)) d) (sorted_list_of_set (set ns - set os)) s1 = (Inr (), s2)"
    "okapi_rest s2 = okapi_rest s1" "\<And>v e. okapi_score s2 v e = (if v \<in> set ns - set os \<and> e = d then freq B ns v else okapi_score s1 v e)"
    using each_word [where d = d and f = "\<lambda>wid. ob_add_wordinfo B wid (the (freq B ns wid)) d" and g = "freq B ns"
        and ws = "sorted_list_of_set (set ns - set os)" and s = s1 and old = "\<lambda>wid. okapi_score s1 wid d"] add_new by auto
  have both: "okapi_score s2 wid d = freq B os wid" if "wid \<in> set (sorted_list_of_set (set os \<inter> set ns))" for wid
    using that by (simp add: s2(3) s1(3) old)
  obtain s3 where s3: "m_each (\<lambda>wid. if freq B os wid \<noteq> freq B ns wid then ob_add_wordinfo B wid (the (freq B ns wid)) d else m_return ())
      (sorted_list_of_set (set os \<inter> set ns)) s2 = (Inr (), s3)"
    "okapi_rest s3 = okapi_rest s2" "\<And>v e. okapi_score s3 v e = (if v \<in> set os \<inter> set ns \<and> e = d then freq B ns v else okapi_score s2 v e)"
    using each_word [where d = d and old = "freq B os" and s = s2 and ws = "sorted_list_of_set (set os \<inter> set ns)",
        OF add_both _ both] by auto
  have "okapi_score s3 v e = (if e = d then freq B ns v else okapi_score s v e)" for v e
    using some [of os v] some [of ns v] by (auto simp: s3(3) s2(3) s1(3) old)
  then show ?thesis using s1 s2 s3 by auto
qed

lemma okapi_index_again:
  assumes B: "base_laws B" and I: "okapi_inv B s" and old: "map_of (oi_docwords s) d = Some os"
  shows "\<exists>s'. okapi_index_doc B d ns s = (Inr (length ns), s') \<and> okapi_inv B s' \<and>
    map_of (oi_docwords s') = (map_of (oi_docwords s))(d \<mapsto> ns) \<and>
    oi_base s' = ob_change_doc_len B (- of_nat (length os)) (oi_base s)"
proof -
  obtain fo no where fo: "ob_get_frequencies B os = (fo, no)" by fastforce
  obtain fn nn where fn: "ob_get_frequencies B ns = (fn, nn)" by fastforce
  have sets: "fst ` set fo = set os" "fst ` set fn = set ns" "nn = of_nat (length ns)"
    using B fo fn unfolding base_laws_def by (metis fst_conv snd_conv)+
  have maps: "map_of fo = freq B os" "map_of fn = freq B ns" by (simp_all add: freq_def fo fn fun_eq_iff)
  let ?t = "s\<lparr>oi_base := ob_change_doc_len B (- of_nat (length os)) (oi_base s)\<rparr>"
  have score: "okapi_score ?t wid e = okapi_score s wid e" for wid e by (simp add: okapi_score_def)
  have "okapi_score ?t wid d = freq B os wid" for wid using I old by (simp add: score okapi_inv_def)
  from reindex_words [OF B this, of ns] obtain s1 s2 s3 where
    r: "m_each (\<lambda>wid. ob_del_wordinfo B wid d) (sorted_list_of_set (set os - set ns)) ?t = (Inr (), s1)"
      "m_each (\<lambda>wid. ob_add_wordinfo B wid (the (freq B ns wid)) d) (sorted_list_of_set (set ns - set os)) s1 = (Inr (), s2)"
      "m_each (\<lambda>wid. if freq B os wid \<noteq> freq B ns wid then ob_add_wordinfo B wid (the (freq B ns wid)) d else m_return ())
        (sorted_list_of_set (set os \<inter> set ns)) s2 = (Inr (), s3)"
    and s3: "okapi_rest s3 = okapi_rest ?t" "\<And>v e. okapi_score s3 v e = (if e = d then freq B ns v else okapi_score ?t v e)"
    by blast
  define s' where "s' = s3\<lparr>oi_docweight := AList.update d nn (oi_docweight s3), oi_docwords := AList.update d ns (oi_docwords s3)\<rparr>"
  have rest: "oi_docweight s3 = oi_docweight s" "oi_docwords s3 = oi_docwords s"
    "oi_document_count s3 = oi_document_count s" "oi_base s3 = ob_change_doc_len B (- of_nat (length os)) (oi_base s)"
    using s3(1) by (simp_all add: okapi_rest_def)
  have "map_of (oi_docweight s) d = Some (of_nat (length os))" using I old by (simp add: okapi_inv_def)
  then have run: "okapi_index_doc B d ns s = (Inr (length ns), s')"
    using old r by (simp add: okapi_index_doc_def okapi_reindex_doc_def okapi_get_words_def meth_simps fo fn sets maps s'_def cong: if_cong)
  have s': "oi_docwords s' = AList.update d ns (oi_docwords s)" "oi_docweight s' = AList.update d nn (oi_docweight s)"
    "oi_document_count s' = oi_document_count s" "oi_base s' = ob_change_doc_len B (- of_nat (length os)) (oi_base s)"
    by (simp_all add: s'_def rest)
  have "okapi_score s' wid e = (case map_of (oi_docwords s') e of None \<Rightarrow> None | Some ws \<Rightarrow> freq B ws wid)" for wid e
  proof -
    have "okapi_score s' wid e = okapi_score s3 wid e" by (simp add: okapi_score_def s'_def)
    then show ?thesis using I by (simp add: s3(2) score okapi_inv_def s'(1) update_conv')
  qed
  moreover have "d \<in> fst ` set (oi_docwords s)" using old by (metis domI dom_map_of_conv_image_fst)
  ultimately have "okapi_inv B s'"
    using I by (simp add: okapi_inv_def s'(1-3) sets(3) update_conv' distinct_update length_update)
  then show ?thesis using run s' by (auto simp: update_conv')
qed

section \<open>Histories\<close>

text \<open>Documents are indexed in any order, some of them again; the results are the lengths.\<close>

fun okapi_run :: "('w::linordered_idom, 'b) okapi_base \<Rightarrow> (int \<times> int list) list \<Rightarrow> (('w, 'b) okapi_index, nat list) meth" where
  "okapi_run B [] s = (Inr [], s)"
| "okapi_run B ((d, ws) # docs) s =
     m_bind (okapi_index_doc B d ws) (\<lambda>n. m_bind (okapi_run B docs) (\<lambda>ns. m_return (n # ns))) s"

lemma okapi_index_any:
  assumes "base_laws B" "okapi_inv B s"
  shows "\<exists>s'. okapi_index_doc B d ws s = (Inr (length ws), s') \<and> okapi_inv B s' \<and>
    map_of (oi_docwords s') = (map_of (oi_docwords s))(d \<mapsto> ws)"
  using okapi_index_new [OF assms] okapi_index_again [OF assms] by (cases "map_of (oi_docwords s) d") blast+

lemma okapi_run_ok:
  assumes B: "base_laws B"
  shows "okapi_inv B s \<Longrightarrow> \<exists>s'. okapi_run B docs s = (Inr (map (length \<circ> snd) docs), s') \<and> okapi_inv B s' \<and>
    map_of (oi_docwords s') = map_of (oi_docwords s) ++ map_of (rev docs)"
proof (induction docs arbitrary: s)
  case (Cons x docs)
  obtain d ws where x: "x = (d, ws)" by (cases x)
  obtain s1 where s1: "okapi_index_doc B d ws s = (Inr (length ws), s1)" "okapi_inv B s1"
    "map_of (oi_docwords s1) = (map_of (oi_docwords s))(d \<mapsto> ws)"
    using okapi_index_any [OF B Cons.prems] by blast
  obtain s2 where s2: "okapi_run B docs s1 = (Inr (map (length \<circ> snd) docs), s2)" "okapi_inv B s2"
    "map_of (oi_docwords s2) = map_of (oi_docwords s1) ++ map_of (rev docs)"
    using Cons.IH [OF s1(2)] by blast
  have "okapi_run B (x # docs) s = (Inr (map (length \<circ> snd) (x # docs)), s2)"
    by (simp add: x meth_simps s1(1) s2(1))
  then show ?case using s2(2,3) s1(3) by (simp add: x map_add_upd_left map_add_def fun_eq_iff split: option.split)
qed simp

section \<open>Properties\<close>

text \<open>
  C32: After any series of indexing and reindexing from a cleared index, however its words' scores
  moved from dictionaries to trees: every call returned the length of its text, and the index is
  the one of the latest texts: a word has a score in a document exactly if the document's latest
  text has the word, namely its frequency there, a document's weight is its latest length, and
  the counter is the number of documents.
\<close>

theorem okapi_latest_texts:
  assumes "base_laws B" "okapi_run B docs (okapi_clear s0) = (r, s)"
  shows "r = Inr (map (length \<circ> snd) docs) \<and>
    (\<forall>wid d. okapi_score s wid d = (case map_of (rev docs) d of None \<Rightarrow> None | Some ws \<Rightarrow> freq B ws wid)) \<and>
    (\<forall>wid d. okapi_score s wid d \<noteq> None \<longleftrightarrow> (\<exists>ws. map_of (rev docs) d = Some ws \<and> wid \<in> set ws)) \<and>
    (\<forall>d. map_of (oi_docweight s) d = map_option (\<lambda>ws. of_nat (length ws)) (map_of (rev docs) d)) \<and>
    oi_document_count s = Length_Counter (int (card (fst ` set docs)))"
proof -
  have R: "r = Inr (map (length \<circ> snd) docs)" "okapi_inv B s" "map_of (oi_docwords s) = map_of (rev docs)"
    using okapi_run_ok [OF assms(1) okapi_clear_inv, of docs s0] assms(2) by (auto simp: okapi_clear_def)
  have "length (oi_docwords s) = card (fst ` set (oi_docwords s))"
    using R(2) by (metis distinct_card length_map list.set_map okapi_inv_def)
  also have "fst ` set (oi_docwords s) = fst ` set docs"
    using R(3) by (metis dom_map_of_conv_image_fst set_rev)
  finally have n: "length (oi_docwords s) = card (fst ` set docs)" .
  have score: "okapi_score s wid d = (case map_of (rev docs) d of None \<Rightarrow> None | Some ws \<Rightarrow> freq B ws wid)" for wid d
    using R(2,3) by (simp add: okapi_inv_def)
  have "okapi_score s wid d \<noteq> None \<longleftrightarrow> (\<exists>ws. map_of (rev docs) d = Some ws \<and> wid \<in> set ws)" for wid d
  proof (cases "map_of (rev docs) d")
    case (Some ws)
    then show ?thesis using freq_None [OF assms(1), of ws wid] by (simp add: score)
  qed (simp add: score)
  then show ?thesis using R n by (simp add: okapi_inv_def score)
qed

text \<open>
  Reindexing takes the old length of a document out of the total and never puts in the new one:
  a document that is indexed and then reindexed with another text counts for nothing in the
  total length, although its weight is the new length. (\<open>T\<close> reads the total.)
\<close>

theorem okapi_length_lost:
  assumes "base_laws B" "okapi_inv B s" "map_of (oi_docwords s) d = None"
    and "\<And>n b. T (ob_change_doc_len B n b) = T b + n"
    and "okapi_run B [(d, ws), (d, ws')] s = (r, s')"
  shows "T (oi_base s') = T (oi_base s) \<and> map_of (oi_docweight s') d = Some (of_nat (length ws'))"
proof -
  obtain s1 where s1: "okapi_index_doc B d ws s = (Inr (length ws), s1)" "okapi_inv B s1"
    "map_of (oi_docwords s1) = (map_of (oi_docwords s))(d \<mapsto> ws)"
    "oi_base s1 = ob_change_doc_len B (of_nat (length ws)) (oi_base s)"
    using okapi_index_new [OF assms(1-3)] by blast
  have "map_of (oi_docwords s1) d = Some ws" by (simp add: s1(3))
  from okapi_index_again [OF assms(1) s1(2) this] obtain s2 where
    s2: "okapi_index_doc B d ws' s1 = (Inr (length ws'), s2)" "okapi_inv B s2"
      "map_of (oi_docwords s2) = (map_of (oi_docwords s1))(d \<mapsto> ws')"
      "oi_base s2 = ob_change_doc_len B (- of_nat (length ws)) (oi_base s1)" by blast
  have "s' = s2" using assms(5) by (simp add: meth_simps s1(1) s2(1))
  then show ?thesis using s2 s1(4) by (simp add: assms(4) okapi_inv_def)
qed

section \<open>Witnesses\<close>

text \<open>A base class that keeps the scores in dictionaries and counts the total in a number.\<close>

definition plain_base :: "(int, int) okapi_base" where
  "plain_base = \<lparr>
     ob_get_frequencies = (\<lambda>ws. (map (\<lambda>w. (w, int (count_list ws w))) (remdups ws), int (length ws))),
     ob_add_wordinfo = (\<lambda>wid w d s. (Inr (), s\<lparr>oi_wordinfo :=
        AList.update wid (put_score 10 d w (map_of (oi_wordinfo s) wid)) (oi_wordinfo s)\<rparr>)),
     ob_del_wordinfo = (\<lambda>wid d s. (Inr (), s\<lparr>oi_wordinfo :=
        (case map_of (oi_wordinfo s) wid of None \<Rightarrow> oi_wordinfo s
         | Some x \<Rightarrow> AList.update wid (Score_Dict (AList.delete d (score_items x))) (oi_wordinfo s))\<rparr>)),
     ob_change_doc_len = (\<lambda>n b. b + n),
     ob_dict_cutoff = 10\<rparr>"

lemma plain_base_laws: "base_laws plain_base"
proof -
  have "word_effect (ob_add_wordinfo plain_base wid w d) wid d (Some w) s" for wid w d s
    by (auto simp: word_effect_def plain_base_def okapi_rest_def okapi_score_def fun_eq_iff map_of_put_score update_conv'
        split: option.split)
  moreover have "word_effect (ob_del_wordinfo plain_base wid d) wid d None s" if "okapi_score s wid d \<noteq> None" for wid d s
    using that
    by (auto simp: word_effect_def plain_base_def okapi_rest_def okapi_score_def fun_eq_iff update_conv' delete_conv'
        split: option.split)
  ultimately show ?thesis by (auto simp: base_laws_def plain_base_def comp_def image_image)
qed

definition empty_okapi :: "(int, int) okapi_index" where
  "empty_okapi = \<lparr>oi_wordinfo = [], oi_docweight = [], oi_docwords = [],
     oi_word_count = Length_Counter 0, oi_document_count = Length_Counter 0, oi_base = 0\<rparr>"

lemma okapi_latest_texts_witness:
  "\<exists>s. okapi_run plain_base [(1, [7, 8, 7]), (2, [8]), (1, [7, 9])] (okapi_clear empty_okapi) = (Inr [3, 1, 2], s) \<and>
     okapi_score s 7 1 = Some 1 \<and> okapi_score s 8 1 = None \<and> oi_document_count s = Length_Counter 2"
proof -
  obtain r s where r: "okapi_run plain_base [(1, [7, 8, 7]), (2, [8]), (1, [7, 9])] (okapi_clear empty_okapi) = (r, s)"
    by fastforce
  have "{1, 2, 1 :: int} = {1, 2}" by auto
  then have "card {1, 2, 1 :: int} = 2" by simp
  with okapi_latest_texts [OF plain_base_laws r] have
    "r = Inr [3, 1, 2]" "okapi_score s 7 1 = Some 1" "okapi_score s 8 1 = None" "oi_document_count s = Length_Counter 2"
    by (simp_all add: freq_def plain_base_def)
  then show ?thesis using r by blast
qed

lemma okapi_length_lost_witness:
  "\<exists>r s. okapi_run plain_base [(1, [7, 8, 7]), (1, [7, 9])] empty_okapi = (r, s) \<and> oi_base s = 0 \<and>
     map_of (oi_docweight s) 1 = Some 2"
proof -
  obtain r s where r: "okapi_run plain_base [(1, [7, 8, 7]), (1, [7, 9])] empty_okapi = (r, s)" by fastforce
  have "okapi_inv plain_base empty_okapi" using okapi_clear_inv [of plain_base empty_okapi] by (simp add: okapi_clear_def empty_okapi_def)
  moreover have "map_of (oi_docwords empty_okapi) 1 = None" by (simp add: empty_okapi_def)
  moreover have "\<And>n b. id (ob_change_doc_len plain_base n b) = id b + n" by (simp add: plain_base_def)
  ultimately show ?thesis
    using okapi_length_lost [OF plain_base_laws _ _ _ r, of id] r by (auto simp: empty_okapi_def)
qed

end
