(* ===== verification/Query.thy ===== *)
theory Query
  imports Prelude
begin

text \<open>
  zerodb/catalog/query.py and query_json.py: query objects, their negation, their
  application to a catalog, and their compilation from JSON. The base classes of the
  catalog package, the indexes and the set operations of the tree family are parameters.
\<close>

section \<open>JSON and queries\<close>

text \<open>A deserialized JSON value; a dictionary is the list of its items.\<close>

datatype 'v json =
    JVal 'v
  | JStr string
  | JBool bool
  | JList "'v json list"
  | JDict "(string \<times> 'v json) list"

text \<open>The classes of query.py that compare the value of a field.\<close>

datatype field_op =
    Eq | NotEq | Lt | Le | Gt | Ge | InRange | NotInRange
  | Contains | DoesNotContain | AnyOf | AllOf | NotAny | NotAll

text \<open>A comparator keeps the index name and its other arguments.\<close>

datatype 'v query =
    Cmp field_op string "'v json list"
  | And_Query "'v query list"
  | Or_Query "'v query list"
  | Not_Query "'v query"

section \<open>Negation\<close>

text \<open>
  \<open>negate\<close> of the classes that define it here; the others inherit it (\<open>None\<close>). The
  ranges keep their bounds and both flags, which default to False.
\<close>

definition range_args :: "'v json list \<Rightarrow> 'v json list" where
  "range_args params = take 4 (params @ drop (length params - 2) [JBool False, JBool False])"

fun negate :: "'v query \<Rightarrow> 'v query option" where
  "negate (Cmp Contains i p) = Some (Cmp DoesNotContain i p)"
| "negate (Cmp DoesNotContain i p) = Some (Cmp Contains i p)"
| "negate (Cmp Gt i p) = Some (Cmp Le i p)"
| "negate (Cmp Lt i p) = Some (Cmp Ge i p)"
| "negate (Cmp Ge i p) = Some (Cmp Lt i p)"
| "negate (Cmp Le i p) = Some (Cmp Gt i p)"
| "negate (Cmp InRange i p) = Some (Cmp NotInRange i (range_args p))"
| "negate (Cmp NotInRange i p) = Some (Cmp InRange i (range_args p))"
| "negate q = None"

section \<open>Application\<close>

text \<open>What a query gives: a set of document ids, or a lazy sequence of them (\<open>Sliceable\<close>).\<close>

datatype result_set = Id_Set "int set" | Lazy "int list"

fun contents :: "result_set \<Rightarrow> int set" where
  "contents (Id_Set S) = S"
| "contents (Lazy xs) = set xs"

fun result_len :: "result_set \<Rightarrow> nat" where
  "result_len (Id_Set S) = card S"
| "result_len (Lazy xs) = length xs"

text \<open>\<open>_to_set\<close>\<close>

definition to_set :: "result_set \<Rightarrow> int set" where
  "to_set r = (case r of Id_Set S \<Rightarrow> S | Lazy xs \<Rightarrow> set xs)"

text \<open>
  The catalog: its indexes by name, the methods of an index, what the inherited classes do,
  and the weighted set operations, of which only the resulting set is used.
\<close>

record ('v, 'ix) catalog =
  ca_index :: "string \<Rightarrow> 'ix res"
  ca_call :: "'ix \<Rightarrow> string \<Rightarrow> 'v json list \<Rightarrow> result_set res"
  ca_inherited :: "'v query \<Rightarrow> result_set res"
  ca_union :: "int set \<Rightarrow> int set \<Rightarrow> int set"
  ca_intersection :: "int set \<Rightarrow> int set \<Rightarrow> int set"

text \<open>The index method a class calls, for the classes that define \<open>_apply\<close> here.\<close>

fun apply_method :: "field_op \<Rightarrow> string option" where
  "apply_method Contains = Some ''applyContains''"
| "apply_method DoesNotContain = Some ''applyDoesNotContain''"
| "apply_method Gt = Some ''applyGt''"
| "apply_method Lt = Some ''applyLt''"
| "apply_method Ge = Some ''applyGe''"
| "apply_method Le = Some ''applyLe''"
| "apply_method InRange = Some ''applyInRange''"
| "apply_method NotInRange = Some ''applyNotInRange''"
| "apply_method _ = None"

definition call_args :: "field_op \<Rightarrow> 'v json list \<Rightarrow> 'v json list" where
  "call_args op params = (if op = InRange \<or> op = NotInRange then range_args params else params)"

text \<open>\<open>_apply\<close>; an \<open>And\<close> or an \<open>Or\<close> without queries is an IndexError.\<close>

fun apply_query :: "('v, 'ix) catalog \<Rightarrow> 'v query \<Rightarrow> result_set res"
  and apply_or :: "('v, 'ix) catalog \<Rightarrow> 'v query list \<Rightarrow> result_set \<Rightarrow> result_set res"
  and apply_and :: "('v, 'ix) catalog \<Rightarrow> 'v query list \<Rightarrow> result_set \<Rightarrow> result_set res" where
  "apply_query C (Cmp op i params) =
     (case apply_method op of
        None \<Rightarrow> ca_inherited C (Cmp op i params)
      | Some m \<Rightarrow> bindr (ca_index C i) (\<lambda>ix. ca_call C ix m (call_args op params)))"
| "apply_query C (Or_Query qs) =
     (case qs of [] \<Rightarrow> Inl IndexError | q # rest \<Rightarrow> bindr (apply_query C q) (apply_or C rest))"
| "apply_query C (And_Query qs) =
     (case qs of [] \<Rightarrow> Inl IndexError | q # rest \<Rightarrow> bindr (apply_query C q) (apply_and C rest))"
| "apply_query C (Not_Query q) = ca_inherited C (Not_Query q)"
| "apply_or C [] result = Inr result"
| "apply_or C (q # rest) result =
     bindr (apply_query C q) (\<lambda>next_result.
       apply_or C rest
         (if result_len result = 0 then next_result
          else if result_len next_result > 0
            then Id_Set (ca_union C (to_set result) (to_set next_result))
          else result))"
| "apply_and C [] result = Inr result"
| "apply_and C (q # rest) result =
     (if result_len result = 0 then Inr (Id_Set {})
      else bindr (apply_query C q) (\<lambda>next_result.
        if result_len next_result = 0 then Inr (Id_Set {})
        else apply_and C rest (Id_Set (ca_intersection C (to_set result) (to_set next_result)))))"

section \<open>Compilation\<close>

text \<open>
  The classes that \<open>compile\<close> instantiates, of which the constructors belong to the catalog package:
  how many arguments besides the index name a comparator takes, and what the boolean operators
  make of their parts.
\<close>

record 'v query_classes =
  qc_accepts :: "field_op \<Rightarrow> nat \<Rightarrow> bool"
  qc_and :: "'v query list \<Rightarrow> 'v query res"
  qc_or :: "'v query list \<Rightarrow> 'v query res"
  qc_not :: "'v query list \<Rightarrow> 'v query res"

definition logical_operator :: "'v query_classes \<Rightarrow> string \<Rightarrow> ('v query list \<Rightarrow> 'v query res) option" where
  "logical_operator K = map_of [(''$and'', qc_and K), (''$or'', qc_or K), (''$not'', qc_not K)]"

definition field_operators :: "(string \<times> field_op) list" where
  "field_operators = [(''$eq'', Eq), (''$ne'', NotEq), (''$lt'', Lt), (''$lte'', Le), (''$gt'', Gt),
     (''$gte'', Ge), (''$range'', InRange), (''$nrange'', NotInRange), (''$text'', Contains),
     (''$ntext'', DoesNotContain), (''$in'', AnyOf), (''$all'', AllOf), (''$nany'', NotAny), (''$nin'', NotAll)]"

text \<open>
  \<open>compile\<close>. The key of anything but a dictionary of one item is an error: a value has no
  length, a string or a list of length 1 has no keys.
\<close>

definition the_item :: "'v json \<Rightarrow> (string \<times> 'v json) res" where
  "the_item q =
     (case q of
        JDict [kv] \<Rightarrow> Inr kv
      | JDict _ \<Rightarrow> Inl AssertionError
      | JList [_] \<Rightarrow> Inl AttributeError
      | JList _ \<Rightarrow> Inl AssertionError
      | JStr [_] \<Rightarrow> Inl AttributeError
      | JStr _ \<Rightarrow> Inl AssertionError
      | _ \<Rightarrow> Inl TypeError)"

definition compile_field :: "'v query_classes \<Rightarrow> string \<Rightarrow> 'v json \<Rightarrow> 'v query res" where
  "compile_field K key v =
     (case v of
        JDict [(opkey, params)] \<Rightarrow>
          (let params = (case params of JList ps \<Rightarrow> ps | _ \<Rightarrow> [params]) in
           case map_of field_operators opkey of
             None \<Rightarrow> Inl KeyError
           | Some op \<Rightarrow> if qc_accepts K op (length params) then Inr (Cmp op key params) else Inl TypeError)
      | _ \<Rightarrow> Inl AssertionError)"

fun the_queries :: "'v query res list \<Rightarrow> 'v query list res" where
  "the_queries [] = Inr []"
| "the_queries (r # rs) = bindr r (\<lambda>q. bindr (the_queries rs) (\<lambda>qs. Inr (q # qs)))"

lemma size_the_item:
  "the_item q = Inr (k, v) \<Longrightarrow> size v < size q"
  by (auto simp: the_item_def split: json.splits list.splits)

lemma size_list_element: "x \<in> set xs \<Longrightarrow> size x \<le> size_list size xs"
  by (rule size_list_estimation' [of x xs "size x" size]) simp_all

function compile :: "'v query_classes \<Rightarrow> 'v json \<Rightarrow> 'v query res" where
  "compile K q =
     (case the_item q of
        Inl e \<Rightarrow> Inl e
      | Inr (key, v) \<Rightarrow>
          (case logical_operator K key of
             Some f \<Rightarrow>
               (case v of
                  JList qs \<Rightarrow> bindr (the_queries (map (compile K) qs)) f
                | _ \<Rightarrow> bindr (compile K v) (\<lambda>x. f [x]))
           | None \<Rightarrow> compile_field K key v))"
  by pat_completeness auto
termination
  by (relation "measure (\<lambda>(K, q). size q)")
    (auto dest!: size_the_item dest: size_list_element)

declare compile.simps [simp del]

section \<open>The syntax of queries\<close>

text \<open>
  The documented syntax as a grammar, with the query that each form stands for: \<open>op_key\<close> is the
  table of the field operators (docs/source/index.rst). A comparison is an index name with
  one operator, and its arguments are the elements of an array, or a single value; a boolean
  operator has an array of queries, or a single one, and in either case applies to it.
\<close>

fun op_key :: "field_op \<Rightarrow> string" where
  "op_key Eq = ''$eq''" | "op_key NotEq = ''$ne''" | "op_key Lt = ''$lt''" | "op_key Le = ''$lte''"
| "op_key Gt = ''$gt''" | "op_key Ge = ''$gte''" | "op_key InRange = ''$range''"
| "op_key NotInRange = ''$nrange''" | "op_key Contains = ''$text''"
| "op_key DoesNotContain = ''$ntext''" | "op_key AnyOf = ''$in''" | "op_key AllOf = ''$all''"
| "op_key NotAny = ''$nany''" | "op_key NotAll = ''$nin''"

inductive combines :: "'v query_classes \<Rightarrow> string \<Rightarrow> 'v query list \<Rightarrow> 'v query \<Rightarrow> bool" for K where
  by_and: "qc_and K qs = Inr q \<Longrightarrow> combines K ''$and'' qs q"
| by_or: "qc_or K qs = Inr q \<Longrightarrow> combines K ''$or'' qs q"
| by_not: "qc_not K qs = Inr q \<Longrightarrow> combines K ''$not'' qs q"

inductive_simps combines_iff: "combines K k qs q"

definition is_array :: "'v json \<Rightarrow> bool" where
  "is_array j \<longleftrightarrow> (\<exists>js. j = JList js)"

inductive stands_for :: "'v query_classes \<Rightarrow> 'v json \<Rightarrow> 'v query \<Rightarrow> bool" for K where
  one_value: "i \<notin> {''$and'', ''$or'', ''$not''} \<Longrightarrow> \<not> is_array v \<Longrightarrow> qc_accepts K op 1 \<Longrightarrow>
    stands_for K (JDict [(i, JDict [(op_key op, v)])]) (Cmp op i [v])"
| many_values: "i \<notin> {''$and'', ''$or'', ''$not''} \<Longrightarrow> qc_accepts K op (length vs) \<Longrightarrow>
    stands_for K (JDict [(i, JDict [(op_key op, JList vs)])]) (Cmp op i vs)"
| one_query: "\<not> is_array j \<Longrightarrow> stands_for K j p \<Longrightarrow> combines K k [p] q \<Longrightarrow> stands_for K (JDict [(k, j)]) q"
| queries: "list_all2 (stands_for K) js ps \<Longrightarrow> combines K k ps q \<Longrightarrow> stands_for K (JDict [(k, JList js)]) q"

lemma the_queries_Inr: "the_queries rs = Inr qs \<longleftrightarrow> rs = map Inr qs"
  by (induction rs arbitrary: qs) (auto simp: bindr_eq_Inr Cons_eq_map_conv)

lemma map_of_op_key: "map_of field_operators k = Some op \<longleftrightarrow> k = op_key op"
  by (cases op) (auto simp: field_operators_def)

lemma the_item_Inr: "the_item j = Inr (k, v) \<longleftrightarrow> j = JDict [(k, v)]"
  by (auto simp: the_item_def split: json.splits list.splits)

lemma logical_operator_combines:
  "combines K k qs q \<longleftrightarrow> (\<exists>f. logical_operator K k = Some f \<and> f qs = Inr q)"
  by (auto simp: combines_iff logical_operator_def)

lemma logical_operator_None: "logical_operator K k = None \<longleftrightarrow> k \<notin> {''$and'', ''$or'', ''$not''}"
  by (auto simp: logical_operator_def)

lemma compile_field_Inr:
  "compile_field K i v = Inr q \<longleftrightarrow>
     (\<exists>op ps. v = JDict [(op_key op, JList ps)] \<and> qc_accepts K op (length ps) \<and> q = Cmp op i ps) \<or>
     (\<exists>op x. v = JDict [(op_key op, x)] \<and> \<not> is_array x \<and> qc_accepts K op 1 \<and> q = Cmp op i [x])"
  by (auto simp: compile_field_def Let_def is_array_def map_of_op_key [symmetric]
      split: json.splits list.splits option.splits if_splits)

lemma compile_JDict:
  "compile K (JDict [(k, v)]) =
     (case logical_operator K k of
        Some f \<Rightarrow> (case v of JList js \<Rightarrow> bindr (the_queries (map (compile K) js)) f | _ \<Rightarrow> bindr (compile K v) (\<lambda>x. f [x]))
      | None \<Rightarrow> compile_field K k v)"
  by (subst compile.simps) (simp add: the_item_def)

lemma compile_complete: "stands_for K j q \<Longrightarrow> compile K j = Inr q"
proof (induction rule: stands_for.induct)
  case (one_query j p k q)
  then show ?case
    by (auto simp: compile_JDict logical_operator_combines is_array_def split: json.splits)
next
  case (queries js ps k q)
  then have "map (compile K) js = map Inr ps"
    by (simp add: list_all2_conv_all_nth list_eq_iff_nth_eq)
  then show ?case
    using queries(2) by (auto simp: compile_JDict logical_operator_combines the_queries_Inr [THEN iffD2])
qed (auto simp: compile_JDict logical_operator_None [THEN iffD2] compile_field_Inr)

lemma compile_sound: "compile K j = Inr q \<Longrightarrow> stands_for K j q"
proof (induction K j arbitrary: q rule: compile.induct)
  case (1 K j)
  from "1.prems" obtain k v where item: "the_item j = Inr (k, v)"
    by (subst (asm) compile.simps) (auto split: sum.splits)
  then have j: "j = JDict [(k, v)]" by (simp add: the_item_Inr)
  show ?case
  proof (cases "logical_operator K k")
    case None
    then have "compile_field K k v = Inr q" "k \<notin> {''$and'', ''$or'', ''$not''}"
      using "1.prems" logical_operator_None [of K k] by (simp_all add: j compile_JDict)
    then show ?thesis by (auto simp: j compile_field_Inr intro: one_value many_values)
  next
    case (Some f)
    show ?thesis
    proof (cases "is_array v")
      case True
      then obtain js where v: "v = JList js" by (auto simp: is_array_def)
      obtain qs where qs: "map (compile K) js = map Inr qs" "f qs = Inr q"
        using "1.prems" Some by (auto simp: j v compile_JDict bindr_eq_Inr the_queries_Inr)
      have "list_all2 (stands_for K) js qs"
        using qs(1) "1.IH"(4) [OF item refl Some v]
        by (auto simp: list_all2_conv_all_nth list_eq_iff_nth_eq)
      then show ?thesis
        using qs(2) Some by (auto simp: j v logical_operator_combines intro: stands_for.queries)
    next
      case False
      then obtain p where p: "compile K v = Inr p" "f [p] = Inr q"
        using "1.prems" Some by (auto simp: j compile_JDict bindr_eq_Inr is_array_def split: json.splits)
      have "stands_for K v p"
        using "1.IH"(1-3,5) [OF item refl Some] p(1) False by (cases v) (auto simp: is_array_def)
      then show ?thesis
        using p(2) Some False by (auto simp: j logical_operator_combines intro: stands_for.one_query)
    qed
  qed
qed

section \<open>What boolean queries answer\<close>

text \<open>
  The reference: the answer to the comparators and negations (\<open>L\<close>) combined as sets.
\<close>

fun answer :: "('v query \<Rightarrow> int set) \<Rightarrow> 'v query \<Rightarrow> int set" where
  "answer L (And_Query qs) = (\<Inter>q \<in> set qs. answer L q)"
| "answer L (Or_Query qs) = (\<Union>q \<in> set qs. answer L q)"
| "answer L q = L q"

fun leaves :: "'v query \<Rightarrow> 'v query set" where
  "leaves (And_Query qs) = (\<Union>q \<in> set qs. leaves q)"
| "leaves (Or_Query qs) = (\<Union>q \<in> set qs. leaves q)"
| "leaves q = {q}"

fun has_operands :: "'v query \<Rightarrow> bool" where
  "has_operands (And_Query qs) \<longleftrightarrow> qs \<noteq> [] \<and> (\<forall>q \<in> set qs. has_operands q)"
| "has_operands (Or_Query qs) \<longleftrightarrow> qs \<noteq> [] \<and> (\<forall>q \<in> set qs. has_operands q)"
| "has_operands q \<longleftrightarrow> True"

text \<open>A query is answered by a finite result with the right contents.\<close>

definition answered :: "('v, 'ix) catalog \<Rightarrow> 'v query \<Rightarrow> int set \<Rightarrow> bool" where
  "answered C q S \<longleftrightarrow> (\<exists>r. apply_query C q = Inr r \<and> contents r = S \<and> finite S)"

lemma result_len_0: "finite (contents r) \<Longrightarrow> result_len r = 0 \<longleftrightarrow> contents r = {}"
  by (cases r) simp_all

lemma to_set_contents [simp]: "to_set r = contents r"
  by (cases r) (simp_all add: to_set_def)

lemma apply_or_contents:
  assumes "\<And>S T. finite S \<Longrightarrow> finite T \<Longrightarrow> ca_union C S T = S \<union> T"
    and "\<forall>q \<in> set qs. answered C q (A q)" "finite (contents r)"
  shows "\<exists>r'. apply_or C qs r = Inr r' \<and> contents r' = contents r \<union> (\<Union>q \<in> set qs. A q) \<and> finite (contents r')"
  using assms(2,3)
proof (induction qs arbitrary: r)
  case (Cons q qs)
  from Cons.prems obtain n where n: "apply_query C q = Inr n" "contents n = A q" "finite (contents n)"
    by (auto simp: answered_def)
  define t where "t = (if result_len r = 0 then n else if result_len n > 0
      then Id_Set (ca_union C (to_set r) (to_set n)) else r)"
  have t: "contents t = contents r \<union> A q"
    using n Cons.prems(2) assms(1) result_len_0 [of r] result_len_0 [of n] by (auto simp: t_def)
  then have "finite (contents t)" using n Cons.prems(2) by simp
  then show ?case
    using Cons.IH [of t] Cons.prems(1) n(1) t by (simp add: t_def [symmetric] Un_assoc)
qed simp

lemma apply_and_contents:
  assumes "\<And>S T. finite S \<Longrightarrow> finite T \<Longrightarrow> ca_intersection C S T = S \<inter> T"
    and "\<forall>q \<in> set qs. answered C q (A q)" "finite (contents r)"
  shows "\<exists>r'. apply_and C qs r = Inr r' \<and> contents r' = contents r \<inter> (\<Inter>q \<in> set qs. A q) \<and> finite (contents r')"
  using assms(2,3)
proof (induction qs arbitrary: r)
  case (Cons q qs)
  from Cons.prems obtain n where n: "apply_query C q = Inr n" "contents n = A q" "finite (contents n)"
    by (auto simp: answered_def)
  show ?case
  proof (cases "result_len r = 0 \<or> result_len n = 0")
    case True
    then show ?thesis
      using n Cons.prems(2) result_len_0 [of r] result_len_0 [of n] by auto
  next
    case False
    define t where "t = Id_Set (ca_intersection C (contents r) (contents n))"
    have "contents t = contents r \<inter> A q" using n Cons.prems(2) assms(1) by (simp add: t_def)
    then show ?thesis
      using Cons.IH [of t] Cons.prems n False by (auto simp: t_def Int_assoc)
  qed
qed simp

text \<open>
  C30: Applying a query to a catalog answers with exactly the boolean combination of what
  its comparators answer: \<open>And\<close> the intersection, \<open>Or\<close> the union, nested to any depth,
  whether the parts come as sets or as lazy sequences, and whether a part that decides the
  result stops the evaluation early. Every comparator is assumed to be answered, every
  operator to have an operand, and the set operations of the tree family to be the union
  and the intersection.
\<close>

theorem boolean_queries_correct:
  assumes union: "\<And>S T. finite S \<Longrightarrow> finite T \<Longrightarrow> ca_union C S T = S \<union> T"
    and inter: "\<And>S T. finite S \<Longrightarrow> finite T \<Longrightarrow> ca_intersection C S T = S \<inter> T"
    and leaves: "\<forall>l \<in> leaves q. answered C l (L l)" and "has_operands q"
  shows "\<exists>r. apply_query C q = Inr r \<and> contents r = answer L q"
proof -
  have "answered C q (answer L q)"
    using leaves \<open>has_operands q\<close>
  proof (induction q)
    case (And_Query qs)
    then obtain q qs' where qs: "qs = q # qs'" by (cases qs) auto
    have all: "\<forall>p \<in> set qs. answered C p (answer L p)" using And_Query by auto
    then obtain r where "apply_query C q = Inr r" "contents r = answer L q" "finite (contents r)"
      by (auto simp: qs answered_def)
    then show ?case
      using apply_and_contents [OF inter, of qs' "answer L" r] all by (auto simp: qs answered_def)
  next
    case (Or_Query qs)
    then obtain q qs' where qs: "qs = q # qs'" by (cases qs) auto
    have all: "\<forall>p \<in> set qs. answered C p (answer L p)" using Or_Query by auto
    then obtain r where "apply_query C q = Inr r" "contents r = answer L q" "finite (contents r)"
      by (auto simp: qs answered_def)
    then show ?case
      using apply_or_contents [OF union, of qs' "answer L" r] all by (auto simp: qs answered_def)
  qed simp_all
  then show ?thesis by (auto simp: answered_def)
qed

text \<open>A catalog with one index, a list of documents with numbers.\<close>

definition sample_docs :: "(int \<times> int) list" where
  "sample_docs = [(1, 10), (2, 20), (3, 30)]"

definition sample_catalog :: "(int, (int \<times> int) list) catalog" where
  "sample_catalog =
     \<lparr>ca_index = (\<lambda>i. if i = ''n'' then Inr sample_docs else Inl KeyError),
      ca_call = (\<lambda>ix m params.
        case params of
          JVal a # _ \<Rightarrow>
            if m = ''applyGt'' then Inr (Id_Set (set (map fst (filter (\<lambda>p. a < snd p) ix))))
            else if m = ''applyLe'' then Inr (Lazy (map fst (filter (\<lambda>p. snd p \<le> a) ix)))
            else Inl AttributeError
        | _ \<Rightarrow> Inl TypeError),
      ca_inherited = (\<lambda>_. Inl NotImplementedError),
      ca_union = (\<union>), ca_intersection = (\<inter>)\<rparr>"

definition sample_query :: "int query" where
  "sample_query = And_Query [Cmp Gt ''n'' [JVal 10], Or_Query [Cmp Le ''n'' [JVal 20], Cmp Gt ''n'' [JVal 90]]]"

lemma boolean_queries_correct_witness:
  "\<exists>r. apply_query sample_catalog sample_query = Inr r \<and> contents r = {2}"
proof -
  let ?L = "\<lambda>l :: int query. if l = Cmp Gt ''n'' [JVal 10] then {2, 3}
    else if l = Cmp Le ''n'' [JVal 20] then {1, 2} else {}"
  have "\<forall>l \<in> leaves sample_query. answered sample_catalog l (?L l)"
    by (auto simp: sample_query_def sample_catalog_def sample_docs_def answered_def call_args_def image_iff)
  then show ?thesis
    using boolean_queries_correct [of sample_catalog sample_query ?L]
    by (simp add: sample_query_def sample_catalog_def)
qed

text \<open>
  An \<open>And\<close> stops at the first part that finds nothing: later parts are not applied, so
  that they cannot raise; an \<open>Or\<close> applies all of its parts. Either without any part raises.
\<close>

theorem and_stops_early:
  assumes "apply_query C q = Inr r" "result_len r = 0" "rest \<noteq> []"
  shows "apply_query C (And_Query (q # rest)) = Inr (Id_Set {})
    \<and> apply_query C (Or_Query (q # rest)) = bindr (apply_query C (hd rest)) (apply_or C (tl rest))
    \<and> apply_query C (And_Query []) = Inl IndexError
    \<and> apply_query C (Or_Query []) = Inl IndexError"
proof -
  obtain p ps where "rest = p # ps" using \<open>rest \<noteq> []\<close> by (cases rest) auto
  then show ?thesis using assms by simp
qed

lemma and_stops_early_witness:
  "apply_query sample_catalog (And_Query [Cmp Gt ''n'' [JVal 50], Cmp Gt ''nope'' [JVal 1]])
     = Inr (Id_Set {})"
  by (rule and_stops_early [of _ _ "Id_Set {}", THEN conjunct1]) (auto simp: sample_catalog_def sample_docs_def call_args_def)

section \<open>Negation and ranges\<close>

text \<open>
  What the index methods are documented to select, as a condition on a document's value;
  \<open>has\<close> is the text search of \<open>applyContains\<close>.
\<close>

fun within :: "('v::linorder) json list \<Rightarrow> 'v \<Rightarrow> bool" where
  "within [JVal a, JVal b, JBool xa, JBool xb] v \<longleftrightarrow>
     (if xa then a < v else a \<le> v) \<and> (if xb then v < b else v \<le> b)"
| "within _ v \<longleftrightarrow> False"

fun compared :: "('v \<Rightarrow> 'v \<Rightarrow> bool) \<Rightarrow> 'v json list \<Rightarrow> 'v \<Rightarrow> bool" where
  "compared rel [JVal a] v \<longleftrightarrow> rel a v"
| "compared rel _ v \<longleftrightarrow> False"

fun selects ::
  "(('v::linorder) \<Rightarrow> ('v::linorder) json list \<Rightarrow> bool) \<Rightarrow> field_op \<Rightarrow> ('v::linorder) json list \<Rightarrow> ('v::linorder) \<Rightarrow> bool" where
  "selects has Gt ps v \<longleftrightarrow> compared (\<lambda>a v. a < v) ps v"
| "selects has Ge ps v \<longleftrightarrow> compared (\<lambda>a v. a \<le> v) ps v"
| "selects has Lt ps v \<longleftrightarrow> compared (\<lambda>a v. v < a) ps v"
| "selects has Le ps v \<longleftrightarrow> compared (\<lambda>a v. v \<le> a) ps v"
| "selects has InRange ps v \<longleftrightarrow> within ps v"
| "selects has NotInRange ps v \<longleftrightarrow> \<not> within ps v"
| "selects has Contains ps v \<longleftrightarrow> has v ps"
| "selects has DoesNotContain ps v \<longleftrightarrow> \<not> has v ps"
| "selects has op ps v \<longleftrightarrow> False"

text \<open>The arguments the classes take: one, or two bounds and at most two flags.\<close>

definition proper_args :: "field_op \<Rightarrow> 'v json list \<Rightarrow> bool" where
  "proper_args op ps \<longleftrightarrow>
     op \<in> {Gt, Ge, Lt, Le, Contains, DoesNotContain} \<and> (\<exists>a. ps = [JVal a])
     \<or> op \<in> {InRange, NotInRange} \<and> (\<exists>a b flags. ps = JVal a # JVal b # map JBool flags \<and> length flags \<le> 2)"

definition complement_op :: "field_op \<Rightarrow> field_op" where
  "complement_op op = (case op of Gt \<Rightarrow> Le | Le \<Rightarrow> Gt | Ge \<Rightarrow> Lt | Lt \<Rightarrow> Ge | InRange \<Rightarrow> NotInRange
     | NotInRange \<Rightarrow> InRange | Contains \<Rightarrow> DoesNotContain | DoesNotContain \<Rightarrow> Contains | _ \<Rightarrow> op)"

lemma short_list:
  "length xs \<le> 2 \<longleftrightarrow> xs = [] \<or> (\<exists>x. xs = [x]) \<or> (\<exists>x y. xs = [x, y])"
  by (cases xs rule: remdups_adj.cases) (auto simp: numeral_2_eq_2)

lemma proper_args_cases:
  assumes "proper_args op ps"
  obtains (one) a where "op \<in> {Gt, Ge, Lt, Le, Contains, DoesNotContain}" "ps = [JVal a]" "call_args op ps = ps"
  | (range) a b x y where "op \<in> {InRange, NotInRange}" "call_args op ps = [JVal a, JVal b, JBool x, JBool y]"
proof -
  have "(\<exists>a. op \<in> {Gt, Ge, Lt, Le, Contains, DoesNotContain} \<and> ps = [JVal a] \<and> call_args op ps = ps)
    \<or> (\<exists>a b x y. op \<in> {InRange, NotInRange} \<and> call_args op ps = [JVal a, JVal b, JBool x, JBool y])"
    using assms by (auto simp: proper_args_def short_list call_args_def range_args_def)
  then show ?thesis using one range by blast
qed

lemma proper_args_full:
  "op \<in> {InRange, NotInRange} \<Longrightarrow> proper_args op [JVal a, JVal b, JBool x, JBool y]"
  by (auto simp: proper_args_def intro!: exI [of _ "[x, y]"])

lemma call_args_full:
  "op \<in> {InRange, NotInRange} \<Longrightarrow> call_args op [a, b, x, y] = [a, b, x, y]"
  by (auto simp: call_args_def range_args_def)

lemma negate_Cmp:
  "proper_args op ps \<Longrightarrow> negate (Cmp op i ps) = Some (Cmp (complement_op op) i (call_args op ps))"
  by (auto simp: proper_args_def complement_op_def call_args_def)

lemma complement_args:
  "proper_args op ps \<Longrightarrow> proper_args (complement_op op) (call_args op ps)
     \<and> call_args (complement_op op) (call_args op ps) = call_args op ps
     \<and> apply_method op \<noteq> None \<and> complement_op (complement_op op) = op"
proof (elim proper_args_cases)
  fix a b x y assume "op \<in> {InRange, NotInRange}" "call_args op ps = [JVal a, JVal b, JBool x, JBool y]"
  then show ?thesis by (auto simp: complement_op_def proper_args_full call_args_full)
qed (auto simp: complement_op_def proper_args_def call_args_def)

lemma selects_complement:
  "proper_args op ps \<Longrightarrow> selects has (complement_op op) (call_args op ps) v
     \<longleftrightarrow> \<not> selects has op (call_args op ps) v"
  by (elim proper_args_cases) (auto simp: complement_op_def not_less not_le)

text \<open>
  The negation of a comparator answers with exactly the indexed documents that the
  comparator does not answer with, for an index whose methods select by the documented
  conditions. Negating twice gives a query with the same answer, ranges with and without
  exclusive bounds included.
\<close>

theorem negate_complements:
  fixes C :: "('v::linorder, 'ix) catalog"
  assumes index: "ca_index C i = Inr ix"
    and methods: "\<And>op m ps. apply_method op = Some m \<Longrightarrow> proper_args op ps \<Longrightarrow> call_args op ps = ps \<Longrightarrow>
      \<exists>r. ca_call C ix m ps = Inr r \<and> contents r = {d. \<exists>v. vals d = Some v \<and> selects has op ps v}"
    and args: "proper_args op ps"
  shows "\<exists>q' q'' r r' r''. negate (Cmp op i ps) = Some q' \<and> negate q' = Some q''
    \<and> apply_query C (Cmp op i ps) = Inr r \<and> apply_query C q' = Inr r' \<and> apply_query C q'' = Inr r''
    \<and> contents r' = dom vals - contents r \<and> contents r \<subseteq> dom vals \<and> contents r'' = contents r"
proof -
  let ?ps = "call_args op ps" and ?op = "complement_op op"
  note c = complement_args [OF args]
  have idem: "call_args op ?ps = ?ps" and good: "proper_args op ?ps"
    using c complement_args [of ?op ?ps] by auto
  have run: "\<exists>r. apply_query C (Cmp p i qs) = Inr r
      \<and> contents r = {d. \<exists>v. vals d = Some v \<and> selects has p (call_args p qs) v}"
    if "proper_args p qs" "call_args p (call_args p qs) = call_args p qs" "proper_args p (call_args p qs)" for p qs
    using methods [OF _ that(3,2)] complement_args [OF that(1)] index by auto
  from run [OF args idem good] obtain r where
    r: "apply_query C (Cmp op i ps) = Inr r" "contents r = {d. \<exists>v. vals d = Some v \<and> selects has op ?ps v}"
    by blast
  from run [of ?op ?ps] c obtain r' where
    r': "apply_query C (Cmp ?op i ?ps) = Inr r'"
      "contents r' = {d. \<exists>v. vals d = Some v \<and> selects has ?op ?ps v}"
    by auto
  from run [of op ?ps] idem good obtain r'' where
    r'': "apply_query C (Cmp op i ?ps) = Inr r''" "contents r'' = contents r"
    using r(2) by auto
  have "negate (Cmp op i ps) = Some (Cmp ?op i ?ps)" using negate_Cmp [OF args] .
  moreover have "negate (Cmp ?op i ?ps) = Some (Cmp op i ?ps)"
    using negate_Cmp [of ?op ?ps i] c by simp
  moreover have "contents r' = dom vals - contents r"
    using r(2) r'(2) selects_complement [OF args] by auto
  ultimately show ?thesis using r r' r'' by fastforce
qed

definition range_catalog :: "(int, (int \<times> int) list) catalog" where
  "range_catalog = sample_catalog\<lparr>
     ca_call := (\<lambda>ix m ps.
       case filter (\<lambda>op. apply_method op = Some m)
           [Gt, Ge, Lt, Le, InRange, NotInRange, Contains, DoesNotContain] of
         [] \<Rightarrow> Inl AttributeError
       | op # _ \<Rightarrow> Inr (Lazy (map fst (filter (\<lambda>p. selects (\<lambda>_ _. False) op ps (snd p)) ix))))\<rparr>"

lemma negate_complements_witness:
  "\<exists>q' q'' r r' r''. negate (Cmp InRange ''n'' [JVal 10, JVal 20, JBool True]) = Some q'
    \<and> negate q' = Some q''
    \<and> apply_query range_catalog (Cmp InRange ''n'' [JVal 10, JVal 20, JBool True]) = Inr r
    \<and> apply_query range_catalog q' = Inr r' \<and> apply_query range_catalog q'' = Inr r''
    \<and> contents r' = dom (map_of sample_docs) - contents r \<and> contents r \<subseteq> dom (map_of sample_docs)
    \<and> contents r'' = contents r"
proof (rule negate_complements [of _ _ sample_docs _ "\<lambda>_ _. False"])
  fix op m and ps :: "int json list"
  assume "apply_method op = Some m" "proper_args op ps"
  then have "\<exists>r. ca_call range_catalog sample_docs m ps = Inr r
    \<and> contents r = fst ` {p \<in> set sample_docs. selects (\<lambda>_ _. False) op ps (snd p)}"
    by (cases op) (auto simp: range_catalog_def)
  moreover have "fst ` {p \<in> set sample_docs. P (snd p)} = {d. \<exists>v. map_of sample_docs d = Some v \<and> P v}" for P
    by (auto simp: sample_docs_def image_iff split: if_splits)
  ultimately show "\<exists>r. ca_call range_catalog sample_docs m ps = Inr r \<and> contents r
      = {d. \<exists>v. map_of sample_docs d = Some v \<and> selects (\<lambda>_ _. False) op ps v}"
    by simp
next
  show "proper_args InRange [JVal 10, JVal (20 :: int), JBool True]"
    by (auto simp: proper_args_def intro!: exI [of _ "[True]"])
qed (simp add: range_catalog_def sample_catalog_def)

section \<open>Compilation, correctness\<close>


text \<open>
  The membership operators: the documentation gives them an array of values, but the elements of
  an array are the arguments of the constructor. Where that takes one value, an array of any
  other length than one raises, and with one element that element, not the array, is the value.
\<close>

theorem membership_arrays_spread:
  assumes "i \<notin> {''$and'', ''$or'', ''$not''}" "\<And>n. qc_accepts K op n \<longleftrightarrow> n = 1"
  shows "compile K (JDict [(i, JDict [(op_key op, JList vs)])]) =
    (case vs of [v] \<Rightarrow> Inr (Cmp op i [v]) | _ \<Rightarrow> Inl TypeError)"
proof -
  have "map_of field_operators (op_key op) = Some op" by (simp add: map_of_op_key)
  then show ?thesis
    using assms by (auto simp: compile_JDict logical_operator_None [THEN iffD2] compile_field_def split: list.split)
qed

definition plain_classes :: "'v query_classes" where
  "plain_classes = \<lparr>qc_accepts = (\<lambda>op n. if op = InRange \<or> op = NotInRange then 2 \<le> n \<and> n \<le> 4 else n = 1),
     qc_and = (\<lambda>qs. Inr (And_Query qs)), qc_or = (\<lambda>qs. Inr (Or_Query qs)),
     qc_not = (\<lambda>qs. case qs of [q] \<Rightarrow> Inr (Not_Query q) | _ \<Rightarrow> Inl TypeError)\<rparr>"

lemma membership_arrays_spread_witness:
  "compile plain_classes (JDict [(''n'', JDict [(''$in'', JList [JVal (1 :: int), JVal 2])])]) = Inl TypeError"
  using membership_arrays_spread [of "''n''" plain_classes AnyOf "[JVal (1 :: int), JVal 2]"]
  by (simp add: plain_classes_def)

text \<open>The shorthand of the repository's test: an operator with a single query.\<close>

lemma compile_not_or:
  "compile plain_classes (JDict [(''$not'', JDict [(''$or'',
      JList [JDict [(''f'', JDict [(''$range'', JList [JVal (1 :: int), JVal 15])])], JDict [(''g'', JDict [(''$text'', JStr ''hello'')])]])])]) =
   Inr (Not_Query (Or_Query [Cmp InRange ''f'' [JVal 1, JVal 15], Cmp Contains ''g'' [JStr ''hello'']]))"
  by (simp add: compile_JDict logical_operator_def plain_classes_def compile_field_def field_operators_def bindr_def)

end
