(* ===== verification/Auto_Reindex.thy ===== *)
theory Auto_Reindex
  imports Db "HOL-Library.List_Lexorder" "HOL-Library.Char_ord"
begin

text \<open>
  From an assignment to an attribute to the catalog: setting an attribute of a stored object
  (Models) queues it (Index_Queue), and before the transaction commits the processor
  reindexes what is queued (Db). The theory shows what that brings up to date, and what it
  does not.
\<close>

section \<open>A queue of reindexings\<close>

text \<open>Only reindexings by finite sets of attributes, as setting attributes makes them.\<close>

definition reindex_queue :: "('o, 'a) entry list \<Rightarrow> bool" where
  "reindex_queue q \<longleftrightarrow> (\<forall>(op, obj, attr) \<in> set q. op = REINDEX \<and> (\<exists>A. attr = Some A \<and> finite A))"

definition pending :: "('o, 'a) entry list \<Rightarrow> ('o \<times> 'a set) set" where
  "pending q = {(obj, A). (REINDEX, obj, Some A) \<in> set q}"

lemma fold_reindex:
  "\<forall>c \<in> set cs. \<exists>A. c = (REINDEX, Some A) \<Longrightarrow>
     fold merge_op cs (Some (REINDEX, Some B)) = Some (REINDEX, Some (B \<union> (\<Union>c \<in> set cs. the (snd c))))"
proof (induction cs arbitrary: B)
  case (Cons c cs)
  then obtain A where c: "c = (REINDEX, Some A)" by auto
  have "merge_op c (Some (REINDEX, Some B)) = Some (REINDEX, Some (B \<union> A))"
    by (simp add: c op_codes merge_attrs_def)
  then show ?case using Cons.IH [of "B \<union> A"] Cons.prems by (simp add: c Un_assoc del: merge_op.simps)
qed simp

lemma fold_reindex_None:
  assumes "\<forall>c \<in> set cs. \<exists>A. c = (REINDEX, Some A)"
  shows "fold merge_op cs None = (if cs = [] then None else Some (REINDEX, Some (\<Union>c \<in> set cs. the (snd c))))"
proof (cases cs)
  case (Cons c cs')
  then obtain A where c: "c = (REINDEX, Some A)" using assms by auto
  have "merge_op c None = Some (REINDEX, Some A)" by (simp add: c op_codes merge_attrs_def)
  then show ?thesis using fold_reindex [of cs' A] assms Cons by (simp add: c del: merge_op.simps)
qed simp

text \<open>The reduced queue is one of the same kind, for the same objects, and covers every entry.\<close>

lemma optimize_reindex_queue:
  assumes q: "reindex_queue q" and inj: "inj (ok_key K)"
  shows "reindex_queue (optimize K q)"
    and "fst ` pending (optimize K q) \<subseteq> fst ` pending q"
    and "(obj, A) \<in> pending q \<Longrightarrow> \<exists>B. (obj, B) \<in> pending (optimize K q) \<and> A \<subseteq> B"
    and "(obj, B) \<in> pending (optimize K q) \<Longrightarrow> x \<in> B \<Longrightarrow> \<exists>A. (obj, A) \<in> pending q \<and> x \<in> A"
proof -
  have ops: "\<forall>c \<in> set (ops_of (ok_key K) (ok_key K obj) q). \<exists>A. c = (REINDEX, Some A) \<and> finite A" for obj
    using q by (fastforce simp: reindex_queue_def ops_of_def)
  have ops': "\<forall>c \<in> set (ops_of (ok_key K) (ok_key K obj) q). \<exists>A. c = (REINDEX, Some A)" for obj
    using ops by blast
  have in_ops: "(REINDEX, Some A) \<in> set (ops_of (ok_key K) (ok_key K obj) q) \<longleftrightarrow> (obj, A) \<in> pending q" for obj A
    by (force simp: ops_of_def pending_def inj_eq [OF inj] image_iff)
  let ?U = "\<lambda>obj. \<Union>c \<in> set (ops_of (ok_key K) (ok_key K obj) q). the (snd c)"
  have at: "(op, obj, attr) \<in> set (optimize K q) \<longleftrightarrow>
      ops_of (ok_key K) (ok_key K obj) q \<noteq> [] \<and> op = REINDEX \<and> attr = Some (?U obj)" for op obj attr
  proof -
    have "(op, obj, attr) \<in> set (optimize K q) \<longleftrightarrow>
        (op, attr) \<in> {(op, attr). \<exists>x. (op, x, attr) \<in> set (optimize K q) \<and> ok_key K x = ok_key K obj}"
      using inj by (auto simp: inj_eq)
    also have "\<dots> \<longleftrightarrow> (op, attr) \<in> set_option (fold merge_op (ops_of (ok_key K) (ok_key K obj) q) None)"
      unfolding optimize_at ..
    also have "\<dots> \<longleftrightarrow> ops_of (ok_key K) (ok_key K obj) q \<noteq> [] \<and> op = REINDEX \<and> attr = Some (?U obj)"
      unfolding fold_reindex_None [OF ops'] by auto
    finally show ?thesis .
  qed
  have fin: "finite (?U obj)" for obj using ops [of obj] by fastforce
  show "reindex_queue (optimize K q)" using at fin by (auto simp: reindex_queue_def)
  have some: "\<exists>A. (obj, A) \<in> pending q" if "ops_of (ok_key K) (ok_key K obj) q \<noteq> []" for obj
    using that ops [of obj] in_ops [of _ obj] by (metis list.set_intros(1) neq_Nil_conv)
  show "fst ` pending (optimize K q) \<subseteq> fst ` pending q"
    using some by (force simp: pending_def [of "optimize K q"] at)
  show "\<exists>B. (obj, B) \<in> pending (optimize K q) \<and> A \<subseteq> B" if "(obj, A) \<in> pending q"
  proof -
    have c: "(REINDEX, Some A) \<in> set (ops_of (ok_key K) (ok_key K obj) q)" using that in_ops by blast
    then have "ops_of (ok_key K) (ok_key K obj) q \<noteq> []" "A \<subseteq> ?U obj" by force+
    then show ?thesis by (auto simp: pending_def at)
  qed
  show "\<exists>A. (obj, A) \<in> pending q \<and> x \<in> A" if B: "(obj, B) \<in> pending (optimize K q)" and x: "x \<in> B"
  proof -
    have "B = ?U obj" using B by (simp add: pending_def at)
    then obtain c where c: "c \<in> set (ops_of (ok_key K) (ok_key K obj) q)" "x \<in> the (snd c)"
      using x by blast
    then obtain A where "c = (REINDEX, Some A)" using ops by blast
    then show ?thesis using c in_ops by auto
  qed
qed

section \<open>Catching up\<close>

text \<open>
  The catalog mirrors the store, up to the indexes of attributes that are pending for an
  object. \<open>old\<close> are the contents the catalog knew.
\<close>

definition caught_up ::
  "('c \<Rightarrow> bool) \<Rightarrow> ('a \<Rightarrow> bool) \<Rightarrow> ('c \<Rightarrow> string \<Rightarrow> int \<Rightarrow> 'v option) \<Rightarrow> (string \<Rightarrow> 'a \<Rightarrow> 'v option) \<Rightarrow> string set
     \<Rightarrow> ('o \<times> string set) set \<Rightarrow> ('o, 'a, 'c) dbm \<Rightarrow> bool" where
  "caught_up I takes view val flds pend s \<longleftrightarrow>
     I (dm_catalog s) \<and> linked s \<and> (\<forall>d obj. stored s d = Some obj \<longrightarrow> takes (dm_state s obj)) \<and>
     (\<forall>n \<in> flds. \<forall>d. case stored s d of
        None \<Rightarrow> view (dm_catalog s) n d = None
      | Some obj \<Rightarrow> view (dm_catalog s) n d = val n (dm_state s obj) \<or> (\<exists>A. (obj, A) \<in> pend \<and> n \<in> A))"

lemma caught_up_synced: "caught_up I takes view val flds {} s \<longleftrightarrow> db_synced I takes view val flds s"
  by (auto simp: caught_up_def db_synced_def mirrors_def split: option.splits)

lemma caught_upD:
  "caught_up I takes view val flds pend s \<Longrightarrow> n \<in> flds \<Longrightarrow>
     (case stored s d of
        None \<Rightarrow> view (dm_catalog s) n d = None
      | Some obj \<Rightarrow> view (dm_catalog s) n d = val n (dm_state s obj) \<or> (\<exists>A. (obj, A) \<in> pend \<and> n \<in> A))"
  by (simp add: caught_up_def)

context object_catalog
begin

abbreviation "behind \<equiv> caught_up I takes view val flds"

text \<open>One queued reindexing brings the object's pending attributes up to date.\<close>

lemma reindex_entry:
  assumes up: "behind (insert (obj, A) pend) s" and obj: "stored s d = Some obj" "mt_instance T obj"
    and listing: "\<And>A. finite A \<Longrightarrow> set (listing A) = A" and "finite A"
  shows "\<exists>c. pr_reindex (auto_reindex_processor T ops listing True) obj (Some A) s = (Inr (), s\<lparr>dm_catalog := c\<rparr>)
    \<and> behind pend (s\<lparr>dm_catalog := c\<rparr>)
    \<and> (\<forall>n \<in> flds - A. \<forall>d. view c n d = view (dm_catalog s) n d)
    \<and> (\<forall>n \<in> flds. \<forall>e. e \<noteq> d \<longrightarrow> view c n e = view (dm_catalog s) n e)"
proof -
  have ic: "I (dm_catalog s)" and link: "linked s" and ok: "takes (dm_state s obj)"
    using up obj(1) by (auto simp: caught_up_def)
  obtain c where c: "reindex_attrs ops d (dm_state s obj) (Attrs (listing A)) (dm_catalog s) = (Inr (), c)" "I c"
    "\<forall>m \<in> flds. view c m = (if m \<in> A then (view (dm_catalog s) m)(d := val m (dm_state s obj)) else view (dm_catalog s) m)"
    using reindex_ok [OF ic ok, of "Attrs (listing A)" d] listing [OF \<open>finite A\<close>] by auto
  have "is_uids (dm_store s) obj = Some (Some d)" using link obj(1) by (simp add: linked_def)
  then have run: "pr_reindex (auto_reindex_processor T ops listing True) obj (Some A) s = (Inr (), s\<lparr>dm_catalog := c\<rparr>)"
    using obj(2) c(1) by (simp add: auto_reindex_processor_def reindex_one_def on_catalog_def)
  have "case stored s e of
        None \<Rightarrow> view c n e = None
      | Some x \<Rightarrow> view c n e = val n (dm_state s x) \<or> (\<exists>A. (x, A) \<in> pend \<and> n \<in> A)" if n: "n \<in> flds" for n e
  proof -
    have old: "case stored s e of
        None \<Rightarrow> view (dm_catalog s) n e = None
      | Some x \<Rightarrow> view (dm_catalog s) n e = val n (dm_state s x) \<or> (\<exists>B. (x, B) \<in> insert (obj, A) pend \<and> n \<in> B)"
      using up n by (simp add: caught_up_def)
    have "e = d" if "stored s e = Some obj" using linked_unique [OF link that obj(1)] .
    then show ?thesis using old c(3) n obj(1) by (cases "stored s e") auto
  qed
  then have "behind pend (s\<lparr>dm_catalog := c\<rparr>)"
    using c(2) up by (simp add: caught_up_def linked_def stored_def cong: option.case_cong)
  then show ?thesis using run c(3) by (intro exI [of _ c]) auto
qed

lemma process_entries:
  assumes "behind (pending q) s" "reindex_queue q" "\<forall>(obj, A) \<in> pending q. obj \<in> ran (stored s) \<and> mt_instance T obj"
    and listing: "\<And>A. finite A \<Longrightarrow> set (listing A) = A"
  shows "\<exists>c. m_each (\<lambda>e. m_each (hand_over e) [auto_reindex_processor T ops listing True]) q s
      = (Inr (), s\<lparr>dm_catalog := c\<rparr>) \<and> behind {} (s\<lparr>dm_catalog := c\<rparr>)
    \<and> (\<forall>n \<in> flds. \<forall>d. (\<forall>obj A. stored s d = Some obj \<and> (obj, A) \<in> pending q \<longrightarrow> n \<notin> A) \<longrightarrow>
         view c n d = view (dm_catalog s) n d)"
  using assms(1-3)
proof (induction q arbitrary: s)
  case Nil
  then show ?case by (intro exI [of _ "dm_catalog s"]) (simp add: m_return_def pending_def)
next
  case (Cons e q)
  obtain obj A where e: "e = (REINDEX, obj, Some A)" "finite A"
    using Cons.prems(2) by (fastforce simp: reindex_queue_def)
  have pend: "pending (e # q) = insert (obj, A) (pending q)" by (auto simp: pending_def e)
  obtain d where d: "stored s d = Some obj" "mt_instance T obj"
    using Cons.prems(3) by (auto simp: pend ran_def)
  obtain c where c: "pr_reindex (auto_reindex_processor T ops listing True) obj (Some A) s = (Inr (), s\<lparr>dm_catalog := c\<rparr>)"
      "behind (pending q) (s\<lparr>dm_catalog := c\<rparr>)"
      "\<forall>n \<in> flds - A. \<forall>d. view c n d = view (dm_catalog s) n d"
      "\<forall>n \<in> flds. \<forall>e. e \<noteq> d \<longrightarrow> view c n e = view (dm_catalog s) n e"
    using reindex_entry [OF _ d listing e(2)] Cons.prems(1) unfolding pend by blast
  have step: "m_each (hand_over e) [auto_reindex_processor T ops listing True] s = (Inr (), s\<lparr>dm_catalog := c\<rparr>)"
    using c(1) by (simp add: e hand_over_def op_codes m_bind_def m_return_def)
  have same: "stored (s\<lparr>dm_catalog := c\<rparr>) = stored s" by (simp add: stored_def)
  obtain c' where c': "m_each (\<lambda>e. m_each (hand_over e) [auto_reindex_processor T ops listing True]) q (s\<lparr>dm_catalog := c\<rparr>)
      = (Inr (), (s\<lparr>dm_catalog := c\<rparr>)\<lparr>dm_catalog := c'\<rparr>)" "behind {} ((s\<lparr>dm_catalog := c\<rparr>)\<lparr>dm_catalog := c'\<rparr>)"
      "\<forall>n \<in> flds. \<forall>d. (\<forall>obj A. stored s d = Some obj \<and> (obj, A) \<in> pending q \<longrightarrow> n \<notin> A) \<longrightarrow> view c' n d = view c n d"
    using Cons.IH [OF c(2)] Cons.prems(2,3) unfolding pend same by (auto simp: reindex_queue_def)
  have each: "m_each (\<lambda>e. m_each (hand_over e) [auto_reindex_processor T ops listing True]) (e # q) s =
      m_each (\<lambda>e. m_each (hand_over e) [auto_reindex_processor T ops listing True]) q (s\<lparr>dm_catalog := c\<rparr>)"
    unfolding m_each.simps(2) [of _ e q] by (rule m_bind_simps(2)) (rule step)
  have "view c' n k = view (dm_catalog s) n k"
    if n: "n \<in> flds" and free: "\<forall>obj' A. stored s k = Some obj' \<and> (obj', A) \<in> pending (e # q) \<longrightarrow> n \<notin> A" for n k
  proof -
    have "view c' n k = view c n k" using c'(3) n free by (auto simp: pend)
    also have "\<dots> = view (dm_catalog s) n k" using c(3,4) n free d(1) by (cases "k = d") (auto simp: pend)
    finally show ?thesis .
  qed
  then show ?case unfolding each using c'(1,2) by (intro exI [of _ c']) simp
qed

text \<open>The whole of the hook that runs before the commit.\<close>

lemma before_commit_catches_up:
  assumes up: "behind (pending (iq_queue q)) (iq_world q)" and rq: "reindex_queue (iq_queue q)" and inj: "inj (ok_key K)"
    and objs: "\<forall>(obj, A) \<in> pending (iq_queue q). obj \<in> ran (stored (iq_world q)) \<and> mt_instance T obj"
    and listing: "\<And>A. finite A \<Longrightarrow> set (listing A) = A"
  shows "\<exists>q' c. before_commit K [auto_reindex_processor T ops listing True] q = (Inr (), q') \<and>
    iq_world q' = (iq_world q)\<lparr>dm_catalog := c\<rparr> \<and> iq_queue q' = [] \<and> synced (iq_world q')
    \<and> (\<forall>n \<in> flds. \<forall>d. (\<forall>obj A. stored (iq_world q) d = Some obj \<and> (obj, A) \<in> pending (iq_queue q) \<longrightarrow> n \<notin> A) \<longrightarrow>
         view c n d = view (dm_catalog (iq_world q)) n d)"
proof -
  let ?work = "optimize K (iq_queue q)" and ?w = "iq_world q" and ?us = "[auto_reindex_processor T ops listing True]"
  note opt = optimize_reindex_queue [OF rq inj]
  have up': "behind (pending ?work) ?w"
    unfolding caught_up_def
  proof (intro conjI ballI allI)
    fix n d assume n: "n \<in> flds"
    show "case stored ?w d of
          None \<Rightarrow> view (dm_catalog ?w) n d = None
        | Some obj \<Rightarrow> view (dm_catalog ?w) n d = val n (dm_state ?w obj) \<or> (\<exists>A. (obj, A) \<in> pending ?work \<and> n \<in> A)"
    proof (cases "stored ?w d")
      case None
      have "case stored ?w d of
          None \<Rightarrow> view (dm_catalog ?w) n d = None
        | Some obj \<Rightarrow> view (dm_catalog ?w) n d = val n (dm_state ?w obj) \<or> (\<exists>A. (obj, A) \<in> pending (iq_queue q) \<and> n \<in> A)"
        by (rule caught_upD [OF up n])
      with None show ?thesis by simp
    next
      case (Some obj)
      then have "view (dm_catalog ?w) n d = val n (dm_state ?w obj) \<or> (\<exists>A. (obj, A) \<in> pending (iq_queue q) \<and> n \<in> A)"
        using caught_upD [OF up n, of d] by simp
      then show ?thesis using opt(3) Some by fastforce
    qed
  qed (use up in \<open>auto simp: caught_up_def\<close>)
  have objs': "\<forall>(obj, A) \<in> pending ?work. obj \<in> ran (stored ?w) \<and> mt_instance T obj"
    using objs opt(2) by fastforce
  obtain c where c: "m_each (\<lambda>e. m_each (hand_over e) ?us) ?work ?w = (Inr (), ?w\<lparr>dm_catalog := c\<rparr>)"
      "behind {} (?w\<lparr>dm_catalog := c\<rparr>)"
      "\<forall>n \<in> flds. \<forall>d. (\<forall>obj A. stored ?w d = Some obj \<and> (obj, A) \<in> pending ?work \<longrightarrow> n \<notin> A) \<longrightarrow>
         view c n d = view (dm_catalog ?w) n d"
    using process_entries [OF up' opt(1) objs' listing] by blast
  have keep: "view c n d = view (dm_catalog ?w) n d"
    if "n \<in> flds" "\<forall>obj A. stored ?w d = Some obj \<and> (obj, A) \<in> pending (iq_queue q) \<longrightarrow> n \<notin> A" for n d
    using c(3) that opt(4) by blast
  have run: "run_processors ?us ?work ?w = (Inr (), ?w\<lparr>dm_catalog := c\<rparr>)"
    using c(1) by (simp add: run_processors_def m_bind_def auto_reindex_processor_def m_return_def)
  have "\<exists>n q'. process K ?us q = (Inr n, q') \<and> iq_world q' = ?w\<lparr>dm_catalog := c\<rparr>"
  proof (cases "?work = []")
    case True
    then have "?w\<lparr>dm_catalog := c\<rparr> = ?w" using c(1) by (simp add: m_return_def)
    then show ?thesis using True by (simp add: process_eq)
  next
    case False
    then show ?thesis using run by (simp add: process_eq Let_def)
  qed
  then obtain n q' where "process K ?us q = (Inr n, q')" "iq_world q' = ?w\<lparr>dm_catalog := c\<rparr>" by blast
  moreover have "synced (?w\<lparr>dm_catalog := c\<rparr>)" using c(2) by (simp only: caught_up_synced)
  ultimately show ?thesis
    using keep
    by (intro exI [of _ "q'\<lparr>iq_queue := [], iq_hook := None\<rparr>"] exI [of _ c])
      (simp add: before_commit_def m_bind_def clear_def m_modify_def)
qed

text \<open>A single object in the queue: its attributes are reindexed under its \<open>_p_uid\<close>, and nothing else is.\<close>

lemma commit_one:
  assumes world: "I (dm_catalog (iq_world q))" "takes (dm_state (iq_world q) obj)"
      "is_uids (dm_store (iq_world q)) obj = Some (Some d)" "mt_instance T obj"
    and queue: "iq_queue q = [(REINDEX, obj, Some A)]" and "finite A"
    and listing: "\<And>A. finite A \<Longrightarrow> set (listing A) = A"
  shows "\<exists>q' c. before_commit K [auto_reindex_processor T ops listing True] q = (Inr (), q') \<and>
    iq_world q' = (iq_world q)\<lparr>dm_catalog := c\<rparr> \<and>
    (\<forall>m \<in> flds. view c m = (if m \<in> A then (view (dm_catalog (iq_world q)) m)(d := val m (dm_state (iq_world q) obj))
       else view (dm_catalog (iq_world q)) m))"
proof -
  let ?w = "iq_world q" and ?P = "auto_reindex_processor T ops listing True"
  obtain c where c: "reindex_attrs ops d (dm_state ?w obj) (Attrs (listing A)) (dm_catalog ?w) = (Inr (), c)"
    "\<forall>m \<in> flds. view c m = (if m \<in> A then (view (dm_catalog ?w) m)(d := val m (dm_state ?w obj)) else view (dm_catalog ?w) m)"
    using reindex_ok [OF world(1,2), of "Attrs (listing A)" d] listing [OF \<open>finite A\<close>] by auto
  have run: "pr_reindex ?P obj (Some A) ?w = (Inr (), ?w\<lparr>dm_catalog := c\<rparr>)"
    using world(3,4) c(1) by (simp add: auto_reindex_processor_def reindex_one_def on_catalog_def)
  have opt: "optimize K (iq_queue q) = [(REINDEX, obj, Some A)]"
    by (simp add: queue optimize_def reduce_queue_def merge_entry_def op_codes merge_attrs_def)
  have "run_processors [?P] [(REINDEX, obj, Some A)] ?w = (Inr (), ?w\<lparr>dm_catalog := c\<rparr>)"
    using run by (simp add: run_processors_def hand_over_def op_codes m_bind_def m_return_def auto_reindex_processor_def)
  then show ?thesis
    using c(2)
    by (intro exI [of _ "q\<lparr>iq_queue := [], iq_hook := None, iq_world := ?w\<lparr>dm_catalog := c\<rparr>\<rparr>"] exI [of _ c])
      (simp add: before_commit_def m_bind_def process_eq opt Let_def clear_def m_modify_def)
qed

end

section \<open>Setting attributes\<close>

text \<open>All indexed fields that are not virtual have a value other than None.\<close>

definition stored_fields :: "('t, 'v) model_class \<Rightarrow> string set" where
  "stored_fields C = set (mc_indexed C) - fst ` set (mc_virtual C)"

definition all_set :: "('t, 'v) model_class \<Rightarrow> 'v obj_dict \<Rightarrow> bool" where
  "all_set C a \<longleftrightarrow> (\<forall>n \<in> stored_fields C. \<exists>v. a n = Some (PyVal v))"

text \<open>What the objects contain after assignments, one after the other.\<close>

definition assign :: "'o \<times> string \<times> 'v pyval \<Rightarrow> ('o \<Rightarrow> 'v obj_dict) \<Rightarrow> 'o \<Rightarrow> 'v obj_dict" where
  "assign = (\<lambda>(obj, name, value) st. st(obj := (st obj)(name \<mapsto> value)))"

definition setattrs ::
  "('t, 'v) model_class \<Rightarrow> bool \<Rightarrow> ('o \<times> string \<times> 'v pyval) list
     \<Rightarrow> ('o, string, ('o, 'v obj_dict, 'c) dbm) index_queue \<Rightarrow> ('o, string, ('o, 'v obj_dict, 'c) dbm) index_queue" where
  "setattrs C can_join changes q = fold (\<lambda>(obj, name, value). db_setattr C can_join obj name value) changes q"

lemma hook_simps [simp]: "iq_queue (hook b q) = iq_queue q" "iq_world (hook b q) = iq_world q"
  by (simp_all add: hook_def tm_register_def split: option.split)

lemma setattr_world [simp]:
  "iq_world (db_setattr C b obj name value q) = (iq_world q)\<lparr>dm_state := assign (obj, name, value) (dm_state (iq_world q))\<rparr>"
  by (auto simp: db_setattr_def model_setattr_def Let_def as_object_def objectAutoReindex_def assign_def fun_eq_iff
      queue_reindex_def enqueue_def)

lemma setattr_queue:
  assumes "is_uids (dm_store (iq_world q)) obj = Some (Some u)"
  shows "iq_queue (db_setattr C b obj name value q) =
    iq_queue q @ (if name \<in> set (mc_indexed C)
        \<and> (\<exists>v. dm_state (iq_world q) obj name = Some (PyVal v)
          \<or> dm_state (iq_world q) obj name = None \<and> mc_attr C name = Some A_Other)
      then [(REINDEX, obj, Some {name})] else [])"
  using assms
  by (auto simp: db_setattr_def model_setattr_def Let_def as_object_def objectAutoReindex_def queue_reindex_def
      enqueue_def notifies_def get_attribute_def not_PyNone split: option.splits found.splits class_attr.splits)

lemma setattr_queue_set:
  assumes "is_uids (dm_store (iq_world q)) obj = Some (Some u)" "all_set C (dm_state (iq_world q) obj)"
    "name \<in> stored_fields C"
  shows "iq_queue (db_setattr C b obj name value q) = iq_queue q @ [(REINDEX, obj, Some {name})]"
proof -
  have "\<exists>v. dm_state (iq_world q) obj name = Some (PyVal v)" using assms(2,3) by (simp add: all_set_def)
  moreover have "name \<in> set (mc_indexed C)" using assms(3) by (simp add: stored_fields_def)
  ultimately show ?thesis by (simp add: setattr_queue [OF assms(1)])
qed

text \<open>An assignment to a stored object leaves at most the assigned attribute to reindex.\<close>

lemma setattr_behind:
  assumes cat: "object_catalog ops I (all_set C) view val (set (mc_indexed C))"
    and attr_only: "\<And>n a b. n \<in> set (mc_indexed C) \<Longrightarrow> a n = b n \<Longrightarrow> val n a = val n b"
    and up: "caught_up I (all_set C) view val (set (mc_indexed C)) (pending (iq_queue q)) (iq_world q)"
    and rq: "reindex_queue (iq_queue q)" and obj: "obj \<in> ran (stored (iq_world q))"
    and some: "name \<in> set (mc_indexed C) \<Longrightarrow> name \<in> stored_fields C \<and> value \<noteq> PyNone"
  shows "caught_up I (all_set C) view val (set (mc_indexed C))
      (pending (iq_queue (db_setattr C b obj name value q))) (iq_world (db_setattr C b obj name value q))"
    and "reindex_queue (iq_queue (db_setattr C b obj name value q))"
    and "fst ` pending (iq_queue (db_setattr C b obj name value q)) \<subseteq> insert obj (fst ` pending (iq_queue q))"
proof -
  let ?w = "iq_world q" and ?q = "db_setattr C b obj name value q" and ?F = "set (mc_indexed C)"
  obtain d where d: "stored ?w d = Some obj" using obj by (auto simp: ran_def)
  have link: "linked ?w" and ok: "all_set C (dm_state ?w obj)" using up d by (auto simp: caught_up_def)
  then have uid: "is_uids (dm_store ?w) obj = Some (Some d)" using d by (simp add: linked_def)
  have queue: "iq_queue ?q = iq_queue q @ (if name \<in> ?F then [(REINDEX, obj, Some {name})] else [])"
    using setattr_queue [OF uid, of C b name "value"] setattr_queue_set [OF uid ok, of name b "value"] some by auto
  then have pend: "pending (iq_queue ?q) = pending (iq_queue q) \<union> (if name \<in> ?F then {(obj, {name})} else {})"
    by (auto simp: pending_def)
  show "reindex_queue (iq_queue ?q)" using rq by (auto simp: queue reindex_queue_def)
  show "fst ` pending (iq_queue ?q) \<subseteq> insert obj (fst ` pending (iq_queue q))" by (auto simp: pend)
  let ?st = "assign (obj, name, value) (dm_state ?w)"
  have st: "?st x = (if x = obj then (dm_state ?w obj)(name \<mapsto> value) else dm_state ?w x)" for x
    by (simp add: assign_def)
  have takes: "all_set C (?st x)" if "stored ?w e = Some x" for e x
  proof -
    have "all_set C (dm_state ?w x)" using up that by (simp add: caught_up_def)
    then show ?thesis using some by (auto simp: st all_set_def not_PyNone stored_fields_def)
  qed
  have views: "case stored ?w e of
        None \<Rightarrow> view (dm_catalog ?w) n e = None
      | Some x \<Rightarrow> view (dm_catalog ?w) n e = val n (?st x) \<or> (\<exists>A. (x, A) \<in> pending (iq_queue ?q) \<and> n \<in> A)"
    if n: "n \<in> ?F" for n e
  proof (cases "stored ?w e")
    case None
    then show ?thesis using caught_upD [OF up n, of e] by simp
  next
    case (Some x)
    have old: "view (dm_catalog ?w) n e = val n (dm_state ?w x) \<or> (\<exists>A. (x, A) \<in> pending (iq_queue q) \<and> n \<in> A)"
      using caught_upD [OF up n, of e] Some by simp
    show ?thesis
    proof (cases "x = obj \<and> n = name")
      case True
      then show ?thesis using Some n by (auto simp: pend)
    next
      case False
      then have "dm_state ?w x n = ?st x n" by (auto simp: st)
      then have "val n (dm_state ?w x) = val n (?st x)" by (rule attr_only [OF n])
      with old have "view (dm_catalog ?w) n e = val n (?st x) \<or> (\<exists>A. (x, A) \<in> pending (iq_queue ?q) \<and> n \<in> A)"
        unfolding pend by auto
      with Some show ?thesis by simp
    qed
  qed
  show "caught_up I (all_set C) view val ?F (pending (iq_queue ?q)) (iq_world ?q)"
    unfolding caught_up_def
  proof (intro conjI ballI allI impI)
    show "I (dm_catalog (iq_world ?q))" using up by (simp add: caught_up_def)
    show "linked (iq_world ?q)" using link by (simp add: linked_def stored_def)
  next
    fix e x assume "stored (iq_world ?q) e = Some x"
    then show "all_set C (dm_state (iq_world ?q) x)" using takes by (simp add: stored_def)
  next
    fix n e assume "n \<in> ?F"
    from views [OF this, of e]
    show "case stored (iq_world ?q) e of
        None \<Rightarrow> view (dm_catalog (iq_world ?q)) n e = None
      | Some x \<Rightarrow> view (dm_catalog (iq_world ?q)) n e = val n (dm_state (iq_world ?q) x)
          \<or> (\<exists>A. (x, A) \<in> pending (iq_queue ?q) \<and> n \<in> A)"
      by (simp add: stored_def cong: option.case_cong)
  qed
qed

lemma setattrs_behind:
  assumes cat: "object_catalog ops I (all_set C) view val (set (mc_indexed C))"
    and attr_only: "\<And>n a b. n \<in> set (mc_indexed C) \<Longrightarrow> a n = b n \<Longrightarrow> val n a = val n b"
  shows "caught_up I (all_set C) view val (set (mc_indexed C)) (pending (iq_queue q)) (iq_world q) \<Longrightarrow>
    reindex_queue (iq_queue q) \<Longrightarrow>
    \<forall>(obj, name, value) \<in> set changes. obj \<in> ran (stored (iq_world q)) \<and> (name \<in> set (mc_indexed C) \<longrightarrow> name \<in> stored_fields C \<and> value \<noteq> PyNone) \<Longrightarrow>
    fst ` pending (iq_queue q) \<subseteq> ran (stored (iq_world q)) \<Longrightarrow>
    caught_up I (all_set C) view val (set (mc_indexed C))
      (pending (iq_queue (setattrs C b changes q))) (iq_world (setattrs C b changes q)) \<and>
    reindex_queue (iq_queue (setattrs C b changes q)) \<and>
    fst ` pending (iq_queue (setattrs C b changes q)) \<subseteq> ran (stored (iq_world q)) \<and>
    iq_world (setattrs C b changes q) = (iq_world q)\<lparr>dm_state := fold assign changes (dm_state (iq_world q))\<rparr>"
proof (induction changes arbitrary: q)
  case (Cons ch changes)
  obtain obj name v where ch: "ch = (obj, name, v)" by (metis prod_cases3)
  let ?q = "db_setattr C b obj name v q"
  have obj: "obj \<in> ran (stored (iq_world q))" "name \<in> set (mc_indexed C) \<Longrightarrow> name \<in> stored_fields C \<and> v \<noteq> PyNone"
    using Cons.prems(3) by (auto simp: ch)
  note step = setattr_behind [OF cat attr_only Cons.prems(1,2) obj, where b = b]
  have same: "stored (iq_world ?q) = stored (iq_world q)" by (simp add: stored_def)
  have "fst ` pending (iq_queue ?q) \<subseteq> ran (stored (iq_world ?q))"
    using step(3) Cons.prems(4) obj(1) unfolding same by blast
  moreover have "\<forall>(obj, name, value) \<in> set changes. obj \<in> ran (stored (iq_world ?q))
      \<and> (name \<in> set (mc_indexed C) \<longrightarrow> name \<in> stored_fields C \<and> value \<noteq> PyNone)"
    using Cons.prems(3) unfolding same by simp
  ultimately have IH: "caught_up I (all_set C) view val (set (mc_indexed C))
      (pending (iq_queue (setattrs C b changes ?q))) (iq_world (setattrs C b changes ?q)) \<and>
    reindex_queue (iq_queue (setattrs C b changes ?q)) \<and>
    fst ` pending (iq_queue (setattrs C b changes ?q)) \<subseteq> ran (stored (iq_world ?q)) \<and>
    iq_world (setattrs C b changes ?q) = (iq_world ?q)\<lparr>dm_state := fold assign changes (dm_state (iq_world ?q))\<rparr>"
    by (intro Cons.IH step(1,2))
  have eq: "setattrs C b (ch # changes) q = setattrs C b changes ?q" by (simp add: setattrs_def ch)
  have world: "(iq_world ?q)\<lparr>dm_state := fold assign changes (dm_state (iq_world ?q))\<rparr> =
      (iq_world q)\<lparr>dm_state := fold assign (ch # changes) (dm_state (iq_world q))\<rparr>"
    by (simp add: ch)
  show ?case using IH unfolding eq same world by (elim conjE, intro conjI)
qed (simp add: setattrs_def)

section \<open>Properties\<close>

text \<open>
  C11: A transaction that assigns to attributes of stored objects, as many and in whatever
  order, and commits, leaves the catalog in step with the objects: before the commit every
  change is queued, the queue is reduced, and the processor reindexes each object by the
  attributes changed. The indexes are those of attributes (no virtual fields), and indexed
  attributes are neither None before nor set to None.
\<close>

theorem commit_reindexes_changes:
  assumes cat: "object_catalog ops I (all_set C) view val (set (mc_indexed C))"
    and attr_only: "\<And>n a b. n \<in> set (mc_indexed C) \<Longrightarrow> a n = b n \<Longrightarrow> val n a = val n b"
    and sync: "db_synced I (all_set C) view val (set (mc_indexed C)) (iq_world q)" and empty: "iq_queue q = []"
    and inj: "inj (ok_key K)" and listing: "\<And>A. finite A \<Longrightarrow> set (listing A) = A"
    and inst: "\<forall>obj \<in> ran (is_tree (dm_store (iq_world q))). mt_instance T obj"
    and changes: "\<forall>(obj, name, value) \<in> set changes. obj \<in> ran (is_tree (dm_store (iq_world q)))
      \<and> (name \<in> set (mc_indexed C) \<longrightarrow> name \<in> stored_fields C \<and> value \<noteq> PyNone)"
  shows "\<exists>q'. before_commit K [auto_reindex_processor T ops listing True] (setattrs C can_join changes q) = (Inr (), q') \<and>
    iq_queue q' = [] \<and> dm_store (iq_world q') = dm_store (iq_world q) \<and>
    dm_state (iq_world q') = fold assign changes (dm_state (iq_world q)) \<and>
    (\<forall>n \<in> set (mc_indexed C). \<forall>d. view (dm_catalog (iq_world q')) n d =
       (case is_tree (dm_store (iq_world q)) d of
          None \<Rightarrow> None | Some obj \<Rightarrow> val n (fold assign changes (dm_state (iq_world q)) obj)))"
proof -
  have ran: "ran (is_tree (dm_store (iq_world q))) = ran (stored (iq_world q))" by (simp add: stored_def)
  have start: "caught_up I (all_set C) view val (set (mc_indexed C)) (pending (iq_queue q)) (iq_world q)"
    "reindex_queue (iq_queue q)" "fst ` pending (iq_queue q) \<subseteq> ran (stored (iq_world q))"
    using sync by (simp_all add: caught_up_synced empty pending_def reindex_queue_def)
  let ?q = "setattrs C can_join changes q"
  from setattrs_behind [OF cat attr_only start(1,2) changes [unfolded ran] start(3), of can_join]
  have mid: "caught_up I (all_set C) view val (set (mc_indexed C)) (pending (iq_queue ?q)) (iq_world ?q)"
    "reindex_queue (iq_queue ?q)" "fst ` pending (iq_queue ?q) \<subseteq> ran (stored (iq_world q))"
    "iq_world ?q = (iq_world q)\<lparr>dm_state := fold assign changes (dm_state (iq_world q))\<rparr>"
    by blast+
  have "\<forall>(obj, A) \<in> pending (iq_queue ?q). obj \<in> ran (stored (iq_world ?q)) \<and> mt_instance T obj"
    using mid(3) inst [unfolded ran] unfolding mid(4) by (fastforce simp: stored_def)
  from object_catalog.before_commit_catches_up [OF cat mid(1,2) inj this listing] obtain q' c where
    q': "before_commit K [auto_reindex_processor T ops listing True] ?q = (Inr (), q')"
      "iq_world q' = (iq_world ?q)\<lparr>dm_catalog := c\<rparr>" "iq_queue q' = []"
      "db_synced I (all_set C) view val (set (mc_indexed C)) (iq_world q')"
    by blast
  have "dm_store (iq_world q') = dm_store (iq_world q)"
    "dm_state (iq_world q') = fold assign changes (dm_state (iq_world q))"
    using q'(2) mid(4) by simp_all
  with q'(1,3,4) show ?thesis
    by (auto simp: db_synced_def mirrors_def stored_def cong: option.case_cong)
qed

text \<open>
  A virtual field falls behind: assigning to an attribute reindexes the index of that
  attribute only, so that after the commit an index of another field, which is computed
  from the attribute, still has the value computed from the contents before.
\<close>

theorem virtual_index_stale:
  assumes cat: "object_catalog ops I (all_set C) view val (set (mc_indexed C))"
    and sync: "db_synced I (all_set C) view val (set (mc_indexed C)) (iq_world q)" and empty: "iq_queue q = []"
    and listing: "\<And>A. finite A \<Longrightarrow> set (listing A) = A"
    and obj: "is_tree (dm_store (iq_world q)) d = Some obj" "mt_instance T obj"
    and name: "name \<in> stored_fields C" "n \<in> set (mc_indexed C)" "n \<noteq> name"
  shows "\<exists>q'. before_commit K [auto_reindex_processor T ops listing True]
      (db_setattr C can_join obj name (PyVal v) q) = (Inr (), q') \<and>
    dm_state (iq_world q') obj = (dm_state (iq_world q) obj)(name \<mapsto> PyVal v) \<and>
    view (dm_catalog (iq_world q')) name d = val name ((dm_state (iq_world q) obj)(name \<mapsto> PyVal v)) \<and>
    view (dm_catalog (iq_world q')) n d = val n (dm_state (iq_world q) obj)"
proof -
  let ?w = "iq_world q" and ?q = "db_setattr C can_join obj name (PyVal v) q"
  have uid: "is_uids (dm_store ?w) obj = Some (Some d)" and ok: "all_set C (dm_state ?w obj)"
    and old: "view (dm_catalog ?w) n d = val n (dm_state ?w obj)"
    using sync obj(1) name(2) by (auto simp: db_synced_def linked_def stored_def mirrors_def)
  have "iq_queue ?q = [(REINDEX, obj, Some {name})]"
    using setattr_queue_set [OF uid ok name(1)] empty by simp
  moreover have "all_set C (dm_state (iq_world ?q) obj)" using ok by (auto simp: all_set_def assign_def)
  moreover have "I (dm_catalog (iq_world ?q))" "is_uids (dm_store (iq_world ?q)) obj = Some (Some d)"
    using sync uid by (simp_all add: db_synced_def)
  ultimately obtain q' c where "before_commit K [auto_reindex_processor T ops listing True] ?q = (Inr (), q')"
    "iq_world q' = (iq_world ?q)\<lparr>dm_catalog := c\<rparr>"
    "\<forall>m \<in> set (mc_indexed C). view c m = (if m \<in> {name}
        then (view (dm_catalog (iq_world ?q)) m)(d := val m (dm_state (iq_world ?q) obj))
        else view (dm_catalog (iq_world ?q)) m)"
    using object_catalog.commit_one [OF cat _ _ _ obj(2) _ _ listing] by blast
  then show ?thesis using name old by (simp add: assign_def stored_fields_def)
qed

text \<open>
  C26: An object that is changed and then removed in one transaction comes back to the
  catalog: removing it clears its entries, but it keeps its id and stays in the queue, and
  the commit indexes it again, although the store no longer has it. Loading what a query
  then finds raises.
\<close>

theorem removed_change_dangles:
  assumes cat: "object_catalog ops I (all_set C) view val (set (mc_indexed C))"
    and sync: "db_synced I (all_set C) view val (set (mc_indexed C)) (iq_world q)" and empty: "iq_queue q = []"
    and listing: "\<And>A. finite A \<Longrightarrow> set (listing A) = A"
    and obj: "is_tree (dm_store (iq_world q)) d = Some obj" "mt_instance T obj" "mt_exact T obj"
    and name: "name \<in> stored_fields C"
    and rm: "db_remove T ops (Rm_Obj obj) (iq_world (db_setattr C can_join obj name (PyVal v) q)) = (r, s2)"
  shows "r = Inr 1 \<and> view (dm_catalog s2) name d = None \<and>
    (\<exists>q'. before_commit K [auto_reindex_processor T ops listing True]
        ((db_setattr C can_join obj name (PyVal v) q)\<lparr>iq_world := s2\<rparr>) = (Inr (), q') \<and>
      view (dm_catalog (iq_world q')) name d = val name ((dm_state (iq_world q) obj)(name \<mapsto> PyVal v)) \<and>
      fst (db_getitem d (iq_world q')) = Inl KeyError)"
proof -
  let ?w = "iq_world q" and ?q = "db_setattr C can_join obj name (PyVal v) q"
  have uid: "is_uids (dm_store ?w) obj = Some (Some d)" and ok: "all_set C (dm_state ?w obj)"
    and inv: "I (dm_catalog (iq_world ?q))" "store_inv (dm_store (iq_world ?q))"
    using sync obj(1) by (auto simp: db_synced_def linked_def stored_def)
  have "remove_uid ops d (iq_world ?q) = (r, s2)" using rm obj(3) uid by simp
  note e = object_catalog.remove_uid_effect [OF cat inv this]
  have tree: "is_tree (dm_store s2) d = None" using e by (simp add: stored_def fun_eq_iff)
  let ?q2 = "?q\<lparr>iq_world := s2\<rparr>"
  have "iq_queue ?q2 = [(REINDEX, obj, Some {name})]"
    using setattr_queue_set [OF uid ok name] empty by simp
  moreover have "all_set C (dm_state (iq_world ?q2) obj)" using ok e by (auto simp: all_set_def assign_def)
  moreover have "I (dm_catalog (iq_world ?q2))" "is_uids (dm_store (iq_world ?q2)) obj = Some (Some d)"
    using e uid by simp_all
  ultimately obtain q' c where "before_commit K [auto_reindex_processor T ops listing True] ?q2 = (Inr (), q')"
    "iq_world q' = (iq_world ?q2)\<lparr>dm_catalog := c\<rparr>"
    "\<forall>m \<in> set (mc_indexed C). view c m = (if m \<in> {name}
        then (view (dm_catalog (iq_world ?q2)) m)(d := val m (dm_state (iq_world ?q2) obj))
        else view (dm_catalog (iq_world ?q2)) m)"
    using object_catalog.commit_one [OF cat _ _ _ obj(2) _ _ listing] by blast
  moreover have "r = Inr 1" using e obj(1) by (auto simp: stored_def)
  ultimately show ?thesis
    using e name tree by (simp add: db_getitem_def store_getitem_def assign_def stored_fields_def)
qed

section \<open>Witnesses\<close>

lemma object_catalog_takes:
  assumes "object_catalog ops I takes view val flds" "\<And>a. takes' a \<Longrightarrow> takes a"
  shows "object_catalog ops I takes' view val flds"
  using object_catalog.has [OF assms(1)] object_catalog.index_doc [OF assms(1) _ assms(2)]
    object_catalog.reindex_doc [OF assms(1) _ assms(2)] object_catalog.unindex_doc [OF assms(1)]
    object_catalog.reindex_attr [OF assms(1) _ assms(2)]
  by unfold_locales blast+

text \<open>
  A class with a number and, with \<open>b\<close>, its double as a virtual field, both indexed; a
  database with one object.
\<close>

definition Counter :: "bool \<Rightarrow> (nat, int) model_class" where
  "Counter b =
     \<lparr>mc_name = ''counter'', mc_indexed = ''num'' # (if b then [''twice''] else []), mc_default = [''num''],
      mc_virtual = (if b then [(''twice'', \<lambda>d. case d ''num'' of
        Some (PyVal n) \<Rightarrow> Inr (PyVal (2 * n)) | _ \<Rightarrow> Inl AttributeError)] else []),
      mc_required = [], mc_attr = Map.empty\<rparr>"

definition counter_indexes :: "bool \<Rightarrow> (string \<times> discriminator) list" where
  "counter_indexes b = (''num'', Attribute ''num'') # (if b then [(''twice'', Virtual ''twice'')] else [])"

text \<open>The indexes' view of an object, by its contents.\<close>

definition dict_view :: "('t, 'v) model_class \<Rightarrow> ('v obj_dict, ('t, 'v) found) object_model" where
  "dict_view C =
     \<lparr>om_getattr = (\<lambda>a. om_getattr (class_view C) \<lparr>ob_dict = a, ob_uid = None\<rparr>),
      om_virtuals = (\<lambda>a n. map_option (\<lambda>f a. f \<lparr>ob_dict = a, ob_uid = None\<rparr>)
        (om_virtuals (class_view C) \<lparr>ob_dict = a, ob_uid = None\<rparr> n))\<rparr>"

abbreviation "counter_ops b \<equiv> field_catalog_ops (dict_view (Counter b)) (counter_indexes b)"
abbreviation "counter_val b \<equiv> field_val (dict_view (Counter b)) (counter_indexes b)"

lemma counter_clear: "AList.clearjunk (counter_indexes b) = counter_indexes b"
  by (simp add: counter_indexes_def)

lemma counter_names: "fst ` set (counter_indexes b) = set (mc_indexed (Counter b))"
  by (cases b) (simp_all add: counter_indexes_def Counter_def)

lemma counter_takes: "field_takes (dict_view (Counter b)) (counter_indexes b) a"
  by (auto simp: field_takes_def counter_indexes_def discriminate_def dict_view_def class_view_def bindr_def
      split: option.splits found.splits sum.splits if_splits)

lemma counter_catalog:
  "object_catalog (counter_ops b) field_catalog_inv (all_set (Counter b)) field_view (counter_val b)
     (set (mc_indexed (Counter b)))"
  using object_catalog_takes [OF field_catalog.object_catalog_axioms
      [of "dict_view (Counter b)" "counter_indexes b", unfolded counter_clear counter_names] counter_takes] .

definition counter_types :: "nat model_types" where
  "counter_types = \<lparr>mt_exact = (\<lambda>_. True), mt_instance = (\<lambda>_. True)\<rparr>"

definition no_counters :: "(nat, int obj_dict, (nat, int) found field_catalog) dbm" where
  "no_counters = \<lparr>dm_store = new_id_store (\<lambda>_. None), dm_catalog = (\<lambda>_. new_field_index),
     dm_state = (\<lambda>_. [''num'' \<mapsto> PyVal 1]), dm_draws = [5]\<rparr>"

definition a_counter :: "bool \<Rightarrow> (nat, string, (nat, int obj_dict, (nat, int) found field_catalog) dbm) index_queue" where
  "a_counter b = new_queue (snd (the (db_add counter_types (counter_ops b) 0 no_counters)))"

lemma no_counters_synced:
  "db_synced field_catalog_inv (all_set (Counter b)) field_view (counter_val b) (set (mc_indexed (Counter b))) no_counters"
proof -
  have "fi_rev (new_field_index :: (nat, int) found field_index) = Map.empty" by (simp add: new_field_index_def)
  then show ?thesis
    using new_field_index_inv
    by (auto simp: db_synced_def linked_def mirrors_def no_counters_def field_catalog_inv_def
        store_inv_def draws_ok_def maxint_def stored_def new_id_store_def field_view_def)
qed

lemma no_counters_set: "all_set (Counter b) (dm_state no_counters x)"
  by (cases b) (auto simp: all_set_def stored_fields_def Counter_def no_counters_def)

lemma a_counter_add:
  "db_add counter_types (counter_ops b) 0 no_counters = Some (Inr 5, iq_world (a_counter b))"
proof -
  have "db_add counter_types (counter_ops b) 0 no_counters \<noteq> None"
    by (simp add: db_add_def counter_types_def no_counters_def store_add_def new_id_store_def
        ensure_length_def btree_insert_def)
  then obtain r s where rs: "db_add counter_types (counter_ops b) 0 no_counters = Some (r, s)" by auto
  have new: "(0 :: nat) \<notin> ran (stored no_counters)" "mt_exact counter_types 0"
    by (simp_all add: stored_def no_counters_def new_id_store_def counter_types_def)
  from object_catalog.add_synced [OF counter_catalog no_counters_synced new(1) no_counters_set new(2) rs]
  obtain uid where u: "r = Inr uid" "stored s = (stored no_counters)(uid \<mapsto> 0)" by auto
  have "is_tree (dm_store s) 5 = Some 0"
    using rs by (auto simp: db_add_def counter_types_def no_counters_def store_add_def new_id_store_def
        ensure_length_def btree_insert_def change_length_def on_catalog_def m_bind_def m_modify_def m_return_def
        split: prod.splits sum.splits)
  then have "uid = 5"
    using u(2) by (simp add: stored_def no_counters_def new_id_store_def split: if_splits)
  then show ?thesis using rs u(1) by (simp add: a_counter_def new_queue_def)
qed

lemma a_counter_ok:
  "db_synced field_catalog_inv (all_set (Counter b)) field_view (counter_val b) (set (mc_indexed (Counter b)))
     (iq_world (a_counter b))"
  "is_tree (dm_store (iq_world (a_counter b))) = [5 \<mapsto> 0]"
  "dm_state (iq_world (a_counter b)) 0 = [''num'' \<mapsto> PyVal 1]" "iq_queue (a_counter b) = []"
proof -
  have new: "(0 :: nat) \<notin> ran (stored no_counters)" "mt_exact counter_types 0"
    by (simp_all add: stored_def no_counters_def new_id_store_def counter_types_def)
  note a = object_catalog.add_synced [OF counter_catalog no_counters_synced new(1) no_counters_set new(2) a_counter_add]
  show "db_synced field_catalog_inv (all_set (Counter b)) field_view (counter_val b) (set (mc_indexed (Counter b)))
      (iq_world (a_counter b))"
    "is_tree (dm_store (iq_world (a_counter b))) = [5 \<mapsto> 0]"
    "dm_state (iq_world (a_counter b)) 0 = [''num'' \<mapsto> PyVal 1]"
    using a by (auto simp: stored_def no_counters_def new_id_store_def)
  show "iq_queue (a_counter b) = []" by (simp add: a_counter_def new_queue_def)
qed

lemma counter_values:
  "counter_val b ''num'' a = (case a ''num'' of None \<Rightarrow> None | Some v \<Rightarrow> Some (In_Object v))"
  "counter_val True ''twice'' a =
     (case a ''num'' of Some (PyVal n) \<Rightarrow> Some (In_Object (PyVal (2 * n))) | _ \<Rightarrow> None)"
  by (auto simp: field_val_def counter_indexes_def discriminate_def dict_view_def class_view_def get_attribute_def
      Counter_def bindr_def split: option.splits pyval.splits)

lemma counter_num: "''num'' \<in> set (mc_indexed (Counter b))"
  by (simp add: Counter_def)

definition a_listing :: "string set \<Rightarrow> string list" where
  "a_listing A = sorted_list_of_set A"

lemma a_listing: "finite A \<Longrightarrow> set (a_listing A) = A"
  by (simp add: a_listing_def)

definition int_keys :: "(nat, nat) object_keys" where
  "int_keys = \<lparr>ok_key = id, ok_rank = int\<rparr>"

lemma commit_reindexes_changes_witness:
  "\<exists>q'. before_commit int_keys [auto_reindex_processor counter_types (counter_ops False) a_listing True]
      (setattrs (Counter False) True [(0, ''num'', PyVal 4), (0, ''num'', PyVal 9)] (a_counter False)) = (Inr (), q') \<and>
    field_view (dm_catalog (iq_world q')) ''num'' 5 = Some (In_Object (PyVal 9))"
proof -
  have attr: "n \<in> set (mc_indexed (Counter False)) \<Longrightarrow> a n = b n \<Longrightarrow> counter_val False n a = counter_val False n b"
    for n and a b :: "int obj_dict"
  proof -
    assume n: "n \<in> set (mc_indexed (Counter False))" and eq: "a n = b n"
    have "n = ''num''" using n by (simp add: Counter_def)
    then show ?thesis using eq by (simp add: counter_values(1))
  qed
  have "inj (ok_key int_keys)" by (simp add: int_keys_def)
  moreover have "\<forall>obj \<in> ran (is_tree (dm_store (iq_world (a_counter False)))). mt_instance counter_types obj"
    by (simp add: counter_types_def)
  moreover have "\<forall>(obj, name, value) \<in> set [(0, ''num'', PyVal 4), (0, ''num'', PyVal (9 :: int))].
      obj \<in> ran (is_tree (dm_store (iq_world (a_counter False)))) \<and>
      (name \<in> set (mc_indexed (Counter False)) \<longrightarrow> name \<in> stored_fields (Counter False) \<and> value \<noteq> PyNone)"
    by (simp add: a_counter_ok(2) stored_fields_def Counter_def)
  ultimately obtain q' where q':
    "before_commit int_keys [auto_reindex_processor counter_types (counter_ops False) a_listing True]
      (setattrs (Counter False) True [(0, ''num'', PyVal 4), (0, ''num'', PyVal 9)] (a_counter False)) = (Inr (), q')"
    "\<forall>n \<in> set (mc_indexed (Counter False)). \<forall>d. field_view (dm_catalog (iq_world q')) n d =
       (case is_tree (dm_store (iq_world (a_counter False))) d of None \<Rightarrow> None
        | Some obj \<Rightarrow> counter_val False n (fold assign [(0, ''num'', PyVal 4), (0, ''num'', PyVal 9)]
            (dm_state (iq_world (a_counter False))) obj))"
    using commit_reindexes_changes [where K = int_keys and listing = a_listing and can_join = True,
        OF counter_catalog attr a_counter_ok(1,4) _ a_listing] by blast
  then show ?thesis
    using counter_num [of False] by (simp add: a_counter_ok(2) counter_values(1) assign_def)
qed

lemma virtual_index_stale_witness:
  "\<exists>q'. before_commit int_keys [auto_reindex_processor counter_types (counter_ops True) a_listing True]
      (db_setattr (Counter True) True 0 ''num'' (PyVal 4) (a_counter True)) = (Inr (), q') \<and>
    field_view (dm_catalog (iq_world q')) ''num'' 5 = Some (In_Object (PyVal 4)) \<and>
    field_view (dm_catalog (iq_world q')) ''twice'' 5 = Some (In_Object (PyVal 2))"
proof -
  have p: "is_tree (dm_store (iq_world (a_counter True))) 5 = Some 0" "mt_instance counter_types 0"
    "''num'' \<in> stored_fields (Counter True)" "''twice'' \<in> set (mc_indexed (Counter True))" "''twice'' \<noteq> ''num''"
    by (simp_all add: a_counter_ok(2) counter_types_def stored_fields_def Counter_def)
  from virtual_index_stale [where K = int_keys and can_join = True and v = 4,
      OF counter_catalog a_counter_ok(1,4) a_listing p]
  show ?thesis by (auto simp: a_counter_ok(3) counter_values)
qed

lemma removed_change_dangles_witness:
  "\<exists>r s2 q'. db_remove counter_types (counter_ops False) (Rm_Obj 0)
      (iq_world (db_setattr (Counter False) True 0 ''num'' (PyVal 4) (a_counter False))) = (r, s2) \<and> r = Inr 1 \<and>
    before_commit int_keys [auto_reindex_processor counter_types (counter_ops False) a_listing True]
      ((db_setattr (Counter False) True 0 ''num'' (PyVal 4) (a_counter False))\<lparr>iq_world := s2\<rparr>) = (Inr (), q') \<and>
    field_view (dm_catalog (iq_world q')) ''num'' 5 = Some (In_Object (PyVal 4)) \<and>
    fst (db_getitem 5 (iq_world q')) = Inl KeyError"
proof -
  have p: "is_tree (dm_store (iq_world (a_counter False))) 5 = Some 0" "mt_instance counter_types 0"
    "mt_exact counter_types 0" "''num'' \<in> stored_fields (Counter False)"
    by (simp_all add: a_counter_ok(2) counter_types_def stored_fields_def Counter_def)
  obtain r s2 where rm: "db_remove counter_types (counter_ops False) (Rm_Obj 0)
      (iq_world (db_setattr (Counter False) True 0 ''num'' (PyVal 4) (a_counter False))) = (r, s2)"
    by fastforce
  from removed_change_dangles [where K = int_keys, OF counter_catalog a_counter_ok(1,4) a_listing p rm]
  show ?thesis using rm by (fastforce simp: a_counter_ok(3) counter_values)
qed

end
