(* ===== verification/Tree_Fetch.thy ===== *)
theory Tree_Fetch
  imports Prelude
begin

text \<open>
  zerodb/storage/__init__.py: reading trees ahead of their use. Each call of \<open>prefetch\<close> is one
  exchange with the server, for a batch of nodes; \<open>prefetch_trees\<close> loads trees level by
  level, and \<open>parallel_traversal\<close> loads the paths of many keys at once, finding the way by a
  binary search in a node's raw state. The model of a function is the list of the batches
  that it fetches.
\<close>

section \<open>Nodes\<close>

text \<open>
  A node, with its oid when it is stored: a bucket of entries, or a tree that is empty, or
  keeps its only bucket's state inline, or has subtrees with keys between them.
\<close>

datatype ('k, 'v) node =
    Bucket "int option" "('k \<times> 'v) list"
  | Empty_Tree "int option"
  | Inline_Tree "int option" "('k \<times> 'v) list"
  | Tree "int option" "('k, 'v) node list" "'k list"

fun node_oid :: "('k, 'v) node \<Rightarrow> int option" where
  "node_oid (Bucket oid es) = oid"
| "node_oid (Empty_Tree oid) = oid"
| "node_oid (Inline_Tree oid es) = oid"
| "node_oid (Tree oid ts ks) = oid"

text \<open>Buckets have no \<open>_bucket_type\<close>.\<close>

fun is_bucket :: "('k, 'v) node \<Rightarrow> bool" where
  "is_bucket (Bucket oid es) = True"
| "is_bucket _ = False"

text \<open>An item of the first component of a tree's state.\<close>

datatype ('k, 'v) item = Branch "('k, 'v) node" | Separator 'k | Bucket_State "('k \<times> 'v) list"

fun interleave :: "('k, 'v) node list \<Rightarrow> 'k list \<Rightarrow> ('k, 'v) item list" where
  "interleave (t # ts) (k # ks) = Branch t # Separator k # interleave ts ks"
| "interleave ts [] = map Branch ts"
| "interleave [] ks = map Separator ks"

text \<open>\<open>__getstate__\<close> of a tree, its first component; an empty tree has none.\<close>

fun get_state :: "('k, 'v) node \<Rightarrow> ('k, 'v) item list option" where
  "get_state (Tree oid ts ks) = Some (interleave ts ks)"
| "get_state (Inline_Tree oid es) = Some [Bucket_State es]"
| "get_state _ = None"

section \<open>The binary search\<close>

text \<open>The loop of \<open>btree_state_search\<close> over the separators; \<open>key_at i\<close> is \<open>state[i * 2 - 1]\<close>.\<close>

function search_loop :: "(nat \<Rightarrow> 'k::linorder) \<Rightarrow> 'k \<Rightarrow> nat \<Rightarrow> nat \<Rightarrow> nat" where
  "search_loop key_at key lo hi =
     (let i = (lo + hi) div 2 in
      if i > lo then
        (if key_at i < key then search_loop key_at key i hi
         else if key_at i > key then search_loop key_at key lo i
         else i)
      else i)"
  by pat_completeness auto
termination
  by (relation "measure (\<lambda>(_, _, lo, hi). hi - lo)") auto

declare search_loop.simps [simp del]

text \<open>The index of the branch is in range whenever there is a branch (\<open>search_loop_less\<close>).\<close>

definition separator :: "('k, 'v) item list \<Rightarrow> nat \<Rightarrow> 'k" where
  "separator state j = (case state ! j of Separator k \<Rightarrow> k | _ \<Rightarrow> undefined)"

definition btree_state_search :: "('k::linorder, 'v) item list option \<Rightarrow> 'k \<Rightarrow> int \<times> ('k, 'v) item option" where
  "btree_state_search state key =
     (case state of
        None \<Rightarrow> (-1, None)
      | Some st \<Rightarrow>
          (let i = search_loop (\<lambda>i. separator st (i * 2 - 1)) key 0 ((length st + 1) div 2)
           in (int i, if i * 2 < length st then Some (st ! (i * 2)) else None)))"

section \<open>Fetching\<close>

text \<open>\<open>prefetch\<close>: the stored ones among the objects, if any, in one exchange.\<close>

definition prefetch :: "('k, 'v) node list \<Rightarrow> ('k, 'v) node list" where
  "prefetch objs = filter (\<lambda>t. node_oid t \<noteq> None) objs"

text \<open>
  \<open>prefetch_trees\<close> for trees of one type: the subtrees of a state are the items of the
  types of the trees and their buckets, and the entries of a bucket are of other types.
\<close>

definition subtrees :: "('k, 'v) node \<Rightarrow> ('k, 'v) node list" where
  "subtrees t = (case get_state t of
     None \<Rightarrow> []
   | Some st \<Rightarrow> List.map_filter (\<lambda>x. case x of Branch b \<Rightarrow> Some b | _ \<Rightarrow> None) st)"

fun prefetch_trees :: "nat \<Rightarrow> ('k, 'v) node list \<Rightarrow> ('k, 'v) node list list" where
  "prefetch_trees 0 ts = []"
| "prefetch_trees (Suc depth) ts =
     (if ts = [] then [] else prefetch ts # prefetch_trees depth (concat (map subtrees ts)))"

text \<open>
  \<open>parallel_traversal\<close>: a round fetches the trees, each once, and goes on with the branch
  for each key.
\<close>

definition next_tree :: "('k::linorder) \<times> ('k, 'v) node \<Rightarrow> ('k \<times> ('k, 'v) node) option" where
  "next_tree = (\<lambda>(key, t).
     if is_bucket t then None
     else (case btree_state_search (get_state t) key of (_, Some (Branch b)) \<Rightarrow> Some (key, b) | _ \<Rightarrow> None))"

lemma interleave_nth:
  "length ts = Suc (length ks) \<Longrightarrow> i \<le> length ks \<Longrightarrow> interleave ts ks ! (2 * i) = Branch (ts ! i)"
  "length ts = Suc (length ks) \<Longrightarrow> i < length ks \<Longrightarrow> interleave ts ks ! (2 * i + 1) = Separator (ks ! i)"
proof (induction ts ks arbitrary: i and i rule: interleave.induct)
  case (1 t ts k ks)
  {
    case 1
    then show ?case using "1.IH"(1) by (cases i) auto
  next
    case 2
    then show ?case using "1.IH"(2) by (cases i) auto
  }
qed (auto simp: length_Suc_conv)

section \<open>The search is right\<close>

text \<open>Between two separators, the search ends at the number of separators up to the key.\<close>

lemma search_loop_result:
  assumes "sorted_wrt (<) ks" "lo < hi" "hi \<le> Suc (length ks)"
    and "lo \<noteq> 0 \<Longrightarrow> ks ! (lo - 1) \<le> key" "hi \<le> length ks \<Longrightarrow> key < ks ! (hi - 1)"
    and at: "\<And>i. 0 < i \<Longrightarrow> i \<le> length ks \<Longrightarrow> key_at i = ks ! (i - 1)"
  shows "search_loop key_at key lo hi \<le> length ks \<and>
    (\<forall>j < search_loop key_at key lo hi. ks ! j \<le> key) \<and>
    (\<forall>j. search_loop key_at key lo hi \<le> j \<and> j < length ks \<longrightarrow> key < ks ! j)"
  using assms(2-5)
proof (induction "hi - lo" arbitrary: lo hi rule: less_induct)
  case less
  let ?i = "(lo + hi) div 2"
  have mono: "ks ! j < ks ! k" if "j < k" "k < length ks" for j k
    using sorted_wrt_nth_less [OF assms(1) that] .
  show ?case
  proof (cases "?i > lo")
    case False
    then have hi: "hi = Suc lo" and r: "search_loop key_at key lo hi = lo"
      using less.prems(1) by (auto simp: search_loop.simps [of key_at key lo hi] Let_def)
    have "ks ! j \<le> key" if "j < lo" for j
    proof (cases "j = lo - 1")
      case False
      then have "ks ! j < ks ! (lo - 1)" using mono [of j "lo - 1"] that less.prems(2) hi by simp
      then show ?thesis using less.prems(3) that by simp
    qed (use less.prems(3) that in simp)
    moreover have "key < ks ! j" if "lo \<le> j" "j < length ks" for j
      using less.prems(4) mono [of lo j] that hi by (cases "j = lo") auto
    ultimately show ?thesis using less.prems(2) r hi by auto
  next
    case True
    then have i: "lo < ?i" "?i < hi" "0 < ?i" "?i \<le> length ks" using less.prems(1,2) by auto
    note k = at [OF i(3,4)]
    consider "key_at ?i < key" | "key_at ?i > key" | "key_at ?i = key" by force
    then show ?thesis
    proof cases
      case 1
      then have eq: "search_loop key_at key lo hi = search_loop key_at key ?i hi"
        using True by (subst search_loop.simps) (simp add: Let_def)
      have "hi - ?i < hi - lo" using i by simp
      then show ?thesis unfolding eq
        by (rule less.hyps) (use less.prems(2,4) 1 [unfolded k] i in simp_all)
    next
      case 2
      then have eq: "search_loop key_at key lo hi = search_loop key_at key lo ?i"
        using True by (subst search_loop.simps) (auto simp: Let_def dest: less_asym)
      have "?i - lo < hi - lo" using i by simp
      then show ?thesis unfolding eq
        by (rule less.hyps) (use less.prems(2,3) 2 [unfolded k] i in simp_all)
    next
      case 3
      then have r: "search_loop key_at key lo hi = ?i"
        using True by (subst search_loop.simps) (simp add: Let_def)
      have "ks ! j \<le> key" if "j < ?i" for j
      proof (cases "j = ?i - 1")
        case False
        then have "ks ! j < ks ! (?i - 1)" using that i by (intro mono) auto
        then show ?thesis using 3 [unfolded k] by simp
      qed (use 3 [unfolded k] in simp)
      moreover have "key < ks ! j" if "?i \<le> j" "j < length ks" for j
        using mono [of "?i - 1" j] that i 3 [unfolded k] by simp
      ultimately show ?thesis using r i by simp
    qed
  qed
qed

text \<open>The reference: count the separators up to the key from the left.\<close>

definition branch_index :: "'k::linorder list \<Rightarrow> 'k \<Rightarrow> nat" where
  "branch_index ks key = length (takeWhile (\<lambda>k. k \<le> key) ks)"

lemma branch_index_le: "branch_index ks key \<le> length ks"
  by (simp add: branch_index_def length_takeWhile_le)

lemma branch_index_iff:
  assumes "r \<le> length ks" "\<forall>j < r. ks ! j \<le> key" "\<forall>j. r \<le> j \<and> j < length ks \<longrightarrow> key < ks ! j"
  shows "branch_index ks key = r"
proof -
  have "takeWhile (\<lambda>k. k \<le> key) ks = take r ks"
    using assms by (intro takeWhile_eq_take_P_nth) (auto simp: not_le)
  then show ?thesis using assms(1) by (simp add: branch_index_def)
qed

lemma length_interleave: "length ts = Suc (length ks) \<Longrightarrow> length (interleave ts ks) = 2 * length ks + 1"
  by (induction ts ks rule: interleave.induct) auto

lemma state_search_tree:
  assumes "sorted_wrt (<) ks" "length ts = Suc (length ks)"
  shows "btree_state_search (get_state (Tree oid ts ks)) key =
    (int (branch_index ks key), Some (Branch (ts ! branch_index ks key)))"
proof -
  let ?st = "interleave ts ks" and ?at = "\<lambda>i. separator (interleave ts ks) (i * 2 - 1)"
  have at: "?at i = ks ! (i - 1)" if "0 < i" "i \<le> length ks" for i
  proof -
    have "i * 2 - 1 = 2 * (i - 1) + 1" using that by simp
    then show ?thesis using interleave_nth(2) [OF assms(2), of "i - 1"] that by (simp add: separator_def)
  qed
  have hi: "(length ?st + 1) div 2 = Suc (length ks)" using length_interleave [OF assms(2)] by simp
  have "search_loop ?at key 0 (Suc (length ks)) = branch_index ks key"
    using search_loop_result [OF assms(1), of 0 "Suc (length ks)" key ?at] at
    by (intro branch_index_iff [symmetric]) auto
  then show ?thesis
    using interleave_nth(1) [OF assms(2) branch_index_le, of key] hi length_interleave [OF assms(2)]
      branch_index_le [of ks key]
    by (simp add: btree_state_search_def Let_def mult.commute)
qed

section \<open>Paths\<close>

text \<open>The nodes a lookup of the key visits.\<close>

lemma map_filter_branch: "b \<in> set (List.map_filter (\<lambda>x. case x of Branch b \<Rightarrow> Some b | _ \<Rightarrow> None) st) \<longleftrightarrow> Branch b \<in> set st"
  by (induction st) (auto simp: List.map_filter_simps split: item.splits)

lemma branch_in_state: "Branch b \<in> set (interleave ts ks) \<Longrightarrow> b \<in> set ts"
  by (induction ts ks rule: interleave.induct) auto

lemma search_loop_less: "lo < hi \<Longrightarrow> search_loop key_at key lo hi < hi"
proof (induction "hi - lo" arbitrary: lo hi rule: less_induct)
  case less
  let ?i = "(lo + hi) div 2"
  show ?case
  proof (cases "?i > lo")
    case True
    then have "?i < hi" "hi - ?i < hi - lo" "?i - lo < hi - lo" using less.prems by auto
    then show ?thesis
      using less.hyps [of hi ?i] less.hyps [of ?i lo] True less.prems
      by (subst search_loop.simps) (auto simp: Let_def intro: less_trans)
  next
    case False
    then show ?thesis using less.prems by (subst search_loop.simps) (simp add: Let_def)
  qed
qed

lemma branch_index_below: "j < branch_index ks key \<Longrightarrow> ks ! j \<le> key"
  using nth_mem [of j "takeWhile (\<lambda>k. k \<le> key) ks"] set_takeWhileD takeWhile_nth
  unfolding branch_index_def by (metis (mono_tags, lifting))

lemma branch_index_above:
  assumes "sorted_wrt (<) ks" "branch_index ks key \<le> j" "j < length ks"
  shows "key < ks ! j"
proof -
  have "key < ks ! branch_index ks key"
    using assms nth_length_takeWhile [of "\<lambda>k. k \<le> key" ks] unfolding branch_index_def by simp
  then show ?thesis
    using sorted_wrt_nth_less [OF assms(1), of "branch_index ks key" j] assms(2,3)
    by (cases "j = branch_index ks key") auto
qed

text \<open>So the search finds an item whenever the state is not empty.\<close>

lemma search_total: "st \<noteq> [] \<Longrightarrow> snd (btree_state_search (Some st) key) \<noteq> None"
proof -
  assume "st \<noteq> []"
  then have "(length st + 1) div 2 > 0" by (cases st) auto
  from search_loop_less [OF this, of "\<lambda>i. separator st (i * 2 - 1)" key]
  show ?thesis by (simp add: btree_state_search_def Let_def)
qed

fun node_size :: "('k, 'v) node \<Rightarrow> nat" where
  "node_size (Tree oid ts ks) = Suc (sum_list (map node_size ts))"
| "node_size _ = 1"

lemma node_size_pos: "0 < node_size t"
  by (cases t) auto

lemma member_size: "b \<in> set ts \<Longrightarrow> node_size b \<le> sum_list (map node_size ts)"
  by (induction ts) auto

lemma next_tree_branch:
  assumes "next_tree (key, t) = Some (key', b)"
  shows "key' = key \<and> b \<in> set (subtrees t) \<and> node_size b < node_size t"
proof -
  obtain i where i: "\<not> is_bucket t" "btree_state_search (get_state t) key = (i, Some (Branch b))" "key' = key"
    using assms by (auto simp: next_tree_def split: if_splits prod.splits option.splits item.splits)
  then obtain st where st: "get_state t = Some st" "Branch b \<in> set st"
    by (auto simp: btree_state_search_def Let_def split: option.splits if_splits) (metis nth_mem)
  then obtain oid ts ks where t: "t = Tree oid ts ks" by (cases t) auto
  then have "b \<in> set ts" using st branch_in_state by force
  then show ?thesis using i(3) st t member_size [of b ts] by (simp add: subtrees_def map_filter_branch)
qed

function path :: "'k::linorder \<Rightarrow> ('k, 'v) node \<Rightarrow> ('k, 'v) node list" where
  "path key t = t # (case next_tree (key, t) of None \<Rightarrow> [] | Some (_, b) \<Rightarrow> path key b)"
  by pat_completeness auto
termination
  by (relation "measure (\<lambda>(key, t). node_size t)") (auto dest: next_tree_branch)

declare path.simps [simp del]

text \<open>\<open>parallel_traversal\<close> of pairs of a key and a tree, and of a single tree.\<close>

lemma next_trees_size:
  "sum_list (map (node_size \<circ> snd) (List.map_filter next_tree kts)) \<le> sum_list (map (node_size \<circ> snd) kts)
    \<and> (kts \<noteq> [] \<longrightarrow> sum_list (map (node_size \<circ> snd) (List.map_filter next_tree kts)) < sum_list (map (node_size \<circ> snd) kts))"
proof (induction kts)
  case (Cons kt kts)
  obtain k t where kt: "kt = (k, t)" by (cases kt)
  show ?case
    using Cons node_size_pos [of t] next_tree_branch [of k t]
    by (cases "next_tree kt") (auto simp: List.map_filter_simps kt)
qed (simp add: List.map_filter_simps)

function traversal :: "('k::linorder \<times> ('k, 'v) node) list \<Rightarrow> ('k, 'v) node list list" where
  "traversal kts =
     remdups (prefetch (map snd kts)) #
       (if List.map_filter next_tree kts = [] then [] else traversal (List.map_filter next_tree kts))"
  by pat_completeness auto
termination
proof (relation "measure (\<lambda>kts. sum_list (map (node_size \<circ> snd) kts))")
  fix kts :: "(('k::linorder) \<times> ('k, 'v) node) list"
  assume "List.map_filter next_tree kts \<noteq> []"
  then have "kts \<noteq> []" by (auto simp: List.map_filter_simps)
  then show "(List.map_filter next_tree kts, kts) \<in> measure (\<lambda>kts. sum_list (map (node_size \<circ> snd) kts))"
    using next_trees_size [of kts] by simp
qed simp

declare traversal.simps [simp del]

definition parallel_traversal :: "('k::linorder, 'v) node \<Rightarrow> 'k list \<Rightarrow> ('k, 'v) node list list" where
  "parallel_traversal t ks = (if ks = [] then [prefetch [t]] else traversal (map (\<lambda>k. (k, t)) ks))"

section \<open>Search trees\<close>

text \<open>The entries of a tree from left to right, and what makes it a search tree.\<close>

fun entries :: "('k, 'v) node \<Rightarrow> ('k \<times> 'v) list" where
  "entries (Bucket oid es) = es"
| "entries (Empty_Tree oid) = []"
| "entries (Inline_Tree oid es) = es"
| "entries (Tree oid ts ks) = concat (map entries ts)"

fun search_tree :: "('k::linorder, 'v) node \<Rightarrow> bool" where
  "search_tree (Tree oid ts ks) \<longleftrightarrow> length ts = Suc (length ks) \<and> sorted_wrt (<) ks \<and>
     (\<forall>t \<in> set ts. search_tree t) \<and>
     (\<forall>i < length ts. \<forall>k \<in> fst ` set (entries (ts ! i)).
        (i > 0 \<longrightarrow> ks ! (i - 1) \<le> k) \<and> (i < length ks \<longrightarrow> k < ks ! i))"
| "search_tree _ \<longleftrightarrow> True"

lemma map_of_concat_one:
  assumes "i < length xss" "\<And>j. j < length xss \<Longrightarrow> j \<noteq> i \<Longrightarrow> k \<notin> fst ` set (xss ! j)"
  shows "map_of (concat xss) k = map_of (xss ! i) k"
  using assms
proof (induction xss arbitrary: i)
  case (Cons xs xss)
  show ?case
  proof (cases i)
    case 0
    have "k \<notin> fst ` set (concat xss)"
    proof
      assume "k \<in> fst ` set (concat xss)"
      then obtain ys where "ys \<in> set xss" "k \<in> fst ` set ys" by auto
      then obtain j where "j < length xss" "k \<in> fst ` set (xss ! j)" by (metis in_set_conv_nth)
      then show False using Cons.prems(2) [of "Suc j"] 0 by simp
    qed
    then have "map_of (concat xss) k = None" by (simp add: map_of_eq_None_iff)
    then show ?thesis using 0 by (simp add: map_add_def del: map_of_eq_None_iff split: option.splits)
  next
    case (Suc j)
    have "map_of xs k = None" using Cons.prems(2) [of 0] Suc by (simp add: map_of_eq_None_iff)
    moreover have "map_of (concat xss) k = map_of (xss ! j) k"
      using Cons.IH [of j] Cons.prems(1) Cons.prems(2) [of "Suc _"] Suc by simp
    ultimately show ?thesis using Suc by (simp add: map_add_def split: option.splits)
  qed
qed simp

text \<open>The branch that the search chooses has the key's entry, if there is one.\<close>

lemma search_tree_branch:
  assumes "search_tree (Tree oid ts ks)"
  shows "next_tree (key, Tree oid ts ks) = Some (key, ts ! branch_index ks key)"
    and "search_tree (ts ! branch_index ks key)"
    and "map_of (entries (Tree oid ts ks)) key = map_of (entries (ts ! branch_index ks key)) key"
proof -
  let ?r = "branch_index ks key"
  have len: "length ts = Suc (length ks)" and sort: "sorted_wrt (<) ks" using assms by simp_all
  show "next_tree (key, Tree oid ts ks) = Some (key, ts ! ?r)"
    using state_search_tree [OF sort len, of oid key] by (simp add: next_tree_def)
  have r: "?r \<le> length ks" by (rule branch_index_le)
  show "search_tree (ts ! ?r)" using assms r len by simp
  have le: "ks ! j \<le> key" if "j < ?r" for j
    using that by (rule branch_index_below)
  have gr: "key < ks ! ?r" if "?r < length ks"
    using branch_index_above [OF sort _ that] by simp
  have "key \<notin> fst ` set (entries (ts ! j))" if j: "j < length ts" "j \<noteq> ?r" for j
  proof
    assume k: "key \<in> fst ` set (entries (ts ! j))"
    have bounds: "j > 0 \<longrightarrow> ks ! (j - 1) \<le> key" "j < length ks \<longrightarrow> key < ks ! j"
      using assms k j(1) unfolding search_tree.simps by blast+
    show False
    proof (cases "j < ?r")
      case True
      then show False using bounds(2) le [of j] r by auto
    next
      case False
      then have "?r < j" using j(2) by simp
      then have "?r \<le> j - 1" "j - 1 < length ks" using j(1) len by auto
      then have "ks ! ?r \<le> ks ! (j - 1)"
        using sorted_wrt_nth_less [OF sort, of ?r "j - 1"] by (cases "?r = j - 1") auto
      then show False using bounds(1) gr \<open>?r < j\<close> \<open>?r \<le> j - 1\<close> \<open>j - 1 < length ks\<close> by auto
    qed
  qed
  then show "map_of (entries (Tree oid ts ks)) key = map_of (entries (ts ! ?r)) key"
    using map_of_concat_one [of ?r "map entries ts" key] r len by simp
qed

lemma search_loop_one: "search_loop key_at key 0 (Suc 0) = 0"
  by (subst search_loop.simps) simp

lemma path_end:
  "search_tree t \<Longrightarrow> map_of (entries (last (path key t))) key = map_of (entries t) key
     \<and> (\<forall>oid ts ks. last (path key t) \<noteq> Tree oid ts ks)"
proof (induction key t rule: path.induct)
  case (1 key t)
  show ?case
  proof (cases t)
    case (Tree oid ts ks)
    note b = search_tree_branch [OF "1.prems" [unfolded Tree], of key, folded Tree]
    have "path key (ts ! branch_index ks key) \<noteq> []" by (subst path.simps) simp
    then have "last (path key t) = last (path key (ts ! branch_index ks key))"
      by (subst path.simps) (simp add: b(1))
    then show ?thesis using "1.IH" [OF b(1) refl b(2)] b(3) by simp
  qed (simp_all add: path.simps next_tree_def btree_state_search_def Let_def search_loop_one)
qed

section \<open>What is fetched\<close>

lemma path_next: "next_tree (key, t) = Some (key', b) \<Longrightarrow> path key t = t # path key b"
  "next_tree (key, t) = None \<Longrightarrow> path key t = [t]"
  using next_tree_branch [of key t key' b] by (simp_all add: path.simps [of key t])

lemma in_next_trees:
  "(key, b) \<in> set (List.map_filter next_tree kts) \<longleftrightarrow> (\<exists>u. (key, u) \<in> set kts \<and> next_tree (key, u) = Some (key, b))"
proof
  assume "(key, b) \<in> set (List.map_filter next_tree kts)"
  then obtain k u where "(k, u) \<in> set kts" "next_tree (k, u) = Some (key, b)"
    unfolding List.map_filter_def by (auto simp: image_iff)
  then show "\<exists>u. (key, u) \<in> set kts \<and> next_tree (key, u) = Some (key, b)"
    using next_tree_branch by blast
qed (force simp: List.map_filter_def)

lemma prefetch_set: "set (remdups (prefetch ts)) = {t \<in> set ts. node_oid t \<noteq> None}"
  by (simp add: prefetch_def)

lemma traversal_set:
  "set (concat (traversal kts)) = {t. node_oid t \<noteq> None \<and> (\<exists>(key, u) \<in> set kts. t \<in> set (path key u))}"
proof (induction kts rule: traversal.induct)
  case (1 kts)
  let ?nx = "List.map_filter next_tree kts"
  note nx = in_next_trees [of _ _ kts]
  have step: "t \<in> set (path key u) \<longleftrightarrow> t = u \<or> (\<exists>b. next_tree (key, u) = Some (key, b) \<and> t \<in> set (path key b))" for t key u
  proof (cases "next_tree (key, u)")
    case None
    then show ?thesis by (simp add: path_next(2))
  next
    case (Some kb)
    then obtain b where "next_tree (key, u) = Some (key, b)" using next_tree_branch by (cases kb) blast
    then show ?thesis by (auto simp: path_next(1))
  qed
  have rest: "set (concat (if ?nx = [] then [] else traversal ?nx)) =
      {t. node_oid t \<noteq> None \<and> (\<exists>(key, u) \<in> set ?nx. t \<in> set (path key u))}"
    using "1.IH" by auto
  show ?case
  proof (rule set_eqI)
    fix t
    have "t \<in> set (concat (traversal kts)) \<longleftrightarrow> node_oid t \<noteq> None \<and>
        ((\<exists>(key, u) \<in> set kts. t = u) \<or> (\<exists>(key, b) \<in> set ?nx. t \<in> set (path key b)))"
      unfolding traversal.simps [of kts] concat.simps set_append rest prefetch_set by force
    also have "(\<exists>(key, b) \<in> set ?nx. t \<in> set (path key b)) \<longleftrightarrow>
        (\<exists>key u b. (key, u) \<in> set kts \<and> next_tree (key, u) = Some (key, b) \<and> t \<in> set (path key b))"
      using nx by blast
    also have "((\<exists>(key, u) \<in> set kts. t = u) \<or>
        (\<exists>key u b. (key, u) \<in> set kts \<and> next_tree (key, u) = Some (key, b) \<and> t \<in> set (path key b))) \<longleftrightarrow>
        (\<exists>key u. (key, u) \<in> set kts \<and> (t = u \<or> (\<exists>b. next_tree (key, u) = Some (key, b) \<and> t \<in> set (path key b))))"
      by blast
    also have "\<dots> \<longleftrightarrow> (\<exists>key u. (key, u) \<in> set kts \<and> t \<in> set (path key u))"
      unfolding step [symmetric] ..
    finally show "t \<in> set (concat (traversal kts)) \<longleftrightarrow>
        t \<in> {t. node_oid t \<noteq> None \<and> (\<exists>(key, u) \<in> set kts. t \<in> set (path key u))}" by auto
  qed
qed

text \<open>The rounds of a traversal: as many as the longest path has nodes.\<close>

lemma path_length_pos: "0 < length (path key t)"
  by (subst path.simps) simp

lemma traversal_length:
  "kts \<noteq> [] \<Longrightarrow> (\<forall>(key, u) \<in> set kts. length (path key u) \<le> length (traversal kts))
     \<and> (\<exists>(key, u) \<in> set kts. length (path key u) = length (traversal kts))"
proof (induction kts rule: traversal.induct)
  case (1 kts)
  let ?nx = "List.map_filter next_tree kts"
  note nx = in_next_trees [of _ _ kts]
  show ?case
  proof (cases "?nx = []")
    case True
    have "next_tree ku = None" if "ku \<in> set kts" for ku
      using True that by (cases "next_tree ku") (auto simp: List.map_filter_def filter_empty_conv)
    then have one: "length (path key u) = 1" if "(key, u) \<in> set kts" for key u
      using path_next(2) [of key u] that by simp
    moreover have "length (traversal kts) = 1" by (subst traversal.simps) (simp add: True)
    moreover obtain key u where "(key, u) \<in> set kts" using "1.prems" by (cases kts) auto
    ultimately show ?thesis by (metis (mono_tags, lifting) case_prodI2 case_prodI order_refl)
  next
    case False
    have len: "length (traversal kts) = Suc (length (traversal ?nx))" by (subst traversal.simps) (simp add: False)
    note IH = "1.IH" [OF False False]
    have upper: "length (path key u) \<le> Suc (length (traversal ?nx))" if "(key, u) \<in> set kts" for key u
    proof (cases "next_tree (key, u)")
      case None
      then show ?thesis by (simp add: path_next(2))
    next
      case (Some kb)
      then obtain b where b: "next_tree (key, u) = Some (key, b)" using next_tree_branch by (cases kb) blast
      then have "(key, b) \<in> set ?nx" using nx that by blast
      then have "length (path key b) \<le> length (traversal ?nx)" using IH by blast
      then show ?thesis using path_next(1) [OF b] by simp
    qed
    obtain key b where kb: "(key, b) \<in> set ?nx" "length (path key b) = length (traversal ?nx)" using IH by blast
    then obtain u where "(key, u) \<in> set kts" "next_tree (key, u) = Some (key, b)" using nx by blast
    then have "(key, u) \<in> set kts \<and> length (path key u) = Suc (length (traversal ?nx))"
      using path_next(1) [of key u key b] kb(2) by simp
    then show ?thesis using upper unfolding len by blast
  qed
qed

text \<open>The nodes of a tree by level, and its height.\<close>

fun level :: "nat \<Rightarrow> ('k, 'v) node \<Rightarrow> ('k, 'v) node list" where
  "level 0 t = [t]"
| "level (Suc n) t = concat (map (level n) (subtrees t))"

lemma prefetch_trees_set:
  "set (concat (prefetch_trees depth ts)) = {t. node_oid t \<noteq> None \<and> (\<exists>n < depth. \<exists>u \<in> set ts. t \<in> set (level n u))}"
proof (induction depth arbitrary: ts)
  case (Suc depth)
  have "(\<exists>n < Suc depth. \<exists>u \<in> set ts. t \<in> set (level n u)) \<longleftrightarrow>
      t \<in> set ts \<or> (\<exists>n < depth. \<exists>u \<in> set (concat (map subtrees ts)). t \<in> set (level n u))" for t
    by (subst Ex_less_Suc2) auto
  moreover have "set (concat (prefetch_trees (Suc depth) ts)) =
      {t \<in> set ts. node_oid t \<noteq> None} \<union> set (concat (prefetch_trees depth (concat (map subtrees ts))))"
    by (cases "ts = []"; cases depth) (simp_all add: prefetch_def)
  ultimately show ?case unfolding Suc.IH by blast
qed simp

lemma concat_map_concat: "concat (map (\<lambda>u. concat (map f (g u))) xs) = concat (map f (concat (map g xs)))"
  by (induction xs) auto

lemma level_Suc: "level (Suc n) t = concat (map subtrees (level n t))"
proof (induction n arbitrary: t)
  case (Suc n)
  have "level (Suc (Suc n)) t = concat (map (level (Suc n)) (subtrees t))" by (rule level.simps)
  also have "\<dots> = concat (map (\<lambda>u. concat (map subtrees (level n u))) (subtrees t))"
    unfolding Suc.IH ..
  also have "\<dots> = concat (map subtrees (level (Suc n) t))"
    by (simp add: concat_map_concat)
  finally show ?case .
next
  case 0
  have "concat (map (level 0) xs) = xs" for xs :: "('a, 'b) node list" by (induction xs) auto
  then show ?case by simp
qed

fun nodes :: "('k, 'v) node \<Rightarrow> ('k, 'v) node list" where
  "nodes (Tree oid ts ks) = Tree oid ts ks # concat (map nodes ts)"
| "nodes t = [t]"

fun height :: "('k, 'v) node \<Rightarrow> nat" where
  "height (Tree oid ts ks) = Suc (foldr max (map height ts) 0)"
| "height _ = 1"

lemma subtrees_tree: "subtrees (Tree oid ts ks) = ts"
proof -
  have "List.map_filter (\<lambda>x. case x of Branch b \<Rightarrow> Some b | _ \<Rightarrow> None) (interleave ts ks) = ts"
    by (induction ts ks rule: interleave.induct) (auto simp: List.map_filter_def comp_def)
  then show ?thesis by (simp add: subtrees_def)
qed

lemma subtrees_other: "\<forall>oid ts ks. t \<noteq> Tree oid ts ks \<Longrightarrow> subtrees t = []"
  by (cases t) (auto simp: subtrees_def List.map_filter_simps)

lemma foldr_max_ge: "x \<in> set xs \<Longrightarrow> (x::nat) \<le> foldr max xs 0"
  by (induction xs) auto

lemma level_height: "height t \<le> n \<Longrightarrow> level n t = []"
proof (induction n arbitrary: t)
  case 0
  then show ?case by (cases t) auto
next
  case (Suc n)
  show ?case
  proof (cases t)
    case (Tree oid ts ks)
    then have "height u \<le> n" if "u \<in> set ts" for u
      using Suc.prems foldr_max_ge [of "height u" "map height ts"] that by simp
    then show ?thesis using Suc.IH by (simp add: Tree subtrees_tree)
  qed (simp_all add: subtrees_other)
qed

lemma level_in_height: "t \<in> set (level n u) \<Longrightarrow> n < height u"
  using level_height [of u n] by (cases "n < height u") auto

lemma leaf_level: "subtrees t = [] \<Longrightarrow> t' \<in> set (level n t) \<longleftrightarrow> n = 0 \<and> t' = t"
  by (cases n) auto

lemma nodes_level: "t \<in> set (nodes u) \<longleftrightarrow> (\<exists>n. t \<in> set (level n u))"
proof (induction u rule: nodes.induct)
  case (1 oid ts ks)
  have "(\<exists>n. t \<in> set (level n (Tree oid ts ks))) \<longleftrightarrow> t = Tree oid ts ks \<or> (\<exists>n. t \<in> set (level (Suc n) (Tree oid ts ks)))"
    by (metis (no_types, lifting) empty_iff insert_iff level.simps(1) list.set not0_implies_Suc)
  then show ?case using 1 by (auto simp: subtrees_tree)
qed (simp_all add: leaf_level subtrees_other)

lemma prefetch_trees_length: "length (prefetch_trees depth ts) \<le> depth"
  by (induction depth arbitrary: ts) auto

section \<open>Properties\<close>

text \<open>
  C22: in the raw state of a tree with its separators in order, the search returns the branch
  that has the key's place: its index is in range, the separators before it are up to the
  key and those from it on are greater. The reference is a scan from the left.
\<close>

theorem btree_search_correct:
  fixes key :: "'k::linorder"
  assumes "sorted_wrt (<) ks" "length ts = Suc (length ks)"
  shows "\<exists>r. btree_state_search (get_state (Tree oid ts ks)) key = (int r, Some (Branch (ts ! r)))
    \<and> r < length ts \<and> r = branch_index ks key
    \<and> (\<forall>j < r. ks ! j \<le> key) \<and> (\<forall>j. r \<le> j \<and> j < length ks \<longrightarrow> key < ks ! j)"
proof (intro exI conjI)
  let ?r = "branch_index ks key"
  show "btree_state_search (get_state (Tree oid ts ks)) key = (int ?r, Some (Branch (ts ! ?r)))"
    by (rule state_search_tree [OF assms])
  show "?r < length ts" using branch_index_le [of ks key] assms(2) by simp
  show "\<forall>j < ?r. ks ! j \<le> key" by (simp add: branch_index_below)
  show "\<forall>j. ?r \<le> j \<and> j < length ks \<longrightarrow> key < ks ! j" using branch_index_above [OF assms(1)] by blast
qed simp

theorem btree_search_correct_witness:
  "\<exists>r. btree_state_search (get_state (Tree None [Bucket None [(1, ())], Bucket None [(5, ())], Bucket None [(9::nat, ())]] [3, 7])) 3
      = (int r, Some (Branch ([Bucket None [(1, ())], Bucket None [(5, ())], Bucket None [(9, ())]] ! r)))
    \<and> r < 3 \<and> r = branch_index [3, 7] (3::nat)
    \<and> (\<forall>j < r. [3, 7] ! j \<le> (3::nat)) \<and> (\<forall>j. r \<le> j \<and> j < 2 \<longrightarrow> (3::nat) < [3, 7] ! j)"
  using btree_search_correct [of "[3, 7]" "[Bucket None [(1, ())], Bucket None [(5, ())], Bucket None [(9::nat, ())]]" None 3]
  by simp

text \<open>
  C23: for a search tree and at least one key, \<open>parallel_traversal\<close> fetches exactly the stored
  nodes on the paths of the keys, in as many rounds as the longest path has nodes (a round
  that finds no stored node asks the server for nothing); and
  each path ends at a node that is no inner node and has the key's entry, so that the lookups
  that follow need nothing more.
\<close>

theorem traversal_fetches_paths:
  assumes "search_tree t" "ks \<noteq> []"
  shows "set (concat (parallel_traversal t ks)) = {u. node_oid u \<noteq> None \<and> (\<exists>k \<in> set ks. u \<in> set (path k t))}
    \<and> length (parallel_traversal t ks) = Max ((\<lambda>k. length (path k t)) ` set ks)
    \<and> (\<forall>k \<in> set ks. map_of (entries (last (path k t))) k = map_of (entries t) k
         \<and> (\<forall>oid ts seps. last (path k t) \<noteq> Tree oid ts seps))"
proof (intro conjI ballI)
  let ?kts = "map (\<lambda>k. (k, t)) ks"
  have eq: "parallel_traversal t ks = traversal ?kts" using assms(2) by (simp add: parallel_traversal_def)
  show "set (concat (parallel_traversal t ks)) = {u. node_oid u \<noteq> None \<and> (\<exists>k \<in> set ks. u \<in> set (path k t))}"
    unfolding eq traversal_set by auto
  have "?kts \<noteq> []" using assms(2) by simp
  from traversal_length [OF this]
  have "\<forall>k \<in> set ks. length (path k t) \<le> length (traversal ?kts)"
    "length (traversal ?kts) \<in> (\<lambda>k. length (path k t)) ` set ks" by (auto simp: image_iff) metis
  then show "length (parallel_traversal t ks) = Max ((\<lambda>k. length (path k t)) ` set ks)"
    unfolding eq by (intro Max_eqI [symmetric]) auto
  fix k
  show "map_of (entries (last (path k t))) k = map_of (entries t) k"
    and "\<forall>oid ts seps. last (path k t) \<noteq> Tree oid ts seps"
    using path_end [OF assms(1), of k] by simp_all
qed

definition example_tree :: "(nat, bool) node" where
  "example_tree = Tree (Some 1) [Bucket (Some 2) [(1, True)], Bucket (Some 3) [(4, False), (5, True)], Bucket None [(9, False)]] [4, 7]"

theorem traversal_fetches_paths_witness:
  "set (concat (parallel_traversal example_tree [5])) =
      {u. node_oid u \<noteq> None \<and> (\<exists>k \<in> set [5]. u \<in> set (path k example_tree))}
    \<and> length (parallel_traversal example_tree [5]) = Max ((\<lambda>k. length (path k example_tree)) ` set [5])
    \<and> map_of (entries (last (path 5 example_tree))) 5 = Some True"
proof -
  have "search_tree example_tree"
    by (simp add: example_tree_def less_Suc_eq numeral_3_eq_3 numeral_2_eq_2)
  then show ?thesis using traversal_fetches_paths [of example_tree "[5]"] by (simp add: example_tree_def)
qed

text \<open>
  \<open>prefetch_trees\<close> takes at most \<open>depth\<close> exchanges and fetches exactly the stored nodes less
  than \<open>depth\<close> levels below the given ones; this is every stored node when no tree is higher.
\<close>

theorem prefetch_trees_levels:
  shows "length (prefetch_trees depth ts) \<le> depth
    \<and> set (concat (prefetch_trees depth ts)) = {t. node_oid t \<noteq> None \<and> (\<exists>n < depth. \<exists>u \<in> set ts. t \<in> set (level n u))}
    \<and> ((\<forall>u \<in> set ts. height u \<le> depth) \<longrightarrow>
         set (concat (prefetch_trees depth ts)) = {t. node_oid t \<noteq> None \<and> (\<exists>u \<in> set ts. t \<in> set (nodes u))})"
proof (intro conjI impI)
  assume h: "\<forall>u \<in> set ts. height u \<le> depth"
  have "(\<exists>n < depth. t \<in> set (level n u)) \<longleftrightarrow> t \<in> set (nodes u)" if "u \<in> set ts" for t u
    unfolding nodes_level using h that level_in_height less_le_trans by blast
  then show "set (concat (prefetch_trees depth ts)) = {t. node_oid t \<noteq> None \<and> (\<exists>u \<in> set ts. t \<in> set (nodes u))}"
    unfolding prefetch_trees_set by blast
qed (rule prefetch_trees_length prefetch_trees_set)+

theorem prefetch_trees_levels_witness:
  "length (prefetch_trees 10 [example_tree]) \<le> 10
    \<and> set (concat (prefetch_trees 10 [example_tree])) = {t. node_oid t \<noteq> None \<and> t \<in> set (nodes example_tree)}"
proof -
  have "height example_tree \<le> 10" by (simp add: example_tree_def)
  then show ?thesis using prefetch_trees_levels [of 10 "[example_tree]"] by (auto simp del: prefetch_trees.simps)
qed

end
