(* ===== verification/Database.thy ===== *)
theory Database
  imports Db
begin

text \<open>
  The class \<open>DB\<close> of zerodb/db.py: a database of several models. Each operation looks up the
  \<open>DbModel\<close> of an object's class, which is made on first use, and is carried out there
  (theory Db). Connections, processes and threads are not modelled.
\<close>

section \<open>State\<close>

text \<open>
  The classes of the objects, and what they define: the name, the operations of the catalog,
  and the new store and catalog.
\<close>

record ('m, 'o, 'a, 'c) schema =
  sc_is_model :: "'m \<Rightarrow> bool"
  sc_name :: "'m \<Rightarrow> string"
  sc_class :: "'o \<Rightarrow> 'm"
  sc_instance :: "'o \<Rightarrow> 'm \<Rightarrow> bool"
  sc_ops :: "'m \<Rightarrow> ('a, 'c) catalog_ops"
  sc_store :: "'m \<Rightarrow> 'o id_store"
  sc_catalog :: "'m \<Rightarrow> 'c"

text \<open>
  The root object with its stores and catalogs (the prefixes \<open>store__\<close> and \<open>catalog__\<close> are the
  two maps), the models that are in use, the contents of the objects, random numbers.
\<close>

record ('m, 'o, 'a, 'c) database =
  da_stores :: "string \<Rightarrow> 'o id_store option"
  da_catalogs :: "string \<Rightarrow> 'c option"
  da_models :: "'m set"
  da_state :: "'o \<Rightarrow> 'a"
  da_draws :: "int list"

text \<open>The argument of \<open>remove\<close> and \<open>reindex\<close>: an object, an iterable of objects, or something else.\<close>

datatype 'o db_arg = One_Object 'o | Many_Objects "'o list" | Other_Arg

section \<open>Operations\<close>

text \<open>\<open>DbModel.__init__\<close>; the transaction around it is not modelled.\<close>

definition init_model ::
  "('m, 'o, 'a, 'c) schema \<Rightarrow> 'm \<Rightarrow> ('m, 'o, 'a, 'c) database \<Rightarrow> ('m, 'o, 'a, 'c) database" where
  "init_model C m s =
     (let n = sc_name C m;
          s1 = (if da_stores s n = None then s\<lparr>da_stores := (da_stores s)(n \<mapsto> sc_store C m)\<rparr> else s)
      in if da_catalogs s1 n = None then s1\<lparr>da_catalogs := (da_catalogs s1)(n \<mapsto> sc_catalog C m)\<rparr> else s1)"

text \<open>\<open>DB.__getitem__\<close>.\<close>

definition get_model ::
  "('m, 'o, 'a, 'c) schema \<Rightarrow> 'm \<Rightarrow> (('m, 'o, 'a, 'c) database, unit) meth" where
  "get_model C m s =
     (if \<not> sc_is_model C m then (Inl ModelException, s)
      else if m \<in> da_models s then (Inr (), s)
      else (Inr (), (init_model C m s)\<lparr>da_models := insert m (da_models s)\<rparr>))"

text \<open>The model's part of the database, and a method on it.\<close>

definition model_part ::
  "'o id_store \<Rightarrow> 'c \<Rightarrow> ('m, 'o, 'a, 'c) database \<Rightarrow> ('o, 'a, 'c) dbm" where
  "model_part st c s = \<lparr>dm_store = st, dm_catalog = c, dm_state = da_state s, dm_draws = da_draws s\<rparr>"

lemma model_part_simps [simp]:
  "dm_store (model_part st c s) = st" "dm_catalog (model_part st c s) = c"
  "dm_state (model_part st c s) = da_state s" "dm_draws (model_part st c s) = da_draws s"
  "stored (model_part st c s) = is_tree st"
  by (simp_all add: model_part_def stored_def)

definition put_part :: "string \<Rightarrow> ('o, 'a, 'c) dbm \<Rightarrow> ('m, 'o, 'a, 'c) database \<Rightarrow> ('m, 'o, 'a, 'c) database" where
  "put_part n d s = s\<lparr>da_stores := (da_stores s)(n \<mapsto> dm_store d), da_catalogs := (da_catalogs s)(n \<mapsto> dm_catalog d),
                      da_state := dm_state d, da_draws := dm_draws d\<rparr>"

definition on_part ::
  "string \<Rightarrow> (('o, 'a, 'c) dbm, 'b) meth \<Rightarrow> (('m, 'o, 'a, 'c) database, 'b) meth" where
  "on_part n f s =
     (case (da_stores s n, da_catalogs s n) of
        (Some st, Some c) \<Rightarrow> (case f (model_part st c s) of (r, d) \<Rightarrow> (r, put_part n d s))
      | _ \<Rightarrow> (Inl KeyError, s))"

definition types_of :: "('m, 'o, 'a, 'c) schema \<Rightarrow> 'm \<Rightarrow> 'o model_types" where
  "types_of C m = \<lparr>mt_exact = (\<lambda>obj. sc_class C obj = m), mt_instance = (\<lambda>obj. sc_instance C obj m)\<rparr>"

text \<open>\<open>DB.add\<close> of an object, and of a list. \<open>None\<close>: the random numbers are all taken (theory Db).\<close>

definition add_one ::
  "('m, 'o, 'a, 'c) schema \<Rightarrow> 'o \<Rightarrow> ('m, 'o, 'a, 'c) database \<Rightarrow> (int res \<times> ('m, 'o, 'a, 'c) database) option" where
  "add_one C obj s =
     (let m = sc_class C obj; n = sc_name C m in
      case get_model C m s of
        (Inl e, s1) \<Rightarrow> Some (Inl e, s1)
      | (Inr _, s1) \<Rightarrow>
          (case (da_stores s1 n, da_catalogs s1 n) of
             (Some st, Some c) \<Rightarrow>
               map_option (\<lambda>(r, d). (r, put_part n d s1)) (db_add (types_of C m) (sc_ops C m) obj (model_part st c s1))
           | _ \<Rightarrow> Some (Inl KeyError, s1)))"

fun add_many ::
  "('m, 'o, 'a, 'c) schema \<Rightarrow> 'o list \<Rightarrow> ('m, 'o, 'a, 'c) database \<Rightarrow> (int list res \<times> ('m, 'o, 'a, 'c) database) option" where
  "add_many C [] s = Some (Inr [], s)"
| "add_many C (obj # objs) s =
     (case add_one C obj s of
        None \<Rightarrow> None
      | Some (Inl e, s1) \<Rightarrow> Some (Inl e, s1)
      | Some (Inr uid, s1) \<Rightarrow> map_option (\<lambda>(r, s2). (bindr r (\<lambda>uids. Inr (uid # uids)), s2)) (add_many C objs s1))"

text \<open>\<open>DB.remove\<close>.\<close>

definition remove_one :: "('m, 'o, 'a, 'c) schema \<Rightarrow> 'o \<Rightarrow> (('m, 'o, 'a, 'c) database, unit) meth" where
  "remove_one C obj =
     (let m = sc_class C obj in
      m_bind (get_model C m) (\<lambda>_.
      m_bind (on_part (sc_name C m) (db_remove (types_of C m) (sc_ops C m) (Rm_Obj obj))) (\<lambda>_. m_return ())))"

definition database_remove :: "('m, 'o, 'a, 'c) schema \<Rightarrow> 'o db_arg \<Rightarrow> (('m, 'o, 'a, 'c) database, nat) meth" where
  "database_remove C arg =
     (case arg of
        One_Object obj \<Rightarrow> m_bind (remove_one C obj) (\<lambda>_. m_return 1)
      | Many_Objects objs \<Rightarrow> m_bind (m_each (remove_one C) objs) (\<lambda>_. m_return (length objs))
      | Other_Arg \<Rightarrow> m_raise ModelException)"

text \<open>\<open>DB.reindex\<close>.\<close>

definition reindex_object ::
  "('m, 'o, 'a, 'c) schema \<Rightarrow> attrs_arg \<Rightarrow> 'o \<Rightarrow> (('m, 'o, 'a, 'c) database, unit) meth" where
  "reindex_object C attributes obj =
     (let m = sc_class C obj in
      m_bind (get_model C m) (\<lambda>_.
        on_part (sc_name C m) (reindex_one (types_of C m) (sc_ops C m) (By_Obj obj) attributes)))"

definition database_reindex ::
  "('m, 'o, 'a, 'c) schema \<Rightarrow> 'o db_arg \<Rightarrow> attrs_arg \<Rightarrow> (('m, 'o, 'a, 'c) database, unit) meth" where
  "database_reindex C arg attributes =
     (case arg of
        One_Object obj \<Rightarrow> reindex_object C attributes obj
      | Many_Objects objs \<Rightarrow> m_each (reindex_object C attributes) objs
      | Other_Arg \<Rightarrow> m_raise TypeError)"

section \<open>All models in step\<close>

text \<open>
  What the models' classes promise: a catalog for each, as theory Db needs it, and an empty
  store and catalog to start with. Everything about a catalog depends on the model's name.
\<close>

locale database_schema =
  fixes C :: "('m, 'o, 'a, 'c) schema"
    and I :: "string \<Rightarrow> 'c \<Rightarrow> bool"
    and takes :: "string \<Rightarrow> 'a \<Rightarrow> bool"
    and view :: "string \<Rightarrow> 'c \<Rightarrow> string \<Rightarrow> int \<Rightarrow> 'v option"
    and val :: "string \<Rightarrow> string \<Rightarrow> 'a \<Rightarrow> 'v option"
    and flds :: "string \<Rightarrow> string set"
  assumes catalogs: "sc_is_model C m \<Longrightarrow>
      object_catalog (sc_ops C m) (I (sc_name C m)) (takes (sc_name C m)) (view (sc_name C m)) (val (sc_name C m)) (flds (sc_name C m))"
    and new_catalog: "sc_is_model C m \<Longrightarrow> I (sc_name C m) (sc_catalog C m)"
      "sc_is_model C m \<Longrightarrow> f \<in> flds (sc_name C m) \<Longrightarrow> view (sc_name C m) (sc_catalog C m) f d = None"
    and new_store: "sc_is_model C m \<Longrightarrow> store_inv (sc_store C m)" "sc_is_model C m \<Longrightarrow> is_tree (sc_store C m) = Map.empty"
    and own_class: "sc_instance C obj (sc_class C obj)"

text \<open>The objects of a model that are stored.\<close>

definition held :: "('m, 'o, 'a, 'c) database \<Rightarrow> string \<Rightarrow> int \<Rightarrow> 'o option" where
  "held s n = (case da_stores s n of None \<Rightarrow> Map.empty | Some st \<Rightarrow> is_tree st)"

definition all_synced ::
  "('m, 'o, 'a, 'c) schema \<Rightarrow> (string \<Rightarrow> 'c \<Rightarrow> bool) \<Rightarrow> (string \<Rightarrow> 'a \<Rightarrow> bool) \<Rightarrow> (string \<Rightarrow> 'c \<Rightarrow> string \<Rightarrow> int \<Rightarrow> 'v option)
     \<Rightarrow> (string \<Rightarrow> string \<Rightarrow> 'a \<Rightarrow> 'v option) \<Rightarrow> (string \<Rightarrow> string set) \<Rightarrow> ('m, 'o, 'a, 'c) database \<Rightarrow> bool" where
  "all_synced C I takes view val flds s \<longleftrightarrow> draws_ok (da_draws s) \<and>
     (\<forall>m \<in> da_models s. da_stores s (sc_name C m) \<noteq> None) \<and>
     (\<forall>n. da_stores s n = None \<longleftrightarrow> da_catalogs s n = None) \<and>
     (\<forall>n st c. da_stores s n = Some st \<longrightarrow> da_catalogs s n = Some c \<longrightarrow>
        db_synced (I n) (takes n) (view n) (val n) (flds n) (model_part st c s)) \<and>
     (\<forall>n. \<forall>obj \<in> ran (held s n). sc_name C (sc_class C obj) = n)"

context database_schema
begin

abbreviation "ok \<equiv> all_synced C I takes view val flds"

lemma ok_maps: "ok s \<Longrightarrow> da_stores s n = None \<longleftrightarrow> da_catalogs s n = None"
  by (simp add: all_synced_def)

lemma ok_own: "ok s \<Longrightarrow> held s n d = Some obj \<Longrightarrow> sc_name C (sc_class C obj) = n"
  unfolding all_synced_def by (blast intro: ranI)

lemma held_unique:
  assumes "ok s" "held s n u = Some obj" "held s n v = Some obj"
  shows "u = v"
proof -
  obtain st where st: "da_stores s n = Some st" using assms(2) by (auto simp: held_def split: option.splits)
  then obtain c where "da_catalogs s n = Some c" using ok_maps [OF assms(1), of n] by auto
  then have "linked (model_part st c s)" using assms(1) st by (simp add: all_synced_def db_synced_def)
  from linked_unique [OF this] show ?thesis using assms(2,3) st by (simp add: held_def)
qed

lemma get_model_ok:
  assumes "ok s" "sc_is_model C m"
  shows "\<exists>s1 st c. get_model C m s = (Inr (), s1) \<and> ok s1 \<and> held s1 = held s \<and> da_state s1 = da_state s
    \<and> da_draws s1 = da_draws s \<and> da_stores s1 (sc_name C m) = Some st \<and> da_catalogs s1 (sc_name C m) = Some c"
proof (cases "m \<in> da_models s")
  case True
  then have "da_stores s (sc_name C m) \<noteq> None" using assms(1) unfolding all_synced_def by blast
  then obtain st c where "da_stores s (sc_name C m) = Some st" "da_catalogs s (sc_name C m) = Some c"
    using ok_maps [OF assms(1), of "sc_name C m"] by auto
  then show ?thesis using assms True by (simp add: get_model_def)
next
  case False
  let ?n = "sc_name C m"
  let ?s = "(init_model C m s)\<lparr>da_models := insert m (da_models s)\<rparr>"
  have r: "get_model C m s = (Inr (), ?s)" using assms(2) False by (simp add: get_model_def)
  have same: "da_state ?s = da_state s" "da_draws ?s = da_draws s" by (simp_all add: init_model_def Let_def)
  have part: "model_part st c ?s = model_part st c s" for st c by (simp add: model_part_def same)
  show ?thesis
  proof (cases "da_stores s ?n")
    case None
    then have "da_catalogs s ?n = None" using assms(1) by (simp add: all_synced_def)
    then have maps: "da_stores ?s = (da_stores s)(?n \<mapsto> sc_store C m)" "da_catalogs ?s = (da_catalogs s)(?n \<mapsto> sc_catalog C m)"
      using None by (simp_all add: init_model_def Let_def)
    have "db_synced (I ?n) (takes ?n) (view ?n) (val ?n) (flds ?n) (model_part (sc_store C m) (sc_catalog C m) s)"
      using new_catalog [OF assms(2)] new_store [OF assms(2)] assms(1)
      by (simp add: db_synced_def linked_def mirrors_def all_synced_def)
    moreover have held: "held ?s = held s" using None new_store(2) [OF assms(2)] by (auto simp: held_def maps fun_eq_iff)
    ultimately have "ok ?s"
      using assms(1) unfolding all_synced_def held unfolding maps part same by auto
    then show ?thesis using r maps same held by auto
  next
    case (Some st)
    then obtain c where c: "da_catalogs s ?n = Some c" using ok_maps [OF assms(1), of ?n] by auto
    then have maps: "da_stores ?s = da_stores s" "da_catalogs ?s = da_catalogs s"
      using Some by (simp_all add: init_model_def Let_def)
    have models: "da_models ?s = insert m (da_models s)" by simp
    have "da_stores s ?n \<noteq> None" using Some by simp
    moreover have held: "held ?s = held s" unfolding held_def maps ..
    ultimately have "ok ?s" using assms(1) unfolding all_synced_def held unfolding maps part same models by blast
    then show ?thesis using r maps same Some c held by auto
  qed
qed

text \<open>A change of one model's part that leaves the contents of other models' objects alone.\<close>

lemma put_part_ok:
  assumes "ok s" "da_stores s n \<noteq> None" "\<forall>obj. sc_name C (sc_class C obj) \<noteq> n \<longrightarrow> dm_state d obj = da_state s obj"
    and "draws_ok (dm_draws d)" "db_synced (I n) (takes n) (view n) (val n) (flds n) d"
    and "\<forall>obj \<in> ran (stored d). sc_name C (sc_class C obj) = n"
  shows "ok (put_part n d s) \<and> held (put_part n d s) = (held s)(n := stored d) \<and> da_state (put_part n d s) = dm_state d"
proof -
  let ?s = "put_part n d s"
  have d: "model_part (dm_store d) (dm_catalog d) ?s = d" by (simp add: model_part_def put_part_def)
  have "db_synced (I k) (takes k) (view k) (val k) (flds k) (model_part st c ?s)"
    if k: "da_stores ?s k = Some st" "da_catalogs ?s k = Some c" for k st c
  proof (cases "k = n")
    case True
    then have "st = dm_store d" "c = dm_catalog d" using k by (simp_all add: put_part_def)
    then show ?thesis using True d assms(5) by simp
  next
    case False
    then have "db_synced (I k) (takes k) (view k) (val k) (flds k) (model_part st c s)"
      using k assms(1) by (simp add: put_part_def all_synced_def)
    moreover have "dm_state d obj = da_state s obj" if o: "is_tree st e = Some obj" for e obj
    proof -
      have "held s k e = Some obj" using k(1) False o by (simp add: held_def put_part_def)
      then have "sc_name C (sc_class C obj) = k" by (rule ok_own [OF assms(1)])
      then show ?thesis using False assms(3) by simp
    qed
    ultimately show ?thesis
      using assms(4)
      by (simp add: db_synced_def linked_def mirrors_def put_part_def cong: option.case_cong)
  qed
  moreover have "(da_stores ?s k = None) = (da_catalogs ?s k = None)" for k
    using assms(1) by (simp add: put_part_def all_synced_def)
  moreover have "\<forall>m \<in> da_models ?s. da_stores ?s (sc_name C m) \<noteq> None"
    using assms(1) by (simp add: put_part_def all_synced_def)
  moreover have held: "held ?s = (held s)(n := stored d)" by (auto simp: put_part_def held_def stored_def fun_eq_iff)
  moreover have "\<forall>k. \<forall>obj \<in> ran (held ?s k). sc_name C (sc_class C obj) = k"
    unfolding held using assms(1,6) by (simp add: all_synced_def)
  moreover have "draws_ok (da_draws ?s)" using assms(4) by (simp add: put_part_def)
  ultimately have "ok ?s" unfolding all_synced_def by blast
  then show ?thesis using held by (simp add: put_part_def)
qed

lemma part_synced: "ok s \<Longrightarrow> da_stores s n = Some st \<Longrightarrow> da_catalogs s n = Some c \<Longrightarrow>
  db_synced (I n) (takes n) (view n) (val n) (flds n) (model_part st c s)"
  by (simp add: all_synced_def)

lemma add_one_ok:
  assumes "ok s" "sc_is_model C (sc_class C obj)" "obj \<notin> ran (held s (sc_name C (sc_class C obj)))"
    and "takes (sc_name C (sc_class C obj)) (da_state s obj)" "add_one C obj s = Some (r, s')"
  shows "ok s' \<and> da_state s' = da_state s \<and> (\<exists>uid. r = Inr uid \<and> held s (sc_name C (sc_class C obj)) uid = None \<and>
    held s' = (held s)(sc_name C (sc_class C obj) := (held s (sc_name C (sc_class C obj)))(uid \<mapsto> obj)))"
proof -
  let ?m = "sc_class C obj" and ?n = "sc_name C (sc_class C obj)"
  obtain s1 st c where g: "get_model C ?m s = (Inr (), s1)" "ok s1" "held s1 = held s" "da_state s1 = da_state s"
    "da_stores s1 ?n = Some st" "da_catalogs s1 ?n = Some c"
    using get_model_ok [OF assms(1,2)] by blast
  then obtain d where d: "db_add (types_of C ?m) (sc_ops C ?m) obj (model_part st c s1) = Some (r, d)" "s' = put_part ?n d s1"
    using assms(5) by (auto simp: add_one_def Let_def)
  have st: "stored (model_part st c s1) = held s ?n" using g(5) by (simp add: held_def flip: g(3))
  have "takes ?n (dm_state (model_part st c s1) obj)" using assms(4) g(4) by simp
  from object_catalog.add_synced [OF catalogs [OF assms(2)] part_synced [OF g(2,5,6)] _ this _ d(1)] assms(3)
  obtain uid where R: "db_synced (I ?n) (takes ?n) (view ?n) (val ?n) (flds ?n) d" "r = Inr uid"
    "held s ?n uid = None" "stored d = (held s ?n)(uid \<mapsto> obj)" "dm_state d = da_state s1"
    unfolding st by (auto simp: types_of_def)
  have "draws_ok (dm_draws d)" using R(1) by (simp add: db_synced_def linked_def)
  moreover have "\<forall>x \<in> ran (stored d). sc_name C (sc_class C x) = ?n"
    using ok_own [OF assms(1), of ?n] unfolding R(4) by (auto simp: ran_def split: if_splits)
  ultimately have "ok s' \<and> held s' = (held s1)(?n := stored d) \<and> da_state s' = dm_state d"
    unfolding d(2) using g(5) by (intro put_part_ok [OF g(2)] R(1)) (simp_all add: R(5))
  then show ?thesis using R(2,3) by (simp add: g(3,4) R(4,5))
qed

lemma remove_one_ok:
  assumes "ok s" "sc_is_model C (sc_class C obj)" "obj \<in> ran (held s (sc_name C (sc_class C obj)))" "remove_one C obj s = (r, s')"
  shows "ok s' \<and> da_state s' = da_state s \<and> r = Inr () \<and> (\<exists>uid. held s (sc_name C (sc_class C obj)) uid = Some obj \<and>
    held s' = (held s)(sc_name C (sc_class C obj) := (held s (sc_name C (sc_class C obj)))(uid := None)))"
proof -
  let ?m = "sc_class C obj" and ?n = "sc_name C (sc_class C obj)"
  obtain s1 st c where g: "get_model C ?m s = (Inr (), s1)" "ok s1" "held s1 = held s" "da_state s1 = da_state s"
    "da_stores s1 ?n = Some st" "da_catalogs s1 ?n = Some c"
    using get_model_ok [OF assms(1,2)] by blast
  let ?d = "model_part st c s1"
  have syn: "db_synced (I ?n) (takes ?n) (view ?n) (val ?n) (flds ?n) ?d" by (rule part_synced [OF g(2,5,6)])
  have st: "stored ?d = held s ?n" using g(5) by (simp add: held_def flip: g(3))
  obtain uid where uid: "held s ?n uid = Some obj" using assms(3) by (auto simp: ran_def)
  then have "is_uids (dm_store ?d) obj = Some (Some uid)" using syn unfolding db_synced_def linked_def st by blast
  then have rm: "db_remove (types_of C ?m) (sc_ops C ?m) (Rm_Obj obj) ?d = remove_uid (sc_ops C ?m) uid ?d" by (simp add: types_of_def)
  obtain r' d where d: "remove_uid (sc_ops C ?m) uid ?d = (r', d)" by fastforce
  from object_catalog.remove_uid_synced [OF catalogs [OF assms(2)] syn d]
  have R: "db_synced (I ?n) (takes ?n) (view ?n) (val ?n) (flds ?n) d" "stored d = (held s ?n)(uid := None)"
    "dm_state d = da_state s1" "r' = Inr 1"
    using uid unfolding st by simp_all
  have s': "r = Inr ()" "s' = put_part ?n d s1"
    using assms(4) g(1,5,6) rm d R(4) by (simp_all add: remove_one_def Let_def m_bind_def on_part_def m_return_def)
  have "draws_ok (dm_draws d)" using R(1) by (simp add: db_synced_def linked_def)
  moreover have "\<forall>x \<in> ran (stored d). sc_name C (sc_class C x) = ?n"
    using ok_own [OF assms(1), of ?n] unfolding R(2) by (auto simp: ran_def split: if_splits)
  ultimately have "ok s' \<and> held s' = (held s1)(?n := stored d) \<and> da_state s' = dm_state d"
    unfolding s'(2) using g(5) by (intro put_part_ok [OF g(2)] R(1)) (simp_all add: R(3))
  then show ?thesis using uid s'(1) by (auto simp: g(3,4) R(2,3))
qed

lemma add_many_ok:
  assumes "add_many C objs s = Some (r, s')" "ok s" "distinct objs"
    and "\<forall>obj \<in> set objs. sc_is_model C (sc_class C obj) \<and> takes (sc_name C (sc_class C obj)) (da_state s obj) \<and>
      obj \<notin> ran (held s (sc_name C (sc_class C obj)))"
  shows "ok s' \<and> da_state s' = da_state s \<and> (\<exists>uids. r = Inr uids \<and>
    list_all2 (\<lambda>uid obj. held s (sc_name C (sc_class C obj)) uid = None \<and> held s' (sc_name C (sc_class C obj)) uid = Some obj) uids objs)
    \<and> (\<forall>n. held s n \<subseteq>\<^sub>m held s' n \<and> ran (held s' n) = ran (held s n) \<union> {obj \<in> set objs. sc_name C (sc_class C obj) = n})"
  using assms
proof (induction objs arbitrary: s r)
  case (Cons obj objs)
  let ?n = "\<lambda>obj. sc_name C (sc_class C obj)"
  obtain r1 s1 where a: "add_one C obj s = Some (r1, s1)" using Cons.prems(1) by (auto split: option.splits)
  have "sc_is_model C (sc_class C obj)" "obj \<notin> ran (held s (?n obj))" "takes (?n obj) (da_state s obj)"
    using Cons.prems(4) by simp_all
  from add_one_ok [OF Cons.prems(2) this a]
  obtain uid where R: "ok s1" "da_state s1 = da_state s" "r1 = Inr uid" "held s (?n obj) uid = None"
    "held s1 = (held s)(?n obj := (held s (?n obj))(uid \<mapsto> obj))" by blast
  obtain r2 where b: "add_many C objs s1 = Some (r2, s')" "r = bindr r2 (\<lambda>uids. Inr (uid # uids))"
    using Cons.prems(1) a R(3) by (auto split: option.splits)
  have ran1: "ran (held s1 n) = ran (held s n) \<union> (if ?n obj = n then {obj} else {})" for n
    using R(4) by (auto simp: R(5) ran_map_upd)
  have le1: "held s n \<subseteq>\<^sub>m held s1 n" for n using R(4) by (auto simp: R(5) map_le_def)
  have "\<forall>x \<in> set objs. sc_is_model C (sc_class C x) \<and> takes (?n x) (da_state s1 x) \<and> x \<notin> ran (held s1 (?n x))"
    using Cons.prems(3,4) unfolding ran1 R(2) by auto
  have "distinct objs" using Cons.prems(3) by simp
  note I = Cons.IH [OF b(1) R(1) this \<open>\<forall>x \<in> set objs. _\<close>, unfolded R(2)]
  obtain uids where S: "ok s'" "da_state s' = da_state s" "r2 = Inr uids"
    "list_all2 (\<lambda>uid obj. held s1 (?n obj) uid = None \<and> held s' (?n obj) uid = Some obj) uids objs"
    "\<forall>n. held s1 n \<subseteq>\<^sub>m held s' n \<and> ran (held s' n) = ran (held s1 n) \<union> {obj \<in> set objs. ?n obj = n}"
    using I by blast
  have "held s1 (?n obj) uid = Some obj" by (simp add: R(5))
  moreover have "held s1 (?n obj) \<subseteq>\<^sub>m held s' (?n obj)" using S(5) by blast
  ultimately have "held s' (?n obj) uid = Some obj" unfolding map_le_def by (metis domI)
  moreover have none: "held s n u = None" if "held s1 n u = None" for n u
    using le1 [of n] that by (metis domIff map_le_def)
  have "list_all2 (\<lambda>uid obj. held s (?n obj) uid = None \<and> held s' (?n obj) uid = Some obj) uids objs"
    by (rule list_all2_mono [OF S(4)]) (use none in blast)
  ultimately have uids: "r = Inr (uid # uids)"
    "list_all2 (\<lambda>uid obj. held s (?n obj) uid = None \<and> held s' (?n obj) uid = Some obj) (uid # uids) (obj # objs)"
    using S(3) R(4) b(2) by simp_all
  have "held s n \<subseteq>\<^sub>m held s' n" for n using le1 [of n] S(5) map_le_trans by blast
  moreover have "ran (held s' n) = ran (held s n) \<union> {x \<in> set (obj # objs). ?n x = n}" for n
    using S(5) unfolding ran1 by auto
  ultimately have "\<forall>n. held s n \<subseteq>\<^sub>m held s' n \<and>
      ran (held s' n) = ran (held s n) \<union> {x \<in> set (obj # objs). ?n x = n}" by (intro allI conjI)
  then show ?case using S(1,2) by (intro conjI exI [where x = "uid # uids"] uids)
qed simp

lemma remove_many_ok:
  assumes "m_each (remove_one C) objs s = (r, s')" "ok s" "distinct objs"
    and "\<forall>obj \<in> set objs. sc_is_model C (sc_class C obj) \<and> obj \<in> ran (held s (sc_name C (sc_class C obj)))"
  shows "ok s' \<and> da_state s' = da_state s \<and> r = Inr () \<and>
    (\<forall>n uid. held s' n uid = (case held s n uid of None \<Rightarrow> None
       | Some obj \<Rightarrow> if obj \<in> set objs \<and> sc_name C (sc_class C obj) = n then None else Some obj))"
  using assms
proof (induction objs arbitrary: s)
  case Nil
  then show ?case by (auto simp: m_return_def split: option.splits)
next
  case (Cons obj objs)
  let ?n = "\<lambda>obj. sc_name C (sc_class C obj)"
  obtain r1 s1 where a: "remove_one C obj s = (r1, s1)" by fastforce
  have "sc_is_model C (sc_class C obj)" "obj \<in> ran (held s (?n obj))" using Cons.prems(4) by simp_all
  from remove_one_ok [OF Cons.prems(2) this a]
  obtain uid where R: "ok s1" "da_state s1 = da_state s" "r1 = Inr ()" "held s (?n obj) uid = Some obj"
    "held s1 = (held s)(?n obj := (held s (?n obj))(uid := None))" by blast
  have only: "u = uid" if "held s (?n obj) u = Some obj" for u
    using held_unique [OF Cons.prems(2) that R(4)] .
  have b: "m_each (remove_one C) objs s1 = (r, s')" using Cons.prems(1) a R(3) by (simp add: m_bind_def)
  have "x \<in> ran (held s1 (?n x))" if x: "x \<in> set objs" for x
  proof -
    obtain u where u: "held s (?n x) u = Some x" using Cons.prems(4) x by (auto simp: ran_def)
    moreover have "x \<noteq> obj" using x Cons.prems(3) by auto
    then have "\<not> (?n x = ?n obj \<and> u = uid)" using u R(4) by auto
    ultimately have "held s1 (?n x) u = Some x" by (auto simp: R(5))
    then show ?thesis by (rule ranI)
  qed
  then have "\<forall>x \<in> set objs. sc_is_model C (sc_class C x) \<and> x \<in> ran (held s1 (?n x))" using Cons.prems(4) by simp
  from Cons.IH [OF b R(1) _ this] Cons.prems(3)
  have S: "ok s'" "da_state s' = da_state s" "r = Inr ()"
    "\<forall>n uid. held s' n uid = (case held s1 n uid of None \<Rightarrow> None
       | Some obj \<Rightarrow> if obj \<in> set objs \<and> ?n obj = n then None else Some obj)"
    using R(2) by auto
  have "held s' n u = (case held s n u of None \<Rightarrow> None
       | Some x \<Rightarrow> if x \<in> set (obj # objs) \<and> ?n x = n then None else Some x)" for n u
  proof (cases "n = ?n obj \<and> u = uid")
    case True
    then show ?thesis unfolding S(4) [rule_format] using R(4) by (simp add: R(5))
  next
    case False
    then have "held s1 n u = held s n u" by (auto simp: R(5))
    moreover have "x \<noteq> obj" if "held s n u = Some x" "?n x = n" for x using False only that by blast
    ultimately show ?thesis unfolding S(4) [rule_format] by (auto split: option.splits)
  qed
  then show ?case using S by simp
qed

text \<open>Reindexing reads only the object's own contents.\<close>

lemma reindex_one_state:
  assumes "f obj = g obj" "reindex_one T ops (By_Obj obj) attributes (d\<lparr>dm_state := g\<rparr>) = (r, d')"
  shows "reindex_one T ops (By_Obj obj) attributes (d\<lparr>dm_state := f\<rparr>) = (r, d'\<lparr>dm_state := f\<rparr>) \<and> dm_state d' = g"
  using assms by (auto simp: reindex_one_def on_catalog_def split: if_splits option.splits prod.splits)

lemma get_model_state:
  "get_model C m s = (r, s1) \<Longrightarrow> get_model C m (s\<lparr>da_state := f\<rparr>) = (r, s1\<lparr>da_state := f\<rparr>)"
  by (auto simp: get_model_def init_model_def Let_def split: if_splits)

lemma model_part_state: "model_part st c (s\<lparr>da_state := f\<rparr>) = (model_part st c s)\<lparr>dm_state := f\<rparr>"
  by (simp add: model_part_def)

lemma reindex_object_ok:
  assumes "ok s" "sc_is_model C (sc_class C obj)" "obj \<in> ran (held s (sc_name C (sc_class C obj)))"
    and "takes (sc_name C (sc_class C obj)) (f obj)" "reindex_object C All_Attrs obj (s\<lparr>da_state := f\<rparr>) = (r, s')"
  shows "r = Inr () \<and> da_state s' = f \<and> (\<exists>t. s' = t\<lparr>da_state := f\<rparr> \<and> ok t \<and> held t = held s
    \<and> da_state t = (da_state s)(obj := f obj))"
proof -
  let ?m = "sc_class C obj" and ?n = "sc_name C (sc_class C obj)"
  obtain s1 st c where g: "get_model C ?m s = (Inr (), s1)" "ok s1" "held s1 = held s" "da_state s1 = da_state s"
    "da_stores s1 ?n = Some st" "da_catalogs s1 ?n = Some c"
    using get_model_ok [OF assms(1,2)] by blast
  let ?d = "model_part st c s1" and ?g = "(da_state s)(obj := f obj)"
  have st: "stored ?d = held s ?n" using g(5) by (simp add: held_def flip: g(3))
  obtain uid where uid: "stored ?d uid = Some obj" using assms(3) st by (auto simp: ran_def)
  obtain r' d where d: "reindex_one (types_of C ?m) (sc_ops C ?m) (By_Obj obj) All_Attrs (?d\<lparr>dm_state := ?g\<rparr>) = (r', d)"
    by fastforce
  have inst: "mt_instance (types_of C ?m) obj" using own_class by (simp add: types_of_def)
  have "reindex_one (types_of C ?m) (sc_ops C ?m) (By_Obj obj) All_Attrs (?d\<lparr>dm_state := (dm_state ?d)(obj := f obj)\<rparr>) = (r', d)"
    using d g(4) by simp
  note R = object_catalog.edit_one [OF catalogs [OF assms(2)] part_synced [OF g(2,5,6)] uid inst assms(4) this]
  have f: "reindex_one (types_of C ?m) (sc_ops C ?m) (By_Obj obj) All_Attrs (?d\<lparr>dm_state := f\<rparr>) = (r', d\<lparr>dm_state := f\<rparr>)"
    using reindex_one_state [OF _ d, of f] by simp
  let ?t = "put_part ?n d s1"
  have "put_part ?n (d\<lparr>dm_state := f\<rparr>) (s1\<lparr>da_state := f\<rparr>) = ?t\<lparr>da_state := f\<rparr>"
    by (simp add: put_part_def)
  then have s': "r = r'" "s' = ?t\<lparr>da_state := f\<rparr>"
    using assms(5) get_model_state [OF g(1), of f] g(5,6) f
    by (simp_all add: reindex_object_def Let_def m_bind_def on_part_def model_part_state)
  have "draws_ok (dm_draws d)" using R by (simp add: db_synced_def linked_def)
  moreover have "\<forall>x \<in> ran (stored d). sc_name C (sc_class C x) = ?n"
    using R ok_own [OF assms(1), of ?n] st by (auto simp: ran_def)
  moreover have "\<forall>x. sc_name C (sc_class C x) \<noteq> ?n \<longrightarrow> dm_state d x = da_state s1 x" using R by auto
  ultimately have "ok ?t \<and> held ?t = (held s1)(?n := stored d) \<and> da_state ?t = dm_state d"
    using put_part_ok [OF g(2)] g(5) R by simp
  then show ?thesis using R st g(3,4) s' by (intro conjI exI [where x = ?t]) (auto simp: fun_upd_idem)
qed

lemma reindex_many_ok:
  assumes "m_each (reindex_object C All_Attrs) objs (s\<lparr>da_state := \<lambda>obj. if obj \<in> set objs then new obj else da_state s obj\<rparr>) = (r, s')"
    and "ok s" and "\<forall>obj \<in> set objs. sc_is_model C (sc_class C obj) \<and> obj \<in> ran (held s (sc_name C (sc_class C obj)))
      \<and> takes (sc_name C (sc_class C obj)) (new obj)"
  shows "r = Inr () \<and> ok s' \<and> held s' = held s \<and> da_state s' = (\<lambda>obj. if obj \<in> set objs then new obj else da_state s obj)"
  using assms
proof (induction objs arbitrary: s)
  case Nil
  then show ?case by (simp add: m_return_def)
next
  case (Cons obj objs)
  let ?f = "\<lambda>x. if x \<in> set (obj # objs) then new x else da_state s x"
  obtain r1 s1 where a: "reindex_object C All_Attrs obj (s\<lparr>da_state := ?f\<rparr>) = (r1, s1)" by fastforce
  have "takes (sc_name C (sc_class C obj)) (?f obj)" "sc_is_model C (sc_class C obj)" "obj \<in> ran (held s (sc_name C (sc_class C obj)))"
    using Cons.prems(3) by simp_all
  from reindex_object_ok [OF Cons.prems(2) this(2,3,1) a]
  obtain t where t: "r1 = Inr ()" "s1 = t\<lparr>da_state := ?f\<rparr>" "ok t" "held t = held s" "da_state t = (da_state s)(obj := new obj)"
    by auto
  have f: "?f = (\<lambda>x. if x \<in> set objs then new x else da_state t x)" by (auto simp: t(5))
  have b: "m_each (reindex_object C All_Attrs) objs (t\<lparr>da_state := \<lambda>x. if x \<in> set objs then new x else da_state t x\<rparr>) = (r, s')"
    using Cons.prems(1) a t(1,2) unfolding f by (simp add: m_bind_def)
  have "\<forall>x \<in> set objs. sc_is_model C (sc_class C x) \<and> x \<in> ran (held t (sc_name C (sc_class C x)))
      \<and> takes (sc_name C (sc_class C x)) (new x)"
    using Cons.prems(3) by (simp add: t(4))
  from Cons.IH [OF b t(3) this] show ?case unfolding f by (simp add: t(4))
qed

end

section \<open>Models with field indexes\<close>

text \<open>
  Classes whose catalogs are field indexes (theory Db), one family of indexes for each name;
  \<open>below\<close> is the subclass relation and \<open>uids\<close> the \<open>_p_uid\<close> of the objects there are.
\<close>

definition field_schema ::
  "('m \<Rightarrow> bool) \<Rightarrow> ('m \<Rightarrow> string) \<Rightarrow> ('o \<Rightarrow> 'm) \<Rightarrow> ('m \<Rightarrow> 'm \<Rightarrow> bool) \<Rightarrow> (string \<Rightarrow> ('a, 'v) object_model)
     \<Rightarrow> (string \<Rightarrow> (string \<times> discriminator) list) \<Rightarrow> ('o \<Rightarrow> int option option) \<Rightarrow> ('m, 'o, 'a, 'v field_catalog) schema" where
  "field_schema models name cls below M ixs uids =
     \<lparr>sc_is_model = models, sc_name = name, sc_class = cls,
      sc_instance = (\<lambda>obj m. cls obj = m \<or> below (cls obj) m),
      sc_ops = (\<lambda>m. field_catalog_ops (M (name m)) (AList.clearjunk (ixs (name m)))),
      sc_store = (\<lambda>m. new_id_store uids), sc_catalog = (\<lambda>m _. new_field_index)\<rparr>"

interpretation field_models: database_schema "field_schema models name cls below M ixs uids" "\<lambda>_. field_catalog_inv"
    "\<lambda>n. field_takes (M n) (AList.clearjunk (ixs n))" "\<lambda>_. field_view"
    "\<lambda>n. field_val (M n) (AList.clearjunk (ixs n))" "\<lambda>n. fst ` set (AList.clearjunk (ixs n))"
  for models :: "'m \<Rightarrow> bool" and name cls below and M :: "string \<Rightarrow> ('a, 'v) object_model" and ixs
    and uids :: "'o \<Rightarrow> int option option"
proof (rule database_schema.intro)
  fix m :: 'm
  assume "sc_is_model (field_schema models name cls below M ixs uids) m"
  show "object_catalog (sc_ops (field_schema models name cls below M ixs uids) m) field_catalog_inv
      (field_takes (M (sc_name (field_schema models name cls below M ixs uids) m))
        (AList.clearjunk (ixs (sc_name (field_schema models name cls below M ixs uids) m)))) field_view
      (field_val (M (sc_name (field_schema models name cls below M ixs uids) m))
        (AList.clearjunk (ixs (sc_name (field_schema models name cls below M ixs uids) m))))
      (fst ` set (AList.clearjunk (ixs (sc_name (field_schema models name cls below M ixs uids) m))))"
    using field_catalog.object_catalog_axioms by (simp add: field_schema_def)
qed (use new_field_index_inv in \<open>auto simp: field_schema_def field_catalog_inv_def field_view_def new_field_index_def
      store_inv_def new_id_store_def\<close>)

section \<open>Properties\<close>

text \<open>A database without models.\<close>

definition new_database :: "('o \<Rightarrow> 'a) \<Rightarrow> int list \<Rightarrow> ('m, 'o, 'a, 'c) database" where
  "new_database contents draws =
     \<lparr>da_stores = (\<lambda>_. None), da_catalogs = (\<lambda>_. None), da_models = {}, da_state = contents, da_draws = draws\<rparr>"

lemma new_database_synced: "draws_ok draws \<Longrightarrow> all_synced C I takes view val flds (new_database contents draws)"
  by (simp add: all_synced_def new_database_def held_def)

text \<open>
  C13: Objects of any number of models, mixed in one list: \<open>add\<close> stores each in the model of
  its class, under an id that was free there, and returns the ids in order; every catalog
  shows exactly the objects stored; the objects that were there stay where they are.
  Removing the list returns its length and gives back the database that was before it.
\<close>

theorem database_roundtrip:
  assumes C: "database_schema C I takes view val flds" and s: "all_synced C I takes view val flds s"
    and objs: "distinct objs" "\<forall>obj \<in> set objs. sc_is_model C (sc_class C obj) \<and>
      takes (sc_name C (sc_class C obj)) (da_state s obj) \<and> obj \<notin> ran (held s (sc_name C (sc_class C obj)))"
    and add: "add_many C objs s = Some (r1, s1)"
    and remove: "database_remove C (Many_Objects objs) s1 = (r2, s2)"
  shows "(\<exists>uids. r1 = Inr uids \<and>
      list_all2 (\<lambda>uid obj. held s (sc_name C (sc_class C obj)) uid = None \<and>
        held s1 (sc_name C (sc_class C obj)) uid = Some obj) uids objs) \<and>
    all_synced C I takes view val flds s1 \<and> (\<forall>n. held s n \<subseteq>\<^sub>m held s1 n) \<and>
    r2 = Inr (length objs) \<and> all_synced C I takes view val flds s2 \<and> held s2 = held s"
proof -
  note A = database_schema.add_many_ok [OF C add s objs]
  then have A': "\<And>n. held s n \<subseteq>\<^sub>m held s1 n" "all_synced C I takes view val flds s1"
    "\<And>n. ran (held s1 n) = ran (held s n) \<union> {obj \<in> set objs. sc_name C (sc_class C obj) = n}" by blast+
  obtain r3 where r3: "m_each (remove_one C) objs s1 = (r3, s2)" "r2 = bindr r3 (\<lambda>_. Inr (length objs))"
    using remove by (cases "m_each (remove_one C) objs s1")
      (auto simp: database_remove_def m_bind_def m_return_def split: sum.splits)
  have "\<forall>obj \<in> set objs. sc_is_model C (sc_class C obj) \<and> obj \<in> ran (held s1 (sc_name C (sc_class C obj)))"
    using objs(2) A'(3) by blast
  note B = database_schema.remove_many_ok [OF C r3(1) A'(2) objs(1) this]
  have "held s2 n u = held s n u" for n u
  proof (cases "held s1 n u")
    case None
    then have "held s n u = None" using A'(1) [of n] by (metis domIff map_le_def)
    then show ?thesis using B None by simp
  next
    case (Some obj)
    have "held s n u = None" if "obj \<in> set objs" "sc_name C (sc_class C obj) = n"
    proof (rule ccontr)
      assume "held s n u \<noteq> None"
      then have "held s n u = Some obj" using A'(1) [of n] Some by (metis domIff map_le_def)
      then show False using objs(2) that by (auto simp: ran_def)
    qed
    moreover have "held s n u = Some obj" if "\<not> (obj \<in> set objs \<and> sc_name C (sc_class C obj) = n)"
    proof -
      have "obj \<in> ran (held s n)" using A'(3) [of n] ranI [of "held s1 n" u obj] Some that by blast
      then obtain v where v: "held s n v = Some obj" by (auto simp: ran_def)
      then have "held s1 n v = Some obj" using A'(1) [of n] by (metis domI map_le_def)
      then have "v = u" using database_schema.held_unique [OF C A'(2)] Some by blast
      then show ?thesis using v by simp
    qed
    ultimately show ?thesis using B Some by auto
  qed
  then show ?thesis using A B r3(2) by (auto simp: fun_eq_iff)
qed

text \<open>
  C14: The contents of stored objects, of any models, change in any way. Reindexing these objects
  returns, moves none of them, and puts every index of every model in step again: it has
  exactly the stored objects with their present values.
\<close>

theorem database_reindexes_objects:
  assumes C: "database_schema C I takes view val flds" and s: "all_synced C I takes view val flds s"
    and objs: "\<forall>obj \<in> set objs. sc_is_model C (sc_class C obj) \<and>
      obj \<in> ran (held s (sc_name C (sc_class C obj))) \<and> takes (sc_name C (sc_class C obj)) (new obj)"
    and reindex: "database_reindex C (Many_Objects objs) All_Attrs
      (s\<lparr>da_state := \<lambda>obj. if obj \<in> set objs then new obj else da_state s obj\<rparr>) = (r, s')"
  shows "r = Inr () \<and> held s' = held s \<and> all_synced C I takes view val flds s' \<and>
    (\<forall>n st c. da_stores s' n = Some st \<longrightarrow> da_catalogs s' n = Some c \<longrightarrow> (\<forall>f \<in> flds n. \<forall>d. view n c f d =
      (case held s n d of None \<Rightarrow> None
       | Some obj \<Rightarrow> val n f (if obj \<in> set objs then new obj else da_state s obj))))"
proof -
  have "m_each (reindex_object C All_Attrs) objs
      (s\<lparr>da_state := \<lambda>obj. if obj \<in> set objs then new obj else da_state s obj\<rparr>) = (r, s')"
    using reindex by (simp add: database_reindex_def)
  from database_schema.reindex_many_ok [OF C this s objs]
  have R: "r = Inr ()" "all_synced C I takes view val flds s'" "held s' = held s"
    "da_state s' = (\<lambda>obj. if obj \<in> set objs then new obj else da_state s obj)" by blast+
  have "view n c f d = (case held s n d of None \<Rightarrow> None
       | Some obj \<Rightarrow> val n f (if obj \<in> set objs then new obj else da_state s obj))"
    if n: "da_stores s' n = Some st" "da_catalogs s' n = Some c" and f: "f \<in> flds n" for n st c f d
  proof -
    have "mirrors (view n) (val n) (flds n) (model_part st c s')"
      using database_schema.part_synced [OF C R(2) n] by (simp add: db_synced_def)
    moreover have "is_tree st = held s n" using n(1) by (simp add: held_def flip: R(3))
    ultimately show ?thesis using f by (simp add: mirrors_def R(4) cong: option.case_cong)
  qed
  then show ?thesis using R by blast
qed

section \<open>Witnesses\<close>

text \<open>Two models, of the even and of the odd numbers.\<close>

definition two_models :: "(bool, nat, int option, int field_catalog) schema" where
  "two_models = field_schema (\<lambda>_. True) (\<lambda>m. if m then ''even'' else ''odd'') even (\<lambda>_ _. False)
     (\<lambda>_. number_model) (\<lambda>_. number_indexes) (\<lambda>_. None)"

abbreviation "two_takes \<equiv> \<lambda>n. field_takes number_model number_indexes"
abbreviation "two_val \<equiv> \<lambda>n. field_val number_model number_indexes"
abbreviation "two_flds \<equiv> \<lambda>n. fst ` set number_indexes"

lemmas two_models_schema = field_models.database_schema_axioms
  [of "\<lambda>_. True" "\<lambda>m. if m then ''even'' else ''odd''" "even :: nat \<Rightarrow> bool" "\<lambda>_ _. False" "\<lambda>_. number_model"
    "\<lambda>_. number_indexes" "\<lambda>_. None", folded two_models_def, unfolded number_indexes_clear]

definition two_db :: "(bool, nat, int option, int field_catalog) database" where
  "two_db = new_database (\<lambda>obj. Some (int obj)) [5, 9]"

lemma two_db_synced: "all_synced two_models (\<lambda>_. field_catalog_inv) two_takes (\<lambda>_. field_view) two_val two_flds two_db"
  unfolding two_db_def by (rule new_database_synced) (simp add: draws_ok_def maxint_def)

lemma two_held: "held two_db n = Map.empty"
  by (simp add: two_db_def new_database_def held_def)

definition two_added :: "(bool, nat, int option, int field_catalog) database" where
  "two_added = snd (the (add_many two_models [6, 7] two_db))"

lemma two_add: "add_many two_models [6, 7] two_db = Some (Inr [5, 9], two_added)"
  by (simp add: two_added_def add_one_def get_model_def init_model_def two_models_def field_schema_def two_db_def new_database_def
      types_of_def number_indexes_clear model_part_def put_part_def db_add_def store_add_def new_id_store_def
      ensure_length_def btree_insert_def change_length_def on_catalog_def field_catalog_ops_def set_uid_def Let_def
      number_indexes_def m_bind_def on_index_def index_doc_value discriminate_def number_model_def meth_simps)

lemma two_objects:
  "\<forall>obj \<in> set [6, 7]. sc_is_model two_models (sc_class two_models obj) \<and>
     two_takes (sc_name two_models (sc_class two_models obj)) (f obj)"
  by (simp add: number_takes) (simp add: two_models_def field_schema_def)

lemma database_roundtrip_witness:
  "\<exists>r s. database_remove two_models (Many_Objects [6, 7]) two_added = (r, s) \<and> r = Inr 2 \<and> held s = (\<lambda>_. Map.empty)"
proof -
  obtain r s where rm: "database_remove two_models (Many_Objects [6, 7]) two_added = (r, s)" by fastforce
  have "distinct [6, 7 :: nat]" by simp
  moreover have "\<forall>obj \<in> set [6, 7]. sc_is_model two_models (sc_class two_models obj) \<and>
      two_takes (sc_name two_models (sc_class two_models obj)) (da_state two_db obj) \<and>
      obj \<notin> ran (held two_db (sc_name two_models (sc_class two_models obj)))"
    using two_objects [of "da_state two_db"] by (simp add: two_held)
  ultimately show ?thesis
    using database_roundtrip [OF two_models_schema two_db_synced _ _ two_add rm] rm by (auto simp: two_held)
qed

lemma database_reindexes_objects_witness:
  "\<exists>s. database_reindex two_models (Many_Objects [6, 7]) All_Attrs
       (two_added\<lparr>da_state := \<lambda>obj. if obj \<in> set [6, 7] then Some 100 else da_state two_added obj\<rparr>) = (Inr (), s) \<and>
     (\<exists>c. da_catalogs s ''odd'' = Some c \<and> field_view c ''n'' 9 = Some 100)"
proof -
  let ?t = "two_added\<lparr>da_state := \<lambda>obj. if obj \<in> set [6, 7] then Some 100 else da_state two_added obj\<rparr>"
  obtain r s where r: "database_reindex two_models (Many_Objects [6, 7]) All_Attrs ?t = (r, s)" by fastforce
  have new: "\<forall>obj \<in> set [6, 7]. sc_is_model two_models (sc_class two_models obj) \<and>
      two_takes (sc_name two_models (sc_class two_models obj)) (da_state two_db obj) \<and>
      obj \<notin> ran (held two_db (sc_name two_models (sc_class two_models obj)))"
    using two_objects [of "da_state two_db"] by (simp add: two_held)
  have "distinct [6, 7 :: nat]" by simp
  note A = database_schema.add_many_ok [OF two_models_schema two_add two_db_synced this new]
  have odd: "sc_name two_models (sc_class two_models 7) = ''odd''" by (simp add: two_models_def field_schema_def)
  have held: "held two_added ''odd'' 9 = Some 7" using A odd by auto
  have "\<forall>obj \<in> set [6, 7]. sc_is_model two_models (sc_class two_models obj) \<and>
      obj \<in> ran (held two_added (sc_name two_models (sc_class two_models obj))) \<and>
      two_takes (sc_name two_models (sc_class two_models obj)) (Some 100)"
    using two_objects [of "\<lambda>_. Some 100"] A by auto
  note B = database_reindexes_objects [OF two_models_schema _ this r]
  have "all_synced two_models (\<lambda>_. field_catalog_inv) two_takes (\<lambda>_. field_view) two_val two_flds two_added" using A by blast
  note B = B [OF this]
  then have "held s ''odd'' 9 = Some 7" using held by simp
  then obtain st where st: "da_stores s ''odd'' = Some st" by (auto simp: held_def split: option.splits)
  have "all_synced two_models (\<lambda>_. field_catalog_inv) two_takes (\<lambda>_. field_view) two_val two_flds s" using B by blast
  from database_schema.ok_maps [OF two_models_schema this, of "''odd''"] st
  obtain c where c: "da_catalogs s ''odd'' = Some c" by (cases "da_catalogs s ''odd''") simp_all
  have "''n'' \<in> fst ` set number_indexes" by (simp add: number_indexes_def)
  then have "field_view c ''n'' 9 = (case held two_added ''odd'' 9 of None \<Rightarrow> None
      | Some obj \<Rightarrow> field_val number_model number_indexes ''n'' (if obj \<in> set [6, 7] then Some 100 else da_state two_added obj))"
    using B st c by blast
  then have "field_view c ''n'' 9 = Some 100"
    by (simp add: held field_val_def number_indexes_def discriminate_def number_model_def)
  then show ?thesis using B r c by auto
qed

end
