(* ===== verification/Tls.thy ===== *)
theory Tls
  imports Prelude
begin

text \<open>
  The TLS contexts of both ends: \<open>make_ssl\<close> of zerodb/db.py for the client, and \<open>create_ssl_context\<close> of
  zerodb/permissions/subdb.py for the server. A context is what the code sets of an
  \<open>ssl.SSLContext\<close> of Python 3.4 to 3.6; reading certificate files is an argument.
\<close>

section \<open>Contexts\<close>

datatype verify_mode = Cert_None | Cert_Required

text \<open>Where the certificates come from that a context trusts.\<close>

datatype trust = CA_File bytes | CA_Data string | Default_Certs

record ssl_context =
  sx_verify_mode :: verify_mode
  sx_check_hostname :: bool
  sx_trust :: "trust list"
  sx_cert_chain :: "(bytes \<times> bytes) option"

text \<open>What reading the files gives: nothing to see here but the exception, if any.\<close>

record cert_files =
  cf_load_chain :: "bytes \<Rightarrow> bytes \<Rightarrow> unit res"
  cf_load_ca :: "bytes \<Rightarrow> unit res"

definition load_cert_chain :: "cert_files \<Rightarrow> bytes \<Rightarrow> bytes \<Rightarrow> ssl_context \<Rightarrow> ssl_context res" where
  "load_cert_chain F cert key ctx =
     bindr (cf_load_chain F cert key) (\<lambda>_. Inr (ctx\<lparr>sx_cert_chain := Some (cert, key)\<rparr>))"

text \<open>A host name can only be checked in a context that asks for a certificate.\<close>

definition set_check_hostname :: "bool \<Rightarrow> ssl_context \<Rightarrow> ssl_context res" where
  "set_check_hostname b ctx =
     (if b \<and> sx_verify_mode ctx = Cert_None then Inl ValueError else Inr (ctx\<lparr>sx_check_hostname := b\<rparr>))"

definition set_verify_mode :: "verify_mode \<Rightarrow> ssl_context \<Rightarrow> ssl_context res" where
  "set_verify_mode mode ctx =
     (if mode = Cert_None \<and> sx_check_hostname ctx then Inl ValueError else Inr (ctx\<lparr>sx_verify_mode := mode\<rparr>))"

text \<open>\<open>create_default_context(CLIENT_AUTH, cafile)\<close>; a file name that is false is none.\<close>

definition client_auth_context :: "cert_files \<Rightarrow> bytes option \<Rightarrow> ssl_context res" where
  "client_auth_context F cafile =
     (let ctx = \<lparr>sx_verify_mode = Cert_None, sx_check_hostname = False, sx_trust = [], sx_cert_chain = None\<rparr> in
      case cafile of
        None \<Rightarrow> Inr ctx
      | Some f \<Rightarrow> if f = [] then Inr ctx
                   else bindr (cf_load_ca F f) (\<lambda>_. Inr (ctx\<lparr>sx_trust := [CA_File f]\<rparr>)))"

section \<open>The two ends\<close>

definition file_or :: "bytes option \<Rightarrow> bytes \<Rightarrow> bytes" where
  "file_or f default_file = (case f of None \<Rightarrow> default_file | Some x \<Rightarrow> if x = [] then default_file else x)"

text \<open>\<open>here\<close> is the directory of the package, with a slash at its end.\<close>

definition make_ssl :: "cert_files \<Rightarrow> bytes \<Rightarrow> bytes option \<Rightarrow> bytes option \<Rightarrow> bytes option \<Rightarrow> ssl_context res" where
  "make_ssl F here cert_file key_file server_cert =
     bindr (client_auth_context F server_cert) (\<lambda>c1.
     bindr (load_cert_chain F (file_or cert_file (here @ ''permissions/nobody.pem''))
              (file_or key_file (here @ ''permissions/nobody-key.pem'')) c1) (\<lambda>c2.
     bindr (set_verify_mode Cert_Required c2) (\<lambda>c3.
       if server_cert = None
       then bindr (set_check_hostname True c3) (\<lambda>c4. Inr (c4\<lparr>sx_trust := sx_trust c4 @ [Default_Certs]\<rparr>))
       else set_check_hostname False c3)))"

text \<open>The server's \<open>create_ssl_context\<close>, for the certificate files of its configuration.\<close>

definition create_ssl_context :: "cert_files \<Rightarrow> bytes \<Rightarrow> bytes \<Rightarrow> ssl_context res" where
  "create_ssl_context F cert key =
     bindr (client_auth_context F None) (\<lambda>c1.
     bindr (load_cert_chain F cert key c1) (set_verify_mode Cert_Required))"

definition load_verify_data :: "ssl_context \<Rightarrow> string \<Rightarrow> ssl_context" where
  "load_verify_data ctx cadata = ctx\<lparr>sx_trust := sx_trust ctx @ [CA_Data cadata]\<rparr>"

lemmas tls_defs = make_ssl_def create_ssl_context_def client_auth_context_def load_cert_chain_def
  set_verify_mode_def set_check_hostname_def load_verify_data_def

section \<open>What the contexts ask for\<close>

text \<open>
  The client's context always asks for the server's certificate, trusts the given certificate and no
  other or, without one, the system's and then checks the host name.
\<close>

lemma make_ssl_Inr:
  assumes "make_ssl F here cert_file key_file server_cert = Inr ctx" "server_cert \<noteq> Some []"
  shows "sx_verify_mode ctx = Cert_Required" "sx_check_hostname ctx \<longleftrightarrow> server_cert = None"
    "sx_trust ctx = (case server_cert of None \<Rightarrow> [Default_Certs] | Some f \<Rightarrow> [CA_File f])"
    "sx_cert_chain ctx = Some (file_or cert_file (here @ ''permissions/nobody.pem''),
       file_or key_file (here @ ''permissions/nobody-key.pem''))"
  using assms by (auto simp: tls_defs Let_def bindr_eq_Inr split: option.splits if_splits)

text \<open>An empty name for the server's certificate leaves a context that trusts nobody.\<close>

lemma make_ssl_empty_name:
  "make_ssl F here cert_file key_file (Some []) = Inr ctx \<Longrightarrow> sx_trust ctx = [] \<and> \<not> sx_check_hostname ctx"
  by (auto simp: tls_defs Let_def bindr_eq_Inr)

lemma create_ssl_context_Inr:
  assumes "create_ssl_context F cert key = Inr ctx"
  shows "sx_verify_mode ctx = Cert_Required" "sx_trust ctx = []" "sx_cert_chain ctx = Some (cert, key)"
  using assms by (auto simp: tls_defs Let_def bindr_eq_Inr)

end
