(* ===== verification/Shared_Registry.thy ===== *)
theory Shared_Registry
  imports Transforming_Storage
begin

text \<open>
  The ciphers belong to the process and not to a database object (theory Transform): what the
  registry is after one database and then another have been opened with keys of their own.
\<close>

section \<open>Exceptions while the ciphers are made\<close>

text \<open>
  \<open>init\<close> and \<open>_init_default_crypto\<close> with the registry that an exception leaves behind: the class
  whose encrypter cannot be made has lost the default registration by then.
\<close>

definition init_class_step ::
  "crypto \<Rightarrow> bytes option \<Rightarrow> bytes option \<Rightarrow> bytes \<times> enc_class \<Rightarrow> (registry, unit) meth" where
  "init_class_step P passphrase key = (\<lambda>(name, c) g.
     if name = [] then (Inr (), g)
     else
       let g1 = (case getUtility (encrypters g) name of
                   Inr u \<Rightarrow> unregister_default g u | Inl ex \<Rightarrow> g)
       in case encrypter_new P g1 c passphrase key of
            Inl ex \<Rightarrow> (Inl ex, g1)
          | Inr (e, g2) \<Rightarrow> (Inr (), encrypter_register g2 e))"

definition init_default_crypto_step ::
  "crypto \<Rightarrow> enc_class list \<Rightarrow> compressor option \<Rightarrow> bytes option \<Rightarrow> bytes option \<Rightarrow> (registry, unit) meth" where
  "init_default_crypto_step P classes default_compressor passphrase key =
     m_bind (m_modify (register_defaults classes default_compressor)) (\<lambda>_ g.
       m_each (init_class_step P passphrase key) (class_order P g) g)"

lemma init_class_step_result:
  "init_class P pw key nc g = (case init_class_step P pw key nc g of (Inl e, _) \<Rightarrow> Inl e | (Inr _, g') \<Rightarrow> Inr g')"
  by (cases nc) (auto simp: init_class_def init_class_step_def Let_def split: sum.splits)

lemma init_steps_result:
  "foldr_res (init_class P pw key) cs g =
     (case m_each (init_class_step P pw key) cs g of (Inl e, _) \<Rightarrow> Inl e | (Inr _, g') \<Rightarrow> Inr g')"
proof (induction cs arbitrary: g)
  case (Cons nc cs)
  obtain r h where h: "init_class_step P pw key nc g = (r, h)" by fastforce
  then show ?case using Cons init_class_step_result [of P pw key nc g] by (cases r) (simp_all add: meth_simps)
qed (simp add: meth_simps)

lemma init_default_crypto_step_result:
  "init_default_crypto P cs z pw key g =
     (case init_default_crypto_step P cs z pw key g of (Inl e, _) \<Rightarrow> Inl e | (Inr _, g') \<Rightarrow> Inr g')"
  by (simp add: init_default_crypto_def init_default_crypto_step_def init_def init_steps_result meth_simps)

lemma init_default_crypto_step_Inr:
  "init_default_crypto_step P cs z pw key g = (Inr u, g') \<longleftrightarrow> init_default_crypto P cs z pw key g = Inr g'"
  unfolding init_default_crypto_step_result by (auto split: prod.splits sum.splits)

text \<open>
  A key of a wrong length is refused when the first named class is reached, whichever that is. Its
  encrypter has lost the default registration by then, if it had it.
\<close>

definition first_made :: "crypto \<Rightarrow> registry \<Rightarrow> (bytes \<times> enc_class) option" where
  "first_made P g = find (\<lambda>(n, c). n \<noteq> []) (class_order P g)"

lemma bad_key_each:
  assumes "find (\<lambda>(n, c). n \<noteq> []) cs = Some (n, c)" "enc_at g n = Some e" "length k \<noteq> key_size"
  shows "m_each (init_class_step P None (Some k)) cs g = (Inl AssertionError, unregister_default g e)"
  using assms(1)
proof (induction cs)
  case (Cons x cs)
  show ?case
  proof (cases "fst x = []")
    case True
    then show ?thesis using Cons by (cases x) (simp add: init_class_step_def meth_simps)
  next
    case False
    then have "x = (n, c)" "n \<noteq> []" using Cons.prems by (auto split: prod.splits)
    then show ?thesis
      using assms(2,3) by (simp add: init_class_step_def getUtility_def encrypter_new_def init_encryption_def meth_simps)
  qed
qed simp

lemma bad_key_step:
  assumes "first_made P (register_defaults cs z g) = Some (n, c)" "enc_at (register_defaults cs z g) n = Some e"
    and "length k \<noteq> key_size"
  shows "init_default_crypto_step P cs z None (Some k) g = (Inl AssertionError, unregister_default (register_defaults cs z g) e)"
  using bad_key_each [OF assms(1) [unfolded first_made_def] assms(2,3)]
  by (simp add: init_default_crypto_step_def meth_simps)

section \<open>Registries in which all encrypters have one key\<close>

text \<open>
  A registry as the code leaves it: every named encrypter is of a registered class, and the
  default one is one of them.
\<close>

definition registry_wf :: "registry \<Rightarrow> bool" where
  "registry_wf g \<longleftrightarrow> classes_wf g \<and> registry_inv g \<and>
     (\<forall>n e. enc_at g n = Some e \<longrightarrow>
        class_at g (class_name (enc_class_of e)) \<noteq> None \<and> enc_at g (class_name (enc_class_of e)) = Some e)"

definition keyed :: "bytes option \<Rightarrow> registry \<Rightarrow> bool" where
  "keyed K g \<longleftrightarrow> enc_at g [] \<noteq> None \<and> (\<forall>n e. enc_at g n = Some e \<longrightarrow> enc_key e = K) \<and>
     (\<forall>c. class_at g (class_name c) \<noteq> None \<longrightarrow> enc_at g (class_name c) \<noteq> None)"

lemma register_more:
  "encrypters (foldl (\<lambda>g c. register_class g c False) g cs) = encrypters g \<and>
     (class_at g n \<noteq> None \<longrightarrow> class_at (foldl (\<lambda>g c. register_class g c False) g cs) n \<noteq> None)"
  by (induction cs arbitrary: g) (simp_all add: class_at_register)

lemma register_defaults_encrypters: "encrypters (register_defaults cs z g) = encrypters g"
  by (cases cs; cases z) (simp_all add: register_defaults_def register_more compressor_register_def Let_def)

lemma register_classes_keep: "class_at g n \<noteq> None \<Longrightarrow> class_at (register_defaults cs z g) n \<noteq> None"
  by (cases cs; cases z)
    (simp_all add: register_defaults_def register_more class_at_register compressor_register_def Let_def)

lemma init_others:
  assumes "foldr_res (init_class P pw key) cs g = Inr g'"
    and "\<forall>(n, c) \<in> set cs. n = [] \<or> n = class_name c" "class_at g [] \<noteq> None"
    and "m \<noteq> []" "m \<notin> fst ` set cs"
  shows "enc_at g' m = enc_at g m"
  using assms
proof (induction cs arbitrary: g)
  case (Cons nc cs)
  obtain n c where nc: "nc = (n, c)" by fastforce
  from Cons.prems(1) obtain h where h: "init_class P pw key (n, c) g = Inr h"
    "foldr_res (init_class P pw key) cs h = Inr g'" by (auto simp: bindr_eq_Inr nc)
  have cl: "class_at h [] \<noteq> None" using Cons.prems(3) init_class_classes [OF h(1)] by simp
  have "enc_at g' m = enc_at h m" using Cons.IH [OF h(2) _ cl] Cons.prems by simp
  also have "\<dots> = enc_at g m"
  proof (cases "n = []")
    case True
    then show ?thesis using h(1) by (simp add: init_class_def)
  next
    case False
    then have "n = class_name c" "m \<noteq> class_name c" using Cons.prems(2,5) nc by auto
    moreover obtain k where "enc_at h = enc_after g n c k"
      using init_class_result [OF False Cons.prems(3) h(1)] by blast
    ultimately show ?thesis using Cons.prems(4) by (simp add: enc_after_def)
  qed
  finally show ?case .
qed simp

lemma class_at_set: "classes_wf g \<Longrightarrow> class_at g n = Some c \<longleftrightarrow> (n, c) \<in> set (encrypter_classes g)"
  by (simp add: classes_wf_def map_of_eq_Some_iff)

text \<open>The classes of a registry are those of an older one and some more.\<close>

definition classes_from :: "registry \<Rightarrow> enc_class list \<Rightarrow> registry \<Rightarrow> bool" where
  "classes_from g cs h \<longleftrightarrow> classes_wf h \<and>
     (\<forall>c. class_at h (class_name c) \<noteq> None \<longrightarrow> class_at g (class_name c) \<noteq> None \<or> c \<in> set cs)"

lemma classes_from_register:
  assumes "classes_from g cs h" "c \<in> set cs"
  shows "classes_from g cs (register_class h c b)"
  using assms classes_wf_register [of h c b] by (auto simp: classes_from_def class_at_register)

lemma classes_from_fold:
  "classes_from g cs h \<Longrightarrow> set ds \<subseteq> set cs \<Longrightarrow> classes_from g cs (foldl (\<lambda>g c. register_class g c False) h ds)"
  by (induction ds arbitrary: h) (simp_all add: classes_from_register)

lemma register_defaults_only:
  assumes "(n, c) \<in> set (encrypter_classes (register_defaults cs z g))" "classes_wf g" "n \<noteq> []"
  shows "n = class_name c \<and> (class_at g (class_name c) \<noteq> None \<or> c \<in> set cs)"
proof -
  let ?h = "case cs of [] \<Rightarrow> g | c # cs \<Rightarrow> foldl (\<lambda>g c. register_class g c False) (register_class g c True) cs"
  have g: "classes_from g cs g" using assms(2) by (simp add: classes_from_def)
  have ok: "classes_from g cs ?h"
  proof (cases cs)
    case (Cons d ds)
    then show ?thesis using classes_from_fold [OF classes_from_register [OF g, of d True], of ds] by auto
  qed (use g in simp)
  have "encrypter_classes (register_defaults cs z g) = encrypter_classes ?h"
    by (cases z) (simp_all add: register_defaults_def compressor_register_def Let_def)
  then have at: "class_at ?h n = Some c" "classes_wf ?h"
    using assms(1) ok class_at_set by (auto simp: classes_from_def)
  then have "n = class_name c" using assms(3) unfolding classes_wf_def by blast
  then show ?thesis using ok at(1) unfolding classes_from_def by blast
qed

lemma classes_wf_name:
  assumes "classes_wf g" "class_at g (class_name c) = Some d"
  shows "d = c"
proof -
  have "class_name c = [] \<or> class_name c = class_name d" using assms unfolding classes_wf_def by blast
  then show ?thesis by simp
qed

lemma registry_inv_name:
  assumes "registry_inv g" "enc_at g n = Some e" "n \<noteq> []"
  shows "n = class_name (enc_class_of e)"
  using assms unfolding registry_inv_def by blast

lemma init_default_crypto_key_length:
  assumes "registry_wf g" "init_default_crypto P (c0 # cs) z None (Some k) g = Inr g'"
  shows "length k = key_size"
proof -
  let ?h = "register_defaults (c0 # cs) z g"
  have wf: "classes_wf g" "registry_inv g" using assms(1) by (simp_all add: registry_wf_def)
  have "(class_name c0, c0) \<in> set (encrypter_classes ?h)"
    using register_defaults_initialized(3) [OF wf] by simp
  then obtain h h' where "init_class P None (Some k) (class_name c0, c0) h = Inr h'"
    using assms(2) foldr_res_member by (force simp: init_default_crypto_def init_def)
  then show ?thesis
    by (auto simp: init_class_def encrypter_new_def init_encryption_def bindr_eq_Inr Let_def)
qed

text \<open>
  The encrypters that \<open>init\<close> makes, and those of earlier registrations that it leaves, belong to
  registered classes.
\<close>

lemma init_default_crypto_named:
  assumes g: "registry_wf g" and run: "init_default_crypto P (c0 # cs) z pw key g = Inr g'"
    and reg: "class_at g' (class_name c) \<noteq> None"
  shows "\<exists>e. enc_at g' (class_name c) = Some e \<and> enc_class_of e = c \<and> enc_key e = derived_key P pw key"
proof -
  let ?h = "register_defaults (c0 # cs) z g"
  have wf: "classes_wf g" "registry_inv g" using g by (simp_all add: registry_wf_def)
  note R = register_defaults_initialized [OF wf, where cs = cs and z = z]
  have fold: "foldr_res (init_class P pw key) (class_order P ?h) ?h = Inr g'"
    using run by (simp add: init_default_crypto_def init_def)
  have J: "initialized (derived_key P pw key) c0 {c. (class_name c, c) \<in> set (encrypter_classes ?h)} g'"
    using init_fold_initialized [OF fold classes_wf_order [OF R(2)] R(1)] by simp
  obtain d where d: "class_at ?h (class_name c) = Some d" using reg init_classes [OF fold] by auto
  then have "d = c" by (rule classes_wf_name [OF R(2)])
  then have "(class_name c, c) \<in> set (encrypter_classes ?h)" using d class_at_set [OF R(2)] by simp
  then show ?thesis using J by (simp add: initialized_def)
qed

lemma init_default_crypto_of_class:
  assumes g: "registry_wf g" and run: "init_default_crypto P (c0 # cs) z pw key g = Inr g'"
    and e: "enc_at g' n = Some e" "n \<noteq> []"
  shows "class_at g' (class_name (enc_class_of e)) \<noteq> None"
proof -
  let ?h = "register_defaults (c0 # cs) z g"
  have wf: "classes_wf g" "registry_inv g" using g by (simp_all add: registry_wf_def)
  note R = register_defaults_initialized [OF wf, where cs = cs and z = z]
  note K = init_default_crypto_keys [OF wf run]
  have fold: "foldr_res (init_class P pw key) (class_order P ?h) ?h = Inr g'"
    using run by (simp add: init_default_crypto_def init_def)
  have classes: "encrypter_classes g' = encrypter_classes ?h" by (rule init_classes [OF fold])
  show ?thesis
  proof (cases "n \<in> fst ` set (encrypter_classes ?h)")
    case True
    have "n = class_name (enc_class_of e)" by (rule registry_inv_name [OF K(1) e])
    moreover have "class_at g' n \<noteq> None" using True classes by (simp add: map_of_eq_None_iff)
    ultimately show ?thesis by simp
  next
    case False
    have "enc_at g' n = enc_at ?h n"
      using init_others [OF fold classes_wf_order [OF R(2)]] False e(2) R(1) by (simp add: initialized_def)
    then have "enc_at g n = Some e" using e(1) by (simp add: register_defaults_encrypters)
    then show ?thesis using g register_classes_keep classes by (simp add: registry_wf_def)
  qed
qed

lemma keyed_registryI:
  assumes inv: "registry_inv g" "classes_wf g"
    and default: "enc_at g [] = enc_at g (class_name c0)" "class_at g (class_name c0) \<noteq> None"
    and named: "\<And>c. class_at g (class_name c) \<noteq> None \<Longrightarrow>
      \<exists>e. enc_at g (class_name c) = Some e \<and> enc_class_of e = c \<and> enc_key e = K"
    and others: "\<And>n e. enc_at g n = Some e \<Longrightarrow> n \<noteq> [] \<Longrightarrow> class_at g (class_name (enc_class_of e)) \<noteq> None"
  shows "keyed K g \<and> registry_wf g"
proof -
  obtain e0 where e0: "enc_at g [] = Some e0" "enc_class_of e0 = c0" "enc_key e0 = K"
    using named [OF default(2)] default(1) by auto
  have each: "class_at g (class_name (enc_class_of e)) \<noteq> None \<and>
      enc_at g (class_name (enc_class_of e)) = Some e \<and> enc_key e = K" if e: "enc_at g n = Some e" for n e
  proof (cases "n = []")
    case True
    then show ?thesis using e e0 default by simp
  next
    case False
    then have "n = class_name (enc_class_of e)" by (rule registry_inv_name [OF inv(1) e])
    then show ?thesis using e named [OF others [OF e False]] others [OF e False] by auto
  qed
  have "\<forall>c. class_at g (class_name c) \<noteq> None \<longrightarrow> enc_at g (class_name c) \<noteq> None" using named by blast
  then show ?thesis unfolding keyed_def registry_wf_def using inv each e0(1) by blast
qed

text \<open>Opening a database gives all encrypters its key.\<close>

lemma init_default_crypto_keyed:
  assumes g: "registry_wf g" and run: "init_default_crypto P (c0 # cs) z pw key g = Inr g'"
  shows "keyed (derived_key P pw key) g'" "registry_wf g'"
    and "class_at g (class_name c) \<noteq> None \<Longrightarrow> class_at g' (class_name c) \<noteq> None"
proof -
  let ?h = "register_defaults (c0 # cs) z g"
  have wf: "classes_wf g" "registry_inv g" using g by (simp_all add: registry_wf_def)
  note K = init_default_crypto_keys [OF wf run]
  note R = register_defaults_initialized [OF wf, where cs = cs and z = z]
  have classes: "encrypter_classes g' = encrypter_classes ?h"
    using run by (intro init_classes [where P = P and pw = pw and key = key]) (simp add: init_default_crypto_def init_def)
  have "class_at g' (class_name c0) \<noteq> None"
    using class_at_set [OF R(2)] R(3) [of c0] classes by fastforce
  from keyed_registryI [OF K(1,2,3) this init_default_crypto_named [OF g run]]
  have "keyed (derived_key P pw key) g' \<and> registry_wf g'"
    using init_default_crypto_of_class [OF g run] by blast
  then show "keyed (derived_key P pw key) g'" "registry_wf g'" by simp_all
  show "class_at g' (class_name c) \<noteq> None" if "class_at g (class_name c) \<noteq> None"
    using register_classes_keep [OF that] classes by simp
qed

lemma first_made_some:
  assumes "(n, c) \<in> set (encrypter_classes g)" "n \<noteq> []"
  shows "\<exists>m d. first_made P g = Some (m, d) \<and> m \<noteq> [] \<and> (m, d) \<in> set (encrypter_classes g)"
proof -
  have "find (\<lambda>(n, c). n \<noteq> []) (class_order P g) \<noteq> None"
  proof
    assume "find (\<lambda>(n, c). n \<noteq> []) (class_order P g) = None"
    then have "\<not> (\<exists>x. x \<in> set (class_order P g) \<and> (\<lambda>(n, c). n \<noteq> []) x)" by (simp only: find_None_iff not_False_eq_True)
    then show False using assms by auto
  qed
  then obtain m d where f: "find (\<lambda>(n, c). n \<noteq> []) (class_order P g) = Some (m, d)" by auto
  then have "m \<noteq> [] \<and> (m, d) \<in> set (class_order P g)" by (auto simp: find_Some_iff simp del: set_class_order dest: nth_mem)
  then show ?thesis using f by (auto simp: first_made_def)
qed

text \<open>Only the encrypter of the default class is the default one.\<close>

lemma default_lost:
  assumes "registry_wf g" "enc_at g (class_name c) = Some e" "enc_at g [] = Some e0" "enc_class_of e0 = c0"
    and "encrypters h = encrypters g"
  shows "enc_at (unregister_default h e) [] = (if c = c0 then None else Some e0)"
proof -
  have e: "enc_class_of e = c" "registry_inv g"
    using registry_inv_name [of g "class_name c" e] assms(1,2) by (simp_all add: registry_wf_def)
  have "enc_at g (class_name c0) = Some e0" using assms(1,3,4) unfolding registry_wf_def by blast
  then have "c = c0 \<Longrightarrow> e = e0" using assms(2) by simp
  moreover have "enc_id e0 = enc_id e \<Longrightarrow> e0 = e" using e(2) assms(2,3) unfolding registry_inv_def by blast
  ultimately show ?thesis using assms(3,4,5) e(1) by (auto simp: enc_at_unregister)
qed

text \<open>Making a client storage only changes which of the encrypters is the default.\<close>

lemma ts_init_keyed:
  assumes run: "ts_init Z base root debug s g = Inr (ts, g')" and g: "keyed K g" "registry_wf g"
  shows "keyed K g' \<and> registry_wf g' \<and> encrypter_classes g' = encrypter_classes g"
proof -
  have "g' = g \<or> (\<exists>sig e. sig \<noteq> [] \<and> enc_at g sig = Some e \<and> g' = g\<lparr>encrypters := AList.update [] e (encrypters g)\<rparr>)"
  proof -
    obtain data ser nxt where "s_loadBefore base s root (maxtid Z) = Inr (Some (data, ser, nxt))"
      using run by (cases "s_loadBefore base s root (maxtid Z)") (auto simp: ts_init_def split: option.splits)
    then show ?thesis
      using run by (cases "get_encryption_signature data")
        (auto simp: ts_init_def bindr_eq_Inr getUtility_def split: option.splits if_splits)
  qed
  then show ?thesis
  proof (elim disjE exE conjE)
    fix sig e assume e: "sig \<noteq> []" "enc_at g sig = Some e" and g': "g' = g\<lparr>encrypters := AList.update [] e (encrypters g)\<rparr>"
    have at: "enc_at g' n = (if n = [] then Some e else enc_at g n)" for n by (simp add: g' update_conv')
    have old: "\<exists>m. enc_at g m = Some x" if "enc_at g' n = Some x" for n x
      using that e(2) by (auto simp: at split: if_splits)
    have "registry_inv g'"
      unfolding registry_inv_def
    proof (intro conjI allI impI)
      fix n x assume x: "enc_at g' n = Some x"
      show "n = [] \<or> n = class_name (enc_class_of x)"
        using x g(2) registry_inv_name [of g n x] by (auto simp: at registry_wf_def split: if_splits)
      show "enc_id x < next_id g'" using old [OF x] g(2) by (auto simp: g' registry_wf_def registry_inv_def)
      fix m y assume "enc_at g' m = Some y" "enc_id x = enc_id y"
      then show "x = y" using old [OF x] old [of m y] g(2) unfolding registry_wf_def registry_inv_def by blast
    qed
    moreover have "classes_wf g'" using g(2) by (simp add: g' registry_wf_def classes_wf_def)
    moreover have "class_at g' (class_name (enc_class_of x)) \<noteq> None \<and> enc_at g' (class_name (enc_class_of x)) = Some x"
      if x: "enc_at g' n = Some x" for n x
    proof -
      obtain m where "enc_at g m = Some x" using old [OF x] by blast
      then have "class_at g (class_name (enc_class_of x)) \<noteq> None \<and> enc_at g (class_name (enc_class_of x)) = Some x"
        using g(2) unfolding registry_wf_def by blast
      then show ?thesis by (simp add: at) (simp add: g')
    qed
    moreover have "keyed K g'"
      unfolding keyed_def
    proof (intro conjI allI impI)
      show "enc_at g' [] \<noteq> None" by (simp add: at)
      fix n x assume "enc_at g' n = Some x"
      then show "enc_key x = K" using old g(1) unfolding keyed_def by blast
    next
      fix c assume "class_at g' (class_name c) \<noteq> None"
      then show "enc_at g' (class_name c) \<noteq> None" using g(1) by (simp add: at) (simp add: g' keyed_def)
    qed
    ultimately show ?thesis unfolding registry_wf_def by (simp add: g')
  qed (use g in simp)
qed

section \<open>Records of another key\<close>

text \<open>
  What authenticated encryption promises: no cipher with the one key opens what a cipher with the
  other has sealed.
\<close>

definition keys_apart :: "crypto \<Rightarrow> bytes option \<Rightarrow> bytes option \<Rightarrow> bool" where
  "keys_apart P K L \<longleftrightarrow>
     (\<forall>e u d. enc_key e = K \<longrightarrow> enc_key u = L \<longrightarrow> aes_decrypt P u (aes_encrypt P e d) = Inl WrongKeyError)"

lemma keyed_default: "keyed K g \<Longrightarrow> \<exists>e. enc_at g [] = Some e \<and> enc_key e = K"
  by (auto simp: keyed_def)

lemma decrypt_foreign:
  assumes apart: "keys_apart P K L" and g: "keyed K g" "registry_wf g" and h: "keyed L h" "registry_wf h"
    and classes: "\<And>c. class_at g (class_name c) \<noteq> None \<Longrightarrow> class_at h (class_name c) \<noteq> None"
  shows "decrypt P h (encrypt P g d nn) = Inl WrongKeyError"
proof -
  obtain e where e: "enc_at g [] = Some e" "enc_key e = K" using keyed_default [OF g(1)] by blast
  have enc: "encrypt P g d nn = encrypter_encrypt P e d nn" by (simp add: encrypt_def getUtility_def e(1))
  let ?sig = "if nn then [] else class_name (enc_class_of e)"
  have "class_at h (class_name (enc_class_of e)) \<noteq> None"
    using e(1) g(2) classes unfolding registry_wf_def by blast
  then have "enc_at h (class_name (enc_class_of e)) \<noteq> None" using h(1) by (auto simp: keyed_def)
  then have "enc_at h ?sig \<noteq> None" using h(1) by (simp add: keyed_def)
  then obtain u where u: "enc_at h ?sig = Some u" by blast
  have key: "enc_key u = L" using u h(1) unfolding keyed_def by blast
  have "encrypter_decrypt P u (encrypter_encrypt P e d nn) = Inl WrongKeyError"
  proof (cases nn)
    case True
    have "\<not> startswith (''.e$'' @ x) (signature u)" for x
      by (cases "enc_class_of u") (auto simp: signature_def)
    then show ?thesis
      using apart e(2) key True by (simp add: keys_apart_def encrypter_decrypt_def encrypter_encrypt_def Let_def)
  next
    case False
    then have "class_name (enc_class_of e) = class_name (enc_class_of u)"
      using registry_inv_name [of h "class_name (enc_class_of e)" u] u h(2) by (simp add: registry_wf_def)
    then have "signature e = signature u" by (simp add: signature_def)
    then show ?thesis
      using apart e(2) key False by (simp add: keys_apart_def encrypter_decrypt_def encrypter_encrypt_def Let_def)
  qed
  then show ?thesis by (simp add: enc decrypt_def encrypt_signature getUtility_def u)
qed

text \<open>One key: what is encrypted is read back.\<close>

lemma keyed_ready:
  assumes "keyed (Some k) g" "registry_wf g" "length k = key_size"
  shows "encryption_ready g"
proof -
  obtain e where e: "enc_at g [] = Some e" "enc_key e = Some k" using keyed_default [OF assms(1)] by blast
  then obtain u where u: "enc_at g (class_name (enc_class_of e)) = Some u"
    using assms(2) unfolding registry_wf_def by blast
  then have "enc_key u = Some k" using assms(1) unfolding keyed_def by blast
  moreover have "enc_class_of u = enc_class_of e"
    using registry_inv_name [of g "class_name (enc_class_of e)" u] u assms(2) by (simp add: registry_wf_def)
  ultimately show ?thesis using e u assms(3) by (auto simp: encryption_ready_def key_ok_def)
qed

text \<open>A registry with a key of the right length marks and reads back what it encrypts.\<close>

lemma keyed_seals:
  assumes "keyed (Some k) g" "registry_wf g" "length k = key_size" "crypto_ok P"
  shows "startswith (encrypt P g x nn) ''.e''" "decrypt P g (encrypt P g x nn) = Inr x"
proof -
  have ready: "encryption_ready g" using keyed_ready [OF assms(1-3)] .
  then show "startswith (encrypt P g x nn) ''.e''"
    by (auto simp: encrypt_def getUtility_def encryption_ready_def encrypter_encrypt_def signature_def)
  show "decrypt P g (encrypt P g x nn) = Inr x"
    using ready assms(4) by (intro encrypt_roundtrip) (auto simp: encryption_ok_def encryption_ready_def)
qed

lemma demo_keys_apart:
  "keys_apart demo_crypto (Some (replicate 32 CHR ''a'')) (Some (replicate 32 CHR ''b''))"
proof -
  have "aes_decrypt demo_crypto u (aes_encrypt demo_crypto e d) = Inl WrongKeyError"
    if "enc_key e = Some (replicate 32 CHR ''a'')" "enc_key u = Some (replicate 32 CHR ''b'')" for e u d
    using that
    by (cases "enc_class_of e"; cases "enc_class_of u")
      (simp_all add: aes_decrypt_def aes_encrypt_def demo_crypto_def demo_aead_def class_cipher_def numeral_eq_Suc)
  then show ?thesis by (simp add: keys_apart_def)
qed

lemma empty_registry_wf: "registry_wf empty_registry"
  using empty_registry_ok by (simp add: registry_wf_def empty_registry_def)

end
