(* ===== verification/Thread_Watcher.thy ===== *)
theory Thread_Watcher
  imports Prelude
begin

text \<open>
  zerodb/util/thread_watcher.py: callbacks that run when a thread's local storage dies. A thread
  that is watched keeps an object, its vigil, in its thread-local storage; when that is cleared, at some time
  after the end of the thread, the vigil dies, and the weak reference to it runs the callback. Threads and vigils are named
  by numbers (\<open>id\<close> of an object is free again after it died).
\<close>

section \<open>The watcher\<close>

record 'cb watcher =
  tw_refs :: "nat \<Rightarrow> 'cb option"
  tw_vigil :: "nat \<Rightarrow> nat option"

definition new_watcher :: "'cb watcher" where
  "new_watcher = \<lparr>tw_refs = Map.empty, tw_vigil = Map.empty\<rparr>"

definition is_watching :: "nat \<Rightarrow> 'cb watcher \<Rightarrow> bool" where
  "is_watching t w = (case tw_vigil w t of None \<Rightarrow> False | Some v \<Rightarrow> tw_refs w v \<noteq> None)"

text \<open>\<open>v\<close> is the new vigil, \<open>cb\<close> the callback with its arguments.\<close>

definition watch :: "nat \<Rightarrow> nat \<Rightarrow> 'cb \<Rightarrow> 'cb watcher \<Rightarrow> 'cb watcher" where
  "watch t v cb w =
     (if is_watching t w then w
      else w\<lparr>tw_vigil := (tw_vigil w)(t \<mapsto> v), tw_refs := (tw_refs w)(v \<mapsto> cb)\<rparr>)"

definition unwatch :: "nat \<Rightarrow> ('cb watcher, unit) meth" where
  "unwatch t w =
     (case tw_vigil w t of
        None \<Rightarrow> (Inr (), w)
      | Some v \<Rightarrow>
          (let w1 = w\<lparr>tw_vigil := (tw_vigil w)(t := None)\<rparr> in
           if tw_refs w1 v = None then (Inl KeyError, w1)
           else (Inr (), w1\<lparr>tw_refs := (tw_refs w1)(v := None)\<rparr>)))"

text \<open>The vigil \<open>v\<close> dies: \<open>_on_death\<close> takes its reference out and gives the callback to run.\<close>

definition on_death :: "nat \<Rightarrow> 'cb watcher \<Rightarrow> 'cb option \<times> 'cb watcher" where
  "on_death v w = (tw_refs w v, w\<lparr>tw_refs := (tw_refs w)(v := None)\<rparr>)"

definition locals_die :: "nat \<Rightarrow> 'cb watcher \<Rightarrow> 'cb option \<times> 'cb watcher" where
  "locals_die t w =
     (case tw_vigil w t of
        None \<Rightarrow> (None, w)
      | Some v \<Rightarrow> on_death v (w\<lparr>tw_vigil := (tw_vigil w)(t := None)\<rparr>))"

section \<open>The interface\<close>

text \<open>
  What happens to a watcher: a thread asks for a callback (with the identity of the new vigil),
  takes it back, or its local storage dies. \<open>run_events\<close> gives the callbacks that ran, with their threads.
\<close>

datatype 'cb event = Watch nat nat 'cb | Unwatch nat | Locals_Die nat

fun run_event ::
  "(nat \<Rightarrow> nat \<Rightarrow> 'cb \<Rightarrow> 'w \<Rightarrow> 'w) \<Rightarrow> (nat \<Rightarrow> ('w, unit) meth) \<Rightarrow> (nat \<Rightarrow> 'w \<Rightarrow> 'cb option \<times> 'w)
     \<Rightarrow> 'cb event \<Rightarrow> ('w, (nat \<times> 'cb) list) meth" where
  "run_event wa un fi (Watch t v cb) w = (Inr [], wa t v cb w)"
| "run_event wa un fi (Unwatch t) w = (case un t w of (r, w1) \<Rightarrow> (bindr r (\<lambda>_. Inr []), w1))"
| "run_event wa un fi (Locals_Die t) w =
     (case fi t w of (cb, w1) \<Rightarrow> (Inr (case cb of None \<Rightarrow> [] | Some c \<Rightarrow> [(t, c)]), w1))"

fun run_events ::
  "(nat \<Rightarrow> nat \<Rightarrow> 'cb \<Rightarrow> 'w \<Rightarrow> 'w) \<Rightarrow> (nat \<Rightarrow> ('w, unit) meth) \<Rightarrow> (nat \<Rightarrow> 'w \<Rightarrow> 'cb option \<times> 'w)
     \<Rightarrow> 'cb event list \<Rightarrow> ('w, (nat \<times> 'cb) list) meth" where
  "run_events wa un fi [] w = (Inr [], w)"
| "run_events wa un fi (e # es) w =
     (case run_event wa un fi e w of
        (Inl ex, w1) \<Rightarrow> (Inl ex, w1)
      | (Inr calls, w1) \<Rightarrow>
          (case run_events wa un fi es w1 of (r, w2) \<Rightarrow> (bindr r (\<lambda>cs. Inr (calls @ cs)), w2)))"

text \<open>The same on the threads' callbacks alone: the first that a thread asks for is the one it gets.\<close>

fun spec_event :: "'cb event \<Rightarrow> (nat \<Rightarrow> 'cb option) \<Rightarrow> (nat \<times> 'cb) list \<times> (nat \<Rightarrow> 'cb option)" where
  "spec_event (Watch t v cb) m = ([], if m t = None then m(t \<mapsto> cb) else m)"
| "spec_event (Unwatch t) m = ([], m(t := None))"
| "spec_event (Locals_Die t) m = (case m t of None \<Rightarrow> [] | Some c \<Rightarrow> [(t, c)], m(t := None))"

fun spec_events :: "'cb event list \<Rightarrow> (nat \<Rightarrow> 'cb option) \<Rightarrow> (nat \<times> 'cb) list \<times> (nat \<Rightarrow> 'cb option)" where
  "spec_events [] m = ([], m)"
| "spec_events (e # es) m =
     (case spec_event e m of (calls, m1) \<Rightarrow> (case spec_events es m1 of (cs, m2) \<Rightarrow> (calls @ cs, m2)))"

text \<open>
  The laws; \<open>fresh v w\<close> says that \<open>v\<close> is not the identity of a living vigil, which holds for the
  vigil that is made in \<open>watch\<close>.
\<close>

fun fresh_event :: "(nat \<Rightarrow> 'w \<Rightarrow> bool) \<Rightarrow> 'cb event \<Rightarrow> 'w \<Rightarrow> bool" where
  "fresh_event fresh (Watch t v cb) w = fresh v w"
| "fresh_event fresh e w = True"

locale thread_registry =
  fixes inv :: "'w \<Rightarrow> bool"
    and view :: "'w \<Rightarrow> nat \<Rightarrow> 'cb option"
    and fresh :: "nat \<Rightarrow> 'w \<Rightarrow> bool"
    and wa :: "nat \<Rightarrow> nat \<Rightarrow> 'cb \<Rightarrow> 'w \<Rightarrow> 'w"
    and un :: "nat \<Rightarrow> ('w, unit) meth"
    and fi :: "nat \<Rightarrow> 'w \<Rightarrow> 'cb option \<times> 'w"
  assumes watch_ok: "inv w \<Longrightarrow> fresh v w \<Longrightarrow> inv (wa t v cb w) \<and>
      view (wa t v cb w) = (if view w t = None then (view w)(t \<mapsto> cb) else view w)"
    and unwatch_ok: "inv w \<Longrightarrow> \<exists>w'. un t w = (Inr (), w') \<and> inv w' \<and> view w' = (view w)(t := None)"
    and finish_ok: "inv w \<Longrightarrow> \<exists>w'. fi t w = (view w t, w') \<and> inv w' \<and> view w' = (view w)(t := None)"
begin

fun all_fresh :: "'cb event list \<Rightarrow> 'w \<Rightarrow> bool" where
  "all_fresh [] w = True"
| "all_fresh (e # es) w \<longleftrightarrow> fresh_event fresh e w \<and> all_fresh es (snd (run_event wa un fi e w))"

lemma event_refines:
  "inv w \<Longrightarrow> fresh_event fresh e w \<Longrightarrow>
     \<exists>w'. run_event wa un fi e w = (Inr (fst (spec_event e (view w))), w') \<and> inv w' \<and> view w' = snd (spec_event e (view w))"
proof (cases e)
  case (Watch t v cb)
  assume "inv w" "fresh_event fresh e w"
  then show ?thesis using watch_ok [of w v t cb] Watch by simp
next
  case (Unwatch t)
  assume "inv w"
  then show ?thesis using unwatch_ok [of w t] Unwatch by auto
next
  case (Locals_Die t)
  assume "inv w"
  then show ?thesis using finish_ok [of w t] Locals_Die by auto
qed

lemma events_refine:
  "inv w \<Longrightarrow> all_fresh es w \<Longrightarrow>
     \<exists>w'. run_events wa un fi es w = (Inr (fst (spec_events es (view w))), w') \<and> inv w' \<and> view w' = snd (spec_events es (view w))"
proof (induction es arbitrary: w)
  case (Cons e es)
  obtain w1 where w1: "run_event wa un fi e w = (Inr (fst (spec_event e (view w))), w1)" "inv w1"
    "view w1 = snd (spec_event e (view w))"
    using event_refines [of w e] Cons.prems by auto
  moreover have "all_fresh es w1" using Cons.prems(2) w1(1) by simp
  ultimately show ?case using Cons.IH [of w1] by (auto split: prod.split)
qed simp

end

section \<open>The watcher keeps its promise\<close>

definition watcher_inv :: "'cb watcher \<Rightarrow> bool" where
  "watcher_inv w \<longleftrightarrow> dom (tw_refs w) = ran (tw_vigil w) \<and> inj_on (tw_vigil w) (dom (tw_vigil w))"

definition watched :: "'cb watcher \<Rightarrow> nat \<Rightarrow> 'cb option" where
  "watched w t = (case tw_vigil w t of None \<Rightarrow> None | Some v \<Rightarrow> tw_refs w v)"

definition new_vigil :: "nat \<Rightarrow> 'cb watcher \<Rightarrow> bool" where
  "new_vigil v w \<longleftrightarrow> v \<notin> ran (tw_vigil w)"

lemma watched_None: "watcher_inv w \<Longrightarrow> watched w t = None \<longleftrightarrow> tw_vigil w t = None"
  by (auto simp: watcher_inv_def watched_def ran_def dom_def split: option.splits)

lemma is_watching_watched: "is_watching t w \<longleftrightarrow> watched w t \<noteq> None"
  by (simp add: is_watching_def watched_def split: option.splits)

lemma drop_vigil:
  assumes I: "watcher_inv w" and v: "tw_vigil w t = Some v"
  shows "watcher_inv (w\<lparr>tw_vigil := (tw_vigil w)(t := None), tw_refs := (tw_refs w)(v := None)\<rparr>)"
    and "watched (w\<lparr>tw_vigil := (tw_vigil w)(t := None), tw_refs := (tw_refs w)(v := None)\<rparr>) = (watched w)(t := None)"
proof -
  have only: "u = t" if "tw_vigil w u = Some v" for u
    using I v that by (metis domI inj_onD watcher_inv_def)
  have "ran ((tw_vigil w)(t := None)) = ran (tw_vigil w) - {v}"
  proof (intro set_eqI iffI)
    fix u assume "u \<in> ran ((tw_vigil w)(t := None))"
    then obtain s where "s \<noteq> t" "tw_vigil w s = Some u" by (auto simp: ran_def split: if_splits)
    then show "u \<in> ran (tw_vigil w) - {v}" using only [of s] by (auto simp: ran_def)
  next
    fix u assume "u \<in> ran (tw_vigil w) - {v}"
    then obtain s where "u \<noteq> v" "tw_vigil w s = Some u" by (auto simp: ran_def)
    then show "u \<in> ran ((tw_vigil w)(t := None))" using v by (intro ranI [where a = s]) auto
  qed
  moreover have "inj_on ((tw_vigil w)(t := None)) (dom (tw_vigil w) - {t})"
    using I by (auto simp: watcher_inv_def inj_on_def)
  ultimately show "watcher_inv (w\<lparr>tw_vigil := (tw_vigil w)(t := None), tw_refs := (tw_refs w)(v := None)\<rparr>)"
    using I by (simp add: watcher_inv_def)
  show "watched (w\<lparr>tw_vigil := (tw_vigil w)(t := None), tw_refs := (tw_refs w)(v := None)\<rparr>) = (watched w)(t := None)"
  proof
    fix u
    show "watched (w\<lparr>tw_vigil := (tw_vigil w)(t := None), tw_refs := (tw_refs w)(v := None)\<rparr>) u = ((watched w)(t := None)) u"
      using only [of u] by (cases "tw_vigil w u") (auto simp: watched_def)
  qed
qed

interpretation watcher: thread_registry watcher_inv watched new_vigil watch unwatch locals_die
proof unfold_locales
  fix w :: "'cb watcher" and t v cb
  assume I: "watcher_inv w" and v: "new_vigil v w"
  show "watcher_inv (watch t v cb w) \<and>
      watched (watch t v cb w) = (if watched w t = None then (watched w)(t \<mapsto> cb) else watched w)"
  proof (cases "watched w t")
    case None
    then have t: "tw_vigil w t = None" using watched_None [OF I] by simp
    have other: "u = t" if "((tw_vigil w)(t \<mapsto> v)) u = Some v" for u
      using v that by (auto simp: new_vigil_def ran_def split: if_splits)
    have w: "watch t v cb w = w\<lparr>tw_vigil := (tw_vigil w)(t \<mapsto> v), tw_refs := (tw_refs w)(v \<mapsto> cb)\<rparr>"
      using None by (simp add: watch_def is_watching_watched)
    have "dom ((tw_refs w)(v \<mapsto> cb)) = ran ((tw_vigil w)(t \<mapsto> v))"
      using I t by (simp add: watcher_inv_def ran_map_upd)
    moreover have "inj_on ((tw_vigil w)(t \<mapsto> v)) (insert t (dom (tw_vigil w)))"
      using I v by (auto simp: watcher_inv_def inj_on_def new_vigil_def ran_def)
    ultimately have "watcher_inv (watch t v cb w)" by (simp add: watcher_inv_def w)
    moreover have "watched (w\<lparr>tw_vigil := (tw_vigil w)(t \<mapsto> v), tw_refs := (tw_refs w)(v \<mapsto> cb)\<rparr>) = (watched w)(t \<mapsto> cb)"
    proof
      fix u
      show "watched (w\<lparr>tw_vigil := (tw_vigil w)(t \<mapsto> v), tw_refs := (tw_refs w)(v \<mapsto> cb)\<rparr>) u = ((watched w)(t \<mapsto> cb)) u"
        using other [of u]
        by (cases "u = t") (auto simp: watched_def split: option.split)
    qed
    ultimately show ?thesis using None by (simp add: w)
  next
    case (Some c)
    then show ?thesis using I by (simp add: watch_def is_watching_watched)
  qed
next
  fix w :: "'cb watcher" and t
  assume I: "watcher_inv w"
  show "\<exists>w'. unwatch t w = (Inr (), w') \<and> watcher_inv w' \<and> watched w' = (watched w)(t := None)"
  proof (cases "tw_vigil w t")
    case None
    then show ?thesis using I by (auto simp: unwatch_def watched_def fun_eq_iff)
  next
    case (Some v)
    then have "tw_refs w v \<noteq> None" using watched_None [OF I, of t] by (simp add: watched_def)
    then show ?thesis using Some drop_vigil [OF I Some] by (simp add: unwatch_def Let_def)
  qed
  show "\<exists>w'. locals_die t w = (watched w t, w') \<and> watcher_inv w' \<and> watched w' = (watched w)(t := None)"
  proof (cases "tw_vigil w t")
    case None
    then show ?thesis using I by (auto simp: locals_die_def watched_def fun_eq_iff)
  next
    case (Some v)
    then show ?thesis using drop_vigil [OF I Some] by (simp add: locals_die_def on_death_def watched_def)
  qed
qed

lemma new_watcher_ok: "watcher_inv new_watcher" "watched new_watcher = Map.empty"
  by (simp_all add: new_watcher_def watcher_inv_def watched_def fun_eq_iff)

section \<open>Properties\<close>

text \<open>
  Whatever the threads do in whatever order, asking for callbacks, taking them back, losing
  their local storage: no operation raises, and each time a local storage dies exactly the first callback runs that its
  thread asked for since it was last without one, once; a thread that took its callback back, or
  never asked, runs none.
\<close>

theorem watcher_calls_once:
  assumes "thread_registry.all_fresh new_vigil watch unwatch locals_die es new_watcher"
  shows "\<exists>w. run_events watch unwatch locals_die es new_watcher = (Inr (fst (spec_events es Map.empty)), w) \<and>
    watched w = snd (spec_events es Map.empty) \<and> dom (tw_refs w) = ran (tw_vigil w)"
  using watcher.events_refine [OF new_watcher_ok(1) assms] unfolding new_watcher_ok(2) by (auto simp: watcher_inv_def)

lemma watcher_calls_once_witness:
  "\<exists>w. run_events watch unwatch locals_die
      [Watch 1 10 ''a'', Watch 1 11 ''b'', Watch 2 12 ''c'', Unwatch 2, Locals_Die 1, Locals_Die 2, Watch 1 10 ''d'', Locals_Die 1] new_watcher
    = (Inr [(1, ''a''), (1, ''d'')], w) \<and> dom (tw_refs w) = {}"
proof -
  let ?es = "[Watch 1 10 ''a'', Watch 1 11 ''b'', Watch 2 12 ''c'', Unwatch 2, Locals_Die 1, Locals_Die 2, Watch 1 10 ''d'', Locals_Die 1]"
  have "thread_registry.all_fresh new_vigil watch unwatch locals_die ?es new_watcher"
    by (simp add: watcher.all_fresh.simps new_vigil_def new_watcher_def watch_def is_watching_def unwatch_def
        locals_die_def on_death_def Let_def)
  from watcher_calls_once [OF this] obtain w where
    w: "run_events watch unwatch locals_die ?es new_watcher = (Inr [(1, ''a''), (1, ''d'')], w)"
      "watched w = Map.empty" "dom (tw_refs w) = ran (tw_vigil w)"
    by auto
  have "v \<in> dom (tw_refs w) \<Longrightarrow> False" for v
    using w(2,3) unfolding watched_def fun_eq_iff by (auto simp: ran_def split: option.splits)
  then show ?thesis using w(1) by blast
qed

end
