(* ===== verification/Connections.thy ===== *)
theory Connections
  imports Thread_Watcher
begin

text \<open>
  The connections of a database object (zerodb/db.py: \<open>_init_db\<close>, \<open>_conn_open\<close>, \<open>_root\<close>,
  \<open>_connection\<close>, \<open>disconnect\<close>): each thread that uses the database gets a connection of its own
  from the pool of ZODB, and the thread watcher (theory Thread_Watcher) closes it when the
  thread's local storage dies: not when the thread ends, but when Python clears the storage, as late as another
  thread's next access to it (tests/test_pooling.py). Threads, connections and vigils are named by numbers. Which connection the pool
  hands out is an argument, as is the process that runs; closing a connection puts it back
  into the pool, and what ZODB does with one that is closed already is not modelled.
\<close>

section \<open>State and operations\<close>

text \<open>
  \<open>cn_local\<close> is the thread-local connection, \<open>cn_opened\<close> the connections whose \<open>opened\<close> is set,
  \<open>cn_all\<close> those that the pool knows.
\<close>

record conn_db =
  cn_pid :: nat
  cn_local :: "nat \<Rightarrow> nat option"
  cn_opened :: "nat set"
  cn_all :: "nat set"
  cn_watcher :: "nat watcher"

text \<open>\<open>_conn_open\<close> in thread \<open>t\<close>: the pool opens \<open>c\<close>, and \<open>v\<close> is the vigil if one is made.\<close>

definition conn_open :: "nat \<Rightarrow> nat \<Rightarrow> nat \<Rightarrow> conn_db \<Rightarrow> conn_db" where
  "conn_open t v c s =
     s\<lparr>cn_local := (cn_local s)(t \<mapsto> c), cn_opened := insert c (cn_opened s), cn_all := insert c (cn_all s),
       cn_watcher := watch t v c (cn_watcher s)\<rparr>"

text \<open>\<open>destructor\<close>, the callback of the watcher.\<close>

definition conn_destructor :: "nat \<Rightarrow> conn_db \<Rightarrow> conn_db" where
  "conn_destructor conn_id s =
     (if conn_id \<in> cn_all s then s\<lparr>cn_opened := cn_opened s - {conn_id}\<rparr> else s)"

definition conn_init :: "nat \<Rightarrow> nat \<Rightarrow> nat \<Rightarrow> conn_db \<Rightarrow> conn_db" where
  "conn_init t v c s =
     conn_open t v c (s\<lparr>cn_local := Map.empty, cn_opened := {}, cn_all := {}, cn_watcher := new_watcher\<rparr>)"

definition conn_of :: "nat \<Rightarrow> conn_db \<Rightarrow> nat res" where
  "conn_of t s = (case cn_local s t of None \<Rightarrow> Inl AttributeError | Some c \<Rightarrow> Inr c)"

text \<open>\<open>_root\<close> in thread \<open>t\<close> of process \<open>pid\<close>, up to the connection whose root it returns.\<close>

definition needs_connection :: "nat \<Rightarrow> conn_db \<Rightarrow> bool" where
  "needs_connection t s \<longleftrightarrow> (case cn_local s t of None \<Rightarrow> True | Some c \<Rightarrow> c \<notin> cn_opened s)"

definition conn_root :: "nat \<Rightarrow> nat \<Rightarrow> nat \<Rightarrow> nat \<Rightarrow> (conn_db, nat) meth" where
  "conn_root pid t v c s =
     (let s1 = (if pid \<noteq> cn_pid s then conn_init t v c (s\<lparr>cn_pid := pid\<rparr>)
                else if needs_connection t s then conn_open t v c s else s)
      in (conn_of t s1, s1))"

definition conn_disconnect :: "nat \<Rightarrow> conn_db \<Rightarrow> conn_db" where
  "conn_disconnect t s =
     (case cn_local s t of None \<Rightarrow> s | Some c \<Rightarrow> s\<lparr>cn_opened := cn_opened s - {c}\<rparr>)"

text \<open>The local storage of a thread dies, and the watcher runs the callback.\<close>

definition conn_locals_die :: "nat \<Rightarrow> conn_db \<Rightarrow> conn_db" where
  "conn_locals_die t s =
     (case locals_die t (cn_watcher s) of (cb, w) \<Rightarrow>
        (let s1 = s\<lparr>cn_local := (cn_local s)(t := None), cn_watcher := w\<rparr>
         in case cb of None \<Rightarrow> s1 | Some c \<Rightarrow> conn_destructor c s1))"

section \<open>One connection for each thread\<close>

text \<open>
  The steps of a program that does not call \<open>disconnect\<close>: threads use the database, in this
  process or after a fork, and end, and the local storage of an ended thread dies at some later time. The
  second part of the state are the threads that have ended. The pool only hands out connections
  that are not open.
\<close>

inductive conn_step :: "conn_db \<times> nat set \<Rightarrow> conn_db \<times> nat set \<Rightarrow> bool" where
  use_root: "t \<notin> ended \<Longrightarrow> new_vigil v (cn_watcher s) \<Longrightarrow> c \<notin> cn_opened s \<Longrightarrow> conn_root pid t v c s = (r, s') \<Longrightarrow>
    conn_step (s, ended) (s', ended)"
| end_thread: "conn_step (s, ended) (s, insert t ended)"
| storage_dies: "t \<in> ended \<Longrightarrow> conn_step (s, ended) (conn_locals_die t s, ended)"

inductive_cases conn_stepE: "conn_step x y"

definition conn_inv :: "conn_db \<Rightarrow> bool" where
  "conn_inv s \<longleftrightarrow> cn_opened s = ran (cn_local s) \<and> inj_on (cn_local s) (dom (cn_local s)) \<and> cn_opened s \<subseteq> cn_all s \<and>
     watcher_inv (cn_watcher s) \<and> watched (cn_watcher s) = cn_local s"

lemma conn_inv_unique: "conn_inv s \<Longrightarrow> cn_local s u = Some c \<Longrightarrow> cn_local s t = Some c \<Longrightarrow> u = t"
  unfolding conn_inv_def by (metis domI inj_onD)

lemma conn_inv_open: "conn_inv s \<Longrightarrow> c \<in> cn_opened s \<longleftrightarrow> (\<exists>u. cn_local s u = Some c)"
  by (simp add: conn_inv_def ran_def)

lemma conn_open_inv:
  assumes I: "conn_inv s" and new: "new_vigil v (cn_watcher s)" "c \<notin> cn_opened s" "cn_local s t = None"
  shows "conn_inv (conn_open t v c s)"
proof -
  have "inj_on ((cn_local s)(t \<mapsto> c)) (insert t (dom (cn_local s)))"
    using I new(2) by (auto simp: conn_inv_def inj_on_def ran_def)
  moreover have "watcher_inv (watch t v c (cn_watcher s)) \<and> watched (watch t v c (cn_watcher s)) = (cn_local s)(t \<mapsto> c)"
    using watcher.watch_ok [of "cn_watcher s" v t c] I new by (simp add: conn_inv_def)
  ultimately show ?thesis using I new(3) by (auto simp: conn_inv_def conn_open_def ran_map_upd)
qed

lemma needs_connection_new: "conn_inv s \<Longrightarrow> needs_connection t s \<longleftrightarrow> cn_local s t = None"
  by (auto simp: needs_connection_def conn_inv_def ran_def split: option.splits)

lemma conn_init_inv: "conn_inv (conn_init t v c s)"
  unfolding conn_init_def
  by (rule conn_open_inv) (simp_all add: conn_inv_def new_watcher_ok new_vigil_def, simp add: new_watcher_def)

lemma conn_root_inv:
  assumes "conn_inv s" "new_vigil v (cn_watcher s)" "c \<notin> cn_opened s" "conn_root pid t v c s = (r, s')"
  shows "conn_inv s' \<and> (\<exists>x. r = Inr x \<and> cn_local s' t = Some x \<and> x \<in> cn_opened s')"
proof -
  have s': "s' = (if pid \<noteq> cn_pid s then conn_init t v c (s\<lparr>cn_pid := pid\<rparr>)
                else if needs_connection t s then conn_open t v c s else s)" "r = conn_of t s'"
    using assms(4) by (auto simp: conn_root_def Let_def)
  have I: "conn_inv s'"
    using assms(1-3) conn_init_inv conn_open_inv [OF assms(1-3)] needs_connection_new [OF assms(1), of t] by (simp add: s'(1))
  have "cn_local s' t \<noteq> None"
    using needs_connection_new [OF assms(1), of t] by (auto simp: s'(1) conn_init_def conn_open_def)
  then show ?thesis using I s'(2) by (auto simp: conn_of_def conn_inv_def ranI)
qed

lemma conn_locals_die_inv:
  assumes I: "conn_inv s"
  shows "conn_inv (conn_locals_die t s) \<and> cn_local (conn_locals_die t s) = (cn_local s)(t := None) \<and>
    cn_opened (conn_locals_die t s) = cn_opened s - set_option (cn_local s t)"
proof -
  obtain w where w: "locals_die t (cn_watcher s) = (cn_local s t, w)" "watcher_inv w"
    "watched w = (cn_local s)(t := None)"
    using watcher.finish_ok [of "cn_watcher s" t] I by (auto simp: conn_inv_def)
  have ran: "ran ((cn_local s)(t := None)) = ran (cn_local s) - set_option (cn_local s t)"
  proof (intro set_eqI iffI)
    fix c assume "c \<in> ran ((cn_local s)(t := None))"
    then obtain u where "u \<noteq> t" "cn_local s u = Some c" by (auto simp: ran_def split: if_splits)
    moreover have "cn_local s t \<noteq> Some c"
      using conn_inv_unique [OF I] calculation by blast
    ultimately show "c \<in> ran (cn_local s) - set_option (cn_local s t)" by (auto intro: ranI)
  next
    fix c assume "c \<in> ran (cn_local s) - set_option (cn_local s t)"
    then obtain u where "cn_local s u = Some c" "u \<noteq> t" by (auto simp: ran_def)
    then show "c \<in> ran ((cn_local s)(t := None))" by (intro ranI [where a = u]) simp
  qed
  have "inj_on ((cn_local s)(t := None)) (dom (cn_local s) - {t})"
    using I by (auto simp: conn_inv_def inj_on_def)
  moreover have "c \<in> cn_all s" if "cn_local s t = Some c" for c
    using I that by (auto simp: conn_inv_def ran_def)
  ultimately show ?thesis
    using w I ran by (cases "cn_local s t") (auto simp: conn_locals_die_def conn_destructor_def conn_inv_def)
qed

lemma conn_steps_inv: "conn_step\<^sup>*\<^sup>* x y \<Longrightarrow> conn_inv (fst x) \<Longrightarrow> conn_inv (fst y)"
proof (induction rule: rtranclp_induct)
  case (step y z)
  then show ?case using conn_root_inv conn_locals_die_inv by (auto elim!: conn_stepE)
qed

section \<open>Properties\<close>

text \<open>
  C16: As long as nobody calls \<open>disconnect\<close>, and whatever threads use the database, end, or go on in
  a new process: a living thread that uses it always gets a connection, an open one, and always the
  same one while it lives in one process; no two threads have the same. The open connections are
  those of the living threads and those of ended threads whose local storage has not died yet: the end of a
  thread closes nothing, the death of its storage closes its connection and no other, and when
  it has died for all ended threads exactly the connections of living threads are open.
\<close>

theorem threads_own_connections:
  assumes "conn_step\<^sup>*\<^sup>* (conn_init t0 v0 c0 s0, {}) (s, ended)"
    and "t \<notin> ended" "new_vigil v (cn_watcher s)" "c \<notin> cn_opened s" "conn_root pid t v c s = (r, s')"
  shows "(\<exists>x. r = Inr x \<and> x \<in> cn_opened s' \<and> (\<forall>u. cn_local s' u = Some x \<longleftrightarrow> u = t) \<and>
      (\<forall>y. pid = cn_pid s \<and> cn_local s t = Some y \<longrightarrow> x = y \<and> s' = s)) \<and>
    cn_opened s = {x. \<exists>u. cn_local s u = Some x} \<and>
    (\<forall>u. cn_opened (conn_locals_die u s) = cn_opened s - set_option (cn_local s u) \<and>
       (\<forall>w. w \<noteq> u \<longrightarrow> cn_local (conn_locals_die u s) w = cn_local s w)) \<and>
    ((\<forall>u \<in> ended. cn_local s u = None) \<longrightarrow> cn_opened s = {x. \<exists>u. u \<notin> ended \<and> cn_local s u = Some x})"
proof -
  have I: "conn_inv s" using conn_steps_inv [OF assms(1)] conn_init_inv by simp
  note R = conn_root_inv [OF I assms(3-5)]
  then obtain x where x: "conn_inv s'" "r = Inr x" "cn_local s' t = Some x" "x \<in> cn_opened s'" by blast
  have "u = t" if "cn_local s' u = Some x" for u
    using conn_inv_unique [OF x(1) that x(3)] .
  moreover have "x = y \<and> s' = s" if "pid = cn_pid s" "cn_local s t = Some y" for y
    using assms(5) that x(2) needs_connection_new [OF I, of t] by (auto simp: conn_root_def conn_of_def)
  moreover have "cn_opened s = {x. \<exists>u. cn_local s u = Some x}" using conn_inv_open [OF I] by blast
  moreover have "(\<forall>u \<in> ended. cn_local s u = None) \<longrightarrow> cn_opened s = {x. \<exists>u. u \<notin> ended \<and> cn_local s u = Some x}"
  proof
    assume "\<forall>u \<in> ended. cn_local s u = None"
    then have "cn_local s u = Some x \<longleftrightarrow> u \<notin> ended \<and> cn_local s u = Some x" for u x by auto
    then show "cn_opened s = {x. \<exists>u. u \<notin> ended \<and> cn_local s u = Some x}" using conn_inv_open [OF I] by auto
  qed
  moreover have "cn_opened (conn_locals_die u s) = cn_opened s - set_option (cn_local s u) \<and>
      (\<forall>w. w \<noteq> u \<longrightarrow> cn_local (conn_locals_die u s) w = cn_local s w)" for u
    using conn_locals_die_inv [OF I, of u] by simp
  ultimately show ?thesis using x(2-4) by blast
qed

text \<open>
  C33: \<open>disconnect\<close> breaks this. A thread closes its connection but keeps it in its thread-local
  storage: when the pool gives it to another thread, the first one uses it again, so both use one
  connection; and the watcher still closes it when the first thread's local storage dies, while the
  other uses it.
\<close>

theorem disconnect_shares_connection:
  assumes "conn_inv s" "cn_local s t = Some c" "cn_local s u = None" "t \<noteq> u" "new_vigil v (cn_watcher s)"
    and "conn_root (cn_pid s) u v c (conn_disconnect t s) = (r, s1)"
  shows "r = Inr c \<and> conn_root (cn_pid s) t w d s1 = (Inr c, s1) \<and> c \<in> cn_opened s1 \<and>
    cn_local (conn_locals_die t s1) u = Some c \<and> c \<notin> cn_opened (conn_locals_die t s1)"
proof -
  have I: "cn_opened s = ran (cn_local s)" "watcher_inv (cn_watcher s)" "watched (cn_watcher s) = cn_local s"
    using assms(1) unfolding conn_inv_def by blast+
  have s1: "s1 = conn_open u v c (conn_disconnect t s)" "r = Inr c"
    using assms(2-4,6)
    by (auto simp: conn_root_def needs_connection_def conn_disconnect_def conn_open_def conn_of_def Let_def)
  have t: "cn_local s1 t = Some c" "cn_local s1 u = Some c" "cn_opened s1 = insert c (cn_opened s)" "cn_pid s1 = cn_pid s"
    "c \<in> cn_all s1" "cn_watcher s1 = watch u v c (cn_watcher s)"
    using assms(2,4) I(1) by (auto simp: s1(1) conn_open_def conn_disconnect_def ran_def)
  have "watcher_inv (cn_watcher s1) \<and> watched (cn_watcher s1) = (cn_local s)(u \<mapsto> c)"
    using watcher.watch_ok [OF I(2) assms(5), of u c] assms(3) I(3) by (simp add: t(6))
  then obtain w' where "locals_die t (cn_watcher s1) = (Some c, w')"
    using watcher.finish_ok [of "cn_watcher s1" t] assms(2,4) by auto
  then have "cn_local (conn_locals_die t s1) = (cn_local s1)(t := None)" "c \<notin> cn_opened (conn_locals_die t s1)"
    using t(5) by (simp_all add: conn_locals_die_def conn_destructor_def)
  moreover have "conn_root (cn_pid s) t w d s1 = (Inr c, s1)"
    using t by (simp add: conn_root_def needs_connection_def conn_of_def)
  ultimately show ?thesis using s1(2) t assms(4) by simp
qed

section \<open>Witnesses\<close>

definition conn_before :: conn_db where
  "conn_before = \<lparr>cn_pid = 7, cn_local = Map.empty, cn_opened = {}, cn_all = {}, cn_watcher = new_watcher\<rparr>"

definition conn_start :: conn_db where
  "conn_start = conn_init 1 10 100 conn_before"

lemma conn_start_fields:
  "cn_pid conn_start = 7" "cn_local conn_start = [1 \<mapsto> 100]" "cn_opened conn_start = {100}"
  "tw_vigil (cn_watcher conn_start) = [1 \<mapsto> 10]"
  by (simp_all add: conn_start_def conn_before_def conn_init_def conn_open_def watch_def is_watching_def new_watcher_def)

text \<open>Thread 1 ends: its connection stays open while thread 2 starts, and is closed when its storage dies.\<close>

lemma threads_own_connections_witness:
  "\<exists>s'. conn_step\<^sup>*\<^sup>* (conn_init 1 10 100 conn_before, {}) (conn_start, {1}) \<and>
     conn_root 7 2 11 101 conn_start = (Inr 101, s') \<and> 101 \<in> cn_opened s' \<and>
     cn_opened conn_start = {100} \<and> cn_opened (conn_locals_die 1 conn_start) = {}"
proof -
  obtain r s' where r: "conn_root 7 2 11 101 conn_start = (r, s')" by fastforce
  then have s': "r = Inr 101"
    by (auto simp: conn_root_def conn_start_fields needs_connection_def conn_open_def conn_of_def)
  have steps: "conn_step\<^sup>*\<^sup>* (conn_init 1 10 100 conn_before, {}) (conn_start, {1})"
    unfolding conn_start_def by (rule r_into_rtranclp) (rule end_thread)
  have "(2 :: nat) \<notin> {1}" "new_vigil 11 (cn_watcher conn_start)" "101 \<notin> cn_opened conn_start"
    by (simp_all add: new_vigil_def conn_start_fields)
  from threads_own_connections [OF steps this r] show ?thesis
    using r s' steps by (auto simp: conn_start_fields)
qed

lemma disconnect_shares_connection_witness:
  "\<exists>s1. conn_root 7 2 11 100 (conn_disconnect 1 conn_start) = (Inr 100, s1) \<and>
     conn_root 7 1 12 101 s1 = (Inr 100, s1) \<and> 100 \<notin> cn_opened (conn_locals_die 1 s1)"
proof -
  obtain r s1 where r: "conn_root (cn_pid conn_start) 2 11 100 (conn_disconnect 1 conn_start) = (r, s1)" by fastforce
  have "conn_inv conn_start" unfolding conn_start_def by (rule conn_init_inv)
  moreover have "cn_local conn_start 1 = Some 100" "cn_local conn_start 2 = None" "(1 :: nat) \<noteq> 2"
    "new_vigil 11 (cn_watcher conn_start)"
    by (simp_all add: new_vigil_def conn_start_fields)
  ultimately show ?thesis using disconnect_shares_connection [OF _ _ _ _ _ r] r by (simp add: conn_start_fields)
qed

end
