(* ===== verification/Client_Setup.thy ===== *)
theory Client_Setup
  imports Tls Kdf Shared_Registry Connections
begin

text \<open>
  Making a database object (\<open>DB.__init__\<close>, \<open>_init_db\<close> and \<open>enableAutoReindex\<close> of zerodb/db.py, with
  collective/indexing/subscribers.py): the socket's address, the TLS context, key and credentials, and
  what is global to the process: the ciphers, the processor of the indexing queue, and the
  subscription to changes of objects. A second database in a process shares these globals.
\<close>

section \<open>Addresses\<close>

text \<open>\<open>str\<close> and \<open>int\<close> of numbers and texts, in decimal ASCII digits.\<close>

definition digit :: "nat \<Rightarrow> char" where "digit d = char_of (48 + d)"

definition digit_value :: "char \<Rightarrow> nat option" where
  "digit_value c = (let n = of_char c :: nat in if 48 \<le> n \<and> n \<le> 57 then Some (n - 48) else None)"

fun nat_digits :: "nat \<Rightarrow> string" where
  "nat_digits n = (if n < 10 then [digit n] else nat_digits (n div 10) @ [digit (n mod 10)])"

declare nat_digits.simps [simp del]

definition str_int :: "int \<Rightarrow> string" where
  "str_int i = (if i < 0 then CHR ''-'' # nat_digits (nat (- i)) else nat_digits (nat i))"

fun digits_value :: "nat \<Rightarrow> string \<Rightarrow> nat option" where
  "digits_value acc [] = Some acc"
| "digits_value acc (c # cs) = (case digit_value c of None \<Rightarrow> None | Some d \<Rightarrow> digits_value (10 * acc + d) cs)"

definition digits_int :: "string \<Rightarrow> int res" where
  "digits_int cs = (if cs = [] then Inl ValueError
     else case digits_value 0 cs of None \<Rightarrow> Inl ValueError | Some n \<Rightarrow> Inr (int n))"

definition white :: "char \<Rightarrow> bool" where
  "white c \<longleftrightarrow> c \<in> {CHR '' '', CHR 0x09, CHR 0x0A, CHR 0x0B, CHR 0x0C, CHR 0x0D}"

definition strip_white :: "string \<Rightarrow> string" where
  "strip_white s = rev (dropWhile white (rev (dropWhile white s)))"

definition int_of_text :: "string \<Rightarrow> int res" where
  "int_of_text s =
     (case strip_white s of
        [] \<Rightarrow> Inl ValueError
      | c # cs \<Rightarrow> if c = CHR ''-'' then bindr (digits_int cs) (\<lambda>n. Inr (- n))
                   else if c = CHR ''+'' then digits_int cs else digits_int (c # cs))"

text \<open>
  The argument \<open>sock\<close>: a text, a tuple or list of texts and numbers, or something else, which is
  handed on as it is.
\<close>

datatype sock_item = Text bytes | Number int

datatype sock = Path bytes | Items "sock_item list" | Other_Sock

fun str_item :: "sock_item \<Rightarrow> bytes" where
  "str_item (Text s) = s"
| "str_item (Number n) = str_int n"

fun int_item :: "sock_item \<Rightarrow> int res" where
  "int_item (Text s) = int_of_text s"
| "int_item (Number n) = Inr n"

definition normal_sock :: "sock \<Rightarrow> sock res" where
  "normal_sock s =
     (case s of
        Items items \<Rightarrow>
          bindr (py_assert (length items = 2)) (\<lambda>_.
          bindr (int_item (items ! 1)) (\<lambda>port. Inr (Items [Text (str_item (items ! 0)), Number port])))
      | _ \<Rightarrow> Inr s)"

lemma digit_value_digit: "d < 10 \<Longrightarrow> digit_value (digit d) = Some d"
  by (simp add: digit_value_def digit_def)

lemma digit_not_special: "d < 10 \<Longrightarrow> \<not> white (digit d) \<and> digit d \<noteq> CHR ''-'' \<and> digit d \<noteq> CHR ''+''"
proof -
  assume "d < 10"
  then have "digit_value (digit d) \<noteq> None" by (simp add: digit_value_digit)
  moreover have "digit_value c = None" if "white c \<or> c = CHR ''-'' \<or> c = CHR ''+''" for c
    using that by (auto simp: white_def digit_value_def)
  ultimately show ?thesis by metis
qed

lemma digits_value_append:
  "digits_value acc (xs @ ys) = (case digits_value acc xs of None \<Rightarrow> None | Some n \<Rightarrow> digits_value n ys)"
  by (induction xs arbitrary: acc) (auto split: option.splits)

lemma digits_value_nat_digits: "digits_value 0 (nat_digits n) = Some n"
proof (induction n rule: nat_digits.induct)
  case (1 n)
  then show ?case
    by (subst nat_digits.simps) (auto simp: digits_value_append digit_value_digit)
qed

lemma nat_digits_chars: "set (nat_digits n) \<subseteq> digit ` {..<10} \<and> nat_digits n \<noteq> []"
proof (induction n rule: nat_digits.induct)
  case (1 n)
  then show ?case by (subst (1 2) nat_digits.simps) auto
qed

lemma strip_white_id:
  assumes "s \<noteq> []" "\<not> white (hd s)" "\<not> white (List.last s)"
  shows "strip_white s = s"
proof -
  have "dropWhile white s = s" using assms(1,2) by (cases s) simp_all
  moreover have "dropWhile white (rev s) = rev s" using assms(1,3) by (cases s rule: rev_cases) simp_all
  ultimately show ?thesis by (simp add: strip_white_def)
qed

lemma int_of_text_str: "int_of_text (str_int n) = Inr n"
proof -
  have d: "\<not> white c \<and> c \<noteq> CHR ''-'' \<and> c \<noteq> CHR ''+''" if "c \<in> set (nat_digits m)" for c m
  proof -
    have "c \<in> digit ` {..<10}" using that nat_digits_chars [of m] by auto
    then show ?thesis using digit_not_special by auto
  qed
  have ne: "nat_digits m \<noteq> []" for m using nat_digits_chars [of m] by simp
  have last: "\<not> white (List.last (nat_digits m))" for m using d [of "List.last (nat_digits m)" m] by (simp add: ne)
  have first: "\<not> white (hd (nat_digits m))" for m using d [of "hd (nat_digits m)" m] by (simp add: ne)
  have minus: "strip_white (CHR ''-'' # nat_digits m) = CHR ''-'' # nat_digits m" for m
    by (rule strip_white_id) (simp_all add: ne last, simp add: white_def)
  have plain: "strip_white (nat_digits m) = nat_digits m" for m
    by (rule strip_white_id) (simp_all add: ne first last)
  have val: "digits_int (nat_digits m) = Inr (int m)" for m
    by (simp add: digits_int_def ne digits_value_nat_digits)
  show ?thesis
  proof (cases "n < 0")
    case True
    then show ?thesis by (simp add: int_of_text_def str_int_def minus val)
  next
    case False
    obtain c cs where c: "nat_digits (nat n) = c # cs" using ne by (cases "nat_digits (nat n)") auto
    then have "c \<noteq> CHR ''-''" "c \<noteq> CHR ''+''" using d [of c "nat n"] by auto
    then show ?thesis using False val [of "nat n"] plain [of "nat n"] by (simp add: int_of_text_def str_int_def c)
  qed
qed

text \<open>A port given as a number or as its text is the same address, and an address is normal once.\<close>

lemma normal_sock_port: "normal_sock (Items [h, Text (str_int n)]) = normal_sock (Items [h, Number n])"
  by (simp add: normal_sock_def int_of_text_str)

lemma normal_sock_idem: "normal_sock s = Inr t \<Longrightarrow> normal_sock t = Inr t"
  by (auto simp: normal_sock_def bindr_eq_Inr split: sock.splits)

section \<open>What is global to the process\<close>

text \<open>
  \<open>gl_registry\<close> has the ciphers and compressors (theory Transform); \<open>gl_processor\<close> is the database
  whose processor is registered under the name zerodb-indexer, and \<open>gl_enabled\<close> the flags of
  all processors; \<open>gl_subscribers\<close> are the names of the subscribers to events.
\<close>

record globals =
  gl_registry :: registry
  gl_processor :: "nat option"
  gl_enabled :: "nat \<Rightarrow> bool option"
  gl_subscribers :: "string list"

definition autoreindex_dispatcher :: string where
  "autoreindex_dispatcher = ''zerodb_autoreindex_dispatcher''"

text \<open>\<open>subscribers.init\<close>\<close>

definition subscribers_init :: "string list \<Rightarrow> string list" where
  "subscribers_init subs =
     (if autoreindex_dispatcher \<in> set subs then subs else subs @ [autoreindex_dispatcher])"

text \<open>\<open>AutoReindexQueueProcessor(db, enabled)\<close>, and its registration as the utility.\<close>

definition provide_processor :: "nat \<Rightarrow> bool \<Rightarrow> globals \<Rightarrow> globals" where
  "provide_processor db enabled g = g\<lparr>gl_enabled := (gl_enabled g)(db \<mapsto> enabled), gl_processor := Some db\<rparr>"

definition enableAutoReindex :: "nat \<Rightarrow> bool \<Rightarrow> globals \<Rightarrow> globals" where
  "enableAutoReindex db enabled g =
     (let g1 = (if enabled then g\<lparr>gl_subscribers := subscribers_init (gl_subscribers g)\<rparr> else g)
      in g1\<lparr>gl_enabled := (gl_enabled g1)(db \<mapsto> enabled)\<rparr>)"

text \<open>
  \<open>AutoReindexQueueProcessor.reindex\<close>, reached from the queue: the database, if any, that
  reindexes a changed object. It is the same for the objects of all databases.
\<close>

definition reindexing_db :: "globals \<Rightarrow> nat option" where
  "reindexing_db g =
     (case gl_processor g of
        None \<Rightarrow> None
      | Some db \<Rightarrow> if gl_enabled g db = Some True then Some db else None)"

section \<open>The database object\<close>

record db_args =
  ar_sock :: sock
  ar_key :: "bytes option"
  ar_username :: "bytes option"
  ar_password :: "bytes option"
  ar_cert_file :: "bytes option"
  ar_key_file :: "bytes option"
  ar_server_cert :: "bytes option"
  ar_security :: "security option"
  ar_debug :: bool
  ar_pool_timeout :: int
  ar_pool_size :: int
  ar_autoreindex :: bool
  ar_wait_timeout :: int
  ar_kw :: "(string \<times> int) list"

record storage_kwargs =
  sk_sock :: sock
  sk_ssl :: ssl_context
  sk_cache_size :: int
  sk_debug :: bool
  sk_wait_timeout :: int
  sk_credentials :: "(bytes option \<times> bytes) option"

record db_client =
  dc_autoreindex :: bool
  dc_storage_kwargs :: storage_kwargs
  dc_db_kwargs :: "(string \<times> int) list"
  dc_storage :: transforming
  dc_root_oid :: bytes
  dc_connections :: conn_db

text \<open>
  What a database object depends on: the class attributes \<open>encrypter\<close>, \<open>compressor\<close> and
  \<open>appname\<close>, the files and third-party code. \<open>ce_connect\<close> is ZEO's client: the server's state and the
  id that \<open>get_root_id\<close> answers, or the exception of a failed log-in or a timeout.
\<close>

record 's client_env =
  ce_files :: cert_files
  ce_here :: bytes
  ce_kdf :: kdf_env
  ce_crypto :: crypto
  ce_encrypters :: "enc_class list"
  ce_compressor :: "compressor option"
  ce_appname :: bytes
  ce_connect :: "storage_kwargs \<Rightarrow> ('s \<times> bytes) res"
  ce_base :: "'s storage_ops"
  ce_zodb :: zodb_utils

text \<open>The checks and conversions at the start, which touch nothing global.\<close>

definition both_files :: "bytes option \<Rightarrow> bytes option \<Rightarrow> unit res" where
  "both_files cert_file key_file =
     (if (given cert_file \<or> given key_file) \<and> \<not> (given cert_file \<and> given key_file) then Inl TypeError else Inr ())"

definition prepare :: "'s client_env \<Rightarrow> db_args \<Rightarrow> (ssl_context \<times> (bytes option \<times> bytes) option \<times> bytes option \<times> sock) res" where
  "prepare E a =
     bindr (both_files (ar_cert_file a) (ar_key_file a)) (\<lambda>_.
     bindr (make_ssl (ce_files E) (ce_here E) (ar_cert_file a) (ar_key_file a) (ar_server_cert a)) (\<lambda>ctx.
     bindr (db_credentials (ce_kdf E) (ar_security a) (ar_username a) (ar_password a) (ar_key_file a)
              (ar_cert_file a) (ce_appname E) (ar_key a)) (\<lambda>(credentials, key).
     bindr (normal_sock (ar_sock a)) (\<lambda>sock. Inr (ctx, credentials, key, sock)))))"

definition storage_settings :: "db_args \<Rightarrow> sock \<Rightarrow> ssl_context \<Rightarrow> (bytes option \<times> bytes) option \<Rightarrow> storage_kwargs" where
  "storage_settings a sock ctx credentials =
     \<lparr>sk_sock = sock, sk_ssl = ctx, sk_cache_size = 2 ^ 30, sk_debug = ar_debug a,
      sk_wait_timeout = ar_wait_timeout a, sk_credentials = credentials\<rparr>"

text \<open>\<open>dict.update\<close> with the extra keywords.\<close>

definition db_settings :: "db_args \<Rightarrow> (string \<times> int) list" where
  "db_settings a =
     fold (\<lambda>(k, v). AList.update k v) (ar_kw a)
       [(''pool_size'', ar_pool_size a), (''pool_timeout'', ar_pool_timeout a),
        (''cache_size'', 1000000), (''cache_size_bytes'', 100 * 2 ^ 20)]"

text \<open>\<open>init_crypto(key=key)\<close> after registering the classes; \<open>encrypter\<close> may be an empty list.\<close>

definition crypto_step :: "'s client_env \<Rightarrow> bytes option \<Rightarrow> (globals, unit) meth" where
  "crypto_step E key g =
     (case init_default_crypto_step (ce_crypto E) (ce_encrypters E) (ce_compressor E) None key (gl_registry g) of
        (r, reg) \<Rightarrow> (r, g\<lparr>gl_registry := reg\<rparr>))"

text \<open>
  \<open>_init_db\<close> in thread \<open>t\<close>: the storage, with the cipher of the root record as the default from
  now on, and the first connection \<open>c\<close> with vigil \<open>v\<close>.
\<close>

definition init_db_client ::
  "'s client_env \<Rightarrow> bool \<Rightarrow> storage_kwargs \<Rightarrow> nat \<Rightarrow> nat \<Rightarrow> nat \<Rightarrow> conn_db \<Rightarrow> (globals, transforming \<times> bytes \<times> conn_db) meth" where
  "init_db_client E autoreindex kwargs t v c conns =
     m_bind (m_modify (\<lambda>g. if autoreindex then g\<lparr>gl_subscribers := subscribers_init (gl_subscribers g)\<rparr> else g)) (\<lambda>_.
     m_bind (m_lift (\<lambda>_. ce_connect E kwargs)) (\<lambda>(s, root) g.
       case ts_init (ce_zodb E) (ce_base E) root (sk_debug kwargs) s (gl_registry g) of
         Inl e \<Rightarrow> (Inl e, g)
       | Inr (ts, r) \<Rightarrow> (Inr (ts, root, conn_init t v c conns), g\<lparr>gl_registry := r\<rparr>)))"

text \<open>\<open>DB(...)\<close>; \<open>db\<close> is the identity of the new object, \<open>pid\<close> the process.\<close>

definition new_db :: "'s client_env \<Rightarrow> nat \<Rightarrow> nat \<Rightarrow> nat \<Rightarrow> nat \<Rightarrow> nat \<Rightarrow> db_args \<Rightarrow> (globals, db_client) meth" where
  "new_db E db pid t v c a =
     m_bind (m_lift (\<lambda>_. prepare E a)) (\<lambda>(ctx, credentials, key, sock).
     m_bind (m_modify (provide_processor db (ar_autoreindex a))) (\<lambda>_.
     m_bind (crypto_step E key) (\<lambda>_.
     let kwargs = storage_settings a sock ctx credentials;
         conns = \<lparr>cn_pid = pid, cn_local = Map.empty, cn_opened = {}, cn_all = {}, cn_watcher = new_watcher\<rparr> in
     m_bind (init_db_client E (ar_autoreindex a) kwargs t v c conns) (\<lambda>(ts, root, conns).
     m_return \<lparr>dc_autoreindex = ar_autoreindex a, dc_storage_kwargs = kwargs, dc_db_kwargs = db_settings a,
       dc_storage = ts, dc_root_oid = root, dc_connections = conns\<rparr>))))"

section \<open>What a database object changes\<close>

lemma init_db_client_Inr:
  assumes "init_db_client E b kwargs t v c conns g = (Inr (ts, root, conns'), g')"
  obtains s r where "ce_connect E kwargs = Inr (s, root)"
    "ts_init (ce_zodb E) (ce_base E) root (sk_debug kwargs) s (gl_registry g) = Inr (ts, r)"
    "conns' = conn_init t v c conns"
    "g' = g\<lparr>gl_registry := r, gl_subscribers := (if b then subscribers_init (gl_subscribers g) else gl_subscribers g)\<rparr>"
proof (cases "ce_connect E kwargs")
  case (Inr sr)
  obtain s r' where sr: "sr = (s, r')" by fastforce
  show thesis
    using assms Inr sr
    by (cases b; cases "ts_init (ce_zodb E) (ce_base E) r' (sk_debug kwargs) s (gl_registry g)")
      (auto simp: init_db_client_def m_bind_def meth_simps intro!: that)
qed (use assms in \<open>simp add: init_db_client_def m_bind_def meth_simps\<close>)

lemma new_db_Inr:
  assumes "new_db E db pid t v c a g = (Inr d, g')"
  obtains ctx credentials key sock r s root ts r2
  where "prepare E a = Inr (ctx, credentials, key, sock)"
    and "init_default_crypto (ce_crypto E) (ce_encrypters E) (ce_compressor E) None key (gl_registry g) = Inr r"
    and "ce_connect E (storage_settings a sock ctx credentials) = Inr (s, root)"
    and "ts_init (ce_zodb E) (ce_base E) root (ar_debug a) s r = Inr (ts, r2)"
    and "g' = (provide_processor db (ar_autoreindex a) g)\<lparr>gl_registry := r2,
        gl_subscribers := (if ar_autoreindex a then subscribers_init (gl_subscribers g) else gl_subscribers g)\<rparr>"
    and "d = \<lparr>dc_autoreindex = ar_autoreindex a, dc_storage_kwargs = storage_settings a sock ctx credentials,
        dc_db_kwargs = db_settings a, dc_storage = ts, dc_root_oid = root,
        dc_connections = conn_init t v c \<lparr>cn_pid = pid, cn_local = Map.empty, cn_opened = {}, cn_all = {}, cn_watcher = new_watcher\<rparr>\<rparr>"
proof -
  from assms obtain ctx credentials key sock where p: "prepare E a = Inr (ctx, credentials, key, sock)"
    by (cases "prepare E a") (auto simp: new_db_def m_bind_eq_Inr meth_simps)
  let ?kwargs = "storage_settings a sock ctx credentials" and ?g1 = "provide_processor db (ar_autoreindex a) g"
    and ?conns = "\<lparr>cn_pid = pid, cn_local = Map.empty, cn_opened = {}, cn_all = {}, cn_watcher = new_watcher\<rparr>"
  from assms obtain g2 ts root conns where step: "crypto_step E key ?g1 = (Inr (), g2)"
      "init_db_client E (ar_autoreindex a) ?kwargs t v c ?conns g2 = (Inr (ts, root, conns), g')"
    and d: "d = \<lparr>dc_autoreindex = ar_autoreindex a, dc_storage_kwargs = ?kwargs, dc_db_kwargs = db_settings a,
       dc_storage = ts, dc_root_oid = root, dc_connections = conns\<rparr>"
    by (auto simp: new_db_def m_bind_eq_Inr meth_simps p Let_def)
  from step(1) obtain r where r: "init_default_crypto_step (ce_crypto E) (ce_encrypters E) (ce_compressor E) None key (gl_registry g) = (Inr (), r)"
      "g2 = ?g1\<lparr>gl_registry := r\<rparr>"
    by (auto simp: crypto_step_def provide_processor_def split: prod.splits)
  show thesis
  proof (rule init_db_client_Inr [OF step(2)])
    fix s r2
    assume "ce_connect E ?kwargs = Inr (s, root)"
      "ts_init (ce_zodb E) (ce_base E) root (sk_debug ?kwargs) s (gl_registry g2) = Inr (ts, r2)"
      "conns = conn_init t v c ?conns"
      "g' = g2\<lparr>gl_registry := r2, gl_subscribers :=
         (if ar_autoreindex a then subscribers_init (gl_subscribers g2) else gl_subscribers g2)\<rparr>"
    then show thesis
      by (intro that [OF p init_default_crypto_step_Inr [THEN iffD1, OF r(1)]])
        (auto simp: r(2) d provide_processor_def storage_settings_def)
  qed
qed

lemma prepare_Inr:
  assumes "prepare E a = Inr (ctx, credentials, key, sock)"
  shows "given (ar_cert_file a) \<longleftrightarrow> given (ar_key_file a)"
    and "make_ssl (ce_files E) (ce_here E) (ar_cert_file a) (ar_key_file a) (ar_server_cert a) = Inr ctx"
    and "db_credentials (ce_kdf E) (ar_security a) (ar_username a) (ar_password a) (ar_key_file a)
           (ar_cert_file a) (ce_appname E) (ar_key a) = Inr (credentials, key)"
    and "normal_sock (ar_sock a) = Inr sock"
  using assms by (auto simp: prepare_def both_files_def bindr_eq_Inr split: if_splits)

lemma new_db_registry:
  assumes "new_db E db pid t v c a g = (Inr d, g')" "ce_encrypters E = c0 # cs" "registry_wf (gl_registry g)"
    and "prepare E a = Inr (ctx, credentials, key, sock)"
  shows "keyed key (gl_registry g') \<and> registry_wf (gl_registry g') \<and>
    (\<forall>x. class_at (gl_registry g) (class_name x) \<noteq> None \<or> x \<in> set (c0 # cs) \<longrightarrow> class_at (gl_registry g') (class_name x) \<noteq> None)"
proof (rule new_db_Inr [OF assms(1)])
  fix ctx' credentials' key' sock' r s root ts r2
  assume "prepare E a = Inr (ctx', credentials', key', sock')"
    and r: "init_default_crypto (ce_crypto E) (ce_encrypters E) (ce_compressor E) None key' (gl_registry g) = Inr r"
      "ts_init (ce_zodb E) (ce_base E) root (ar_debug a) s r = Inr (ts, r2)"
    and g': "g' = (provide_processor db (ar_autoreindex a) g)\<lparr>gl_registry := r2,
        gl_subscribers := (if ar_autoreindex a then subscribers_init (gl_subscribers g) else gl_subscribers g)\<rparr>"
  then have "key' = key" using assms(4) by simp
  with r(1) have run: "init_default_crypto (ce_crypto E) (c0 # cs) (ce_compressor E) None key (gl_registry g) = Inr r"
    by (simp add: assms(2))
  note K = init_default_crypto_keyed [OF assms(3) run]
  have "keyed key r" using K(1) by (simp add: derived_key_def)
  have "class_at r (class_name x) \<noteq> None" if x: "x \<in> set (c0 # cs)" for x
  proof -
    have g: "classes_wf (gl_registry g)" "registry_inv (gl_registry g)" using assms(3) by (simp_all add: registry_wf_def)
    obtain e where "enc_at r (class_name x) = Some e" "enc_class_of e = x"
      using init_default_crypto_keys(4) [OF g(1,2) run x] by blast
    then show ?thesis using K(2) unfolding registry_wf_def by blast
  qed
  with ts_init_keyed [OF r(2) \<open>keyed key r\<close> K(2)] K(3) show ?thesis by (auto simp: g')
qed

lemma db_credentials_given:
  assumes "kdf_ok K" "db_credentials K None name password key_file cert_file appname key0 = Inr (credentials, key)"
  shows "key \<noteq> None"
    and "case password of None \<Rightarrow> credentials = None
      | Some p \<Rightarrow> p = [] \<or> (\<exists>u h. name = Some u \<and> server_password K u p appname = Inr h \<and> credentials = Some (Some u, h))"
  using db_credentials_safe [OF assms] by (auto split: option.splits)

lemma make_ssl_files:
  assumes "make_ssl F here cert key server_cert = Inr ctx" "server_cert \<noteq> Some []" "given cert \<longleftrightarrow> given key"
  shows "sx_verify_mode ctx = Cert_Required" "sx_check_hostname ctx \<longleftrightarrow> server_cert = None"
    and "sx_trust ctx = (case server_cert of None \<Rightarrow> [Default_Certs] | Some f \<Rightarrow> [CA_File f])"
    and "sx_cert_chain ctx = (if given cert then Some (the cert, the key)
      else Some (here @ ''permissions/nobody.pem'', here @ ''permissions/nobody-key.pem''))"
  using make_ssl_Inr [OF assms(1,2)] assms(3) by (auto simp: file_or_def given_def split: option.splits)

section \<open>Properties\<close>

text \<open>
  C7: A database that was opened asks for the server's certificate, trusts the one it was given and
  otherwise checks the host name, and shows its own certificate or nobody's; it logs in with the
  hashed password; what is encrypted from now on is marked as such and read back; and it is the one
  that reindexes changed objects.
\<close>

theorem client_settings:
  assumes new: "new_db E db pid t v c a g = (Inr d, g')" and classes: "ce_encrypters E = c0 # cs"
    and wf: "registry_wf (gl_registry g)" and ok: "crypto_ok (ce_crypto E)" "kdf_ok (ce_kdf E)"
    and args: "ar_security a = None" "ar_server_cert a \<noteq> Some []"
  shows "(let kw = dc_storage_kwargs d; ctx = sk_ssl kw in
      sx_verify_mode ctx = Cert_Required \<and>
      (sx_check_hostname ctx \<longleftrightarrow> ar_server_cert a = None) \<and>
      sx_trust ctx = (case ar_server_cert a of None \<Rightarrow> [Default_Certs] | Some f \<Rightarrow> [CA_File f]) \<and>
      sx_cert_chain ctx = (if given (ar_cert_file a) then Some (the (ar_cert_file a), the (ar_key_file a))
        else Some (ce_here E @ ''permissions/nobody.pem'', ce_here E @ ''permissions/nobody-key.pem'')) \<and>
      (case ar_password a of
         None \<Rightarrow> sk_credentials kw = None
       | Some p \<Rightarrow> p = [] \<or> (\<exists>u h. ar_username a = Some u \<and>
           server_password (ce_kdf E) u p (ce_appname E) = Inr h \<and> sk_credentials kw = Some (Some u, h)))) \<and>
    (\<forall>x nn. startswith (encrypt (ce_crypto E) (gl_registry g') x nn) ''.e'' \<and>
       decrypt (ce_crypto E) (gl_registry g') (encrypt (ce_crypto E) (gl_registry g') x nn) = Inr x) \<and>
    reindexing_db g' = (if ar_autoreindex a then Some db else None) \<and>
    (autoreindex_dispatcher \<in> set (gl_subscribers g') \<longleftrightarrow>
       ar_autoreindex a \<or> autoreindex_dispatcher \<in> set (gl_subscribers g)) \<and>
    cn_local (dc_connections d) = [t \<mapsto> c]"
proof (rule new_db_Inr [OF new])
  fix ctx credentials key sock r s root ts r2
  assume p: "prepare E a = Inr (ctx, credentials, key, sock)"
    and r: "init_default_crypto (ce_crypto E) (ce_encrypters E) (ce_compressor E) None key (gl_registry g) = Inr r"
    and g': "g' = (provide_processor db (ar_autoreindex a) g)\<lparr>gl_registry := r2,
        gl_subscribers := (if ar_autoreindex a then subscribers_init (gl_subscribers g) else gl_subscribers g)\<rparr>"
    and d: "d = \<lparr>dc_autoreindex = ar_autoreindex a, dc_storage_kwargs = storage_settings a sock ctx credentials,
        dc_db_kwargs = db_settings a, dc_storage = ts, dc_root_oid = root,
        dc_connections = conn_init t v c \<lparr>cn_pid = pid, cn_local = Map.empty, cn_opened = {}, cn_all = {}, cn_watcher = new_watcher\<rparr>\<rparr>"
  note P = prepare_Inr [OF p]
  note cred = db_credentials_given [OF ok(2) P(3) [unfolded args(1)]]
  then obtain k where k: "key = Some k" by blast
  have "length k = key_size"
    by (rule init_default_crypto_key_length [OF wf r [unfolded classes k]])
  with new_db_registry [OF new classes wf p]
  have seals: "startswith (encrypt (ce_crypto E) (gl_registry g') x nn) ''.e''"
      "decrypt (ce_crypto E) (gl_registry g') (encrypt (ce_crypto E) (gl_registry g') x nn) = Inr x" for x nn
    unfolding k using keyed_seals [OF _ _ _ ok(1)] by blast+
  note T = make_ssl_files [OF P(2) args(2) P(1)]
  have conn: "cn_local (dc_connections d) = [t \<mapsto> c]" by (simp add: d conn_init_def conn_open_def)
  have sub: "autoreindex_dispatcher \<in> set (gl_subscribers g') \<longleftrightarrow>
      ar_autoreindex a \<or> autoreindex_dispatcher \<in> set (gl_subscribers g)"
    by (simp add: g' subscribers_init_def)
  have proc: "reindexing_db g' = (if ar_autoreindex a then Some db else None)"
    by (simp add: g' reindexing_db_def provide_processor_def)
  have kw: "sk_ssl (dc_storage_kwargs d) = ctx" "sk_credentials (dc_storage_kwargs d) = credentials"
    by (simp_all add: d storage_settings_def)
  show ?thesis
    unfolding Let_def kw by (intro conjI allI seals proc sub conn T cred(2))
qed

text \<open>
  C27: A second database in the same process takes over what the first one needs: objects of the first are
  handed to the second when they change, or to nobody; what the first has stored cannot be read any
  more; and what it stores is sealed with the second one's key.
\<close>

theorem second_database_takes_over:
  assumes first: "new_db E db1 pid1 t1 v1 c1 a1 g = (Inr d1, g1)"
    and second: "new_db E db2 pid2 t2 v2 c2 a2 g1 = (Inr d2, g2)"
    and classes: "ce_encrypters E = c0 # cs" and wf: "registry_wf (gl_registry g)"
    and keys: "prepare E a1 = Inr (x1, y1, key1, z1)" "prepare E a2 = Inr (x2, y2, key2, z2)"
      "keys_apart (ce_crypto E) key1 key2"
    and rec: "s_loadBefore (ce_base E) s oid tid =
      Inr (Some (ts_wire (ce_crypto E, gl_registry g1, dc_storage d1) oid x, ser, nxt))"
  shows "s_loadBefore (ts_layer (ce_crypto E, gl_registry g2, dc_storage d1) (ce_base E)) s oid tid = Inl WrongKeyError \<and>
    map_option enc_key (enc_at (gl_registry g2) []) = Some key2 \<and>
    reindexing_db g2 = (if ar_autoreindex a2 then Some db2 else None)"
proof -
  note R1 = new_db_registry [OF first classes wf keys(1)]
  then have wf1: "registry_wf (gl_registry g1)" by blast
  note R2 = new_db_registry [OF second classes wf1 keys(2)]
  have foreign: "decrypt (ce_crypto E) (gl_registry g2) (encrypt (ce_crypto E) (gl_registry g1) y nn) = Inl WrongKeyError" for y nn
    by (rule decrypt_foreign [OF keys(3)]) (use R1 R2 in blast)+
  have "ts_untransform (ce_crypto E) (gl_registry g2) (ts_wire (ce_crypto E, gl_registry g1, dc_storage d1) oid x) = Inl WrongKeyError"
    by (simp add: ts_untransform_def ts_wire_def ts_transform_def ts_transform_named_def foreign)
  then have "s_loadBefore (ts_layer (ce_crypto E, gl_registry g2, dc_storage d1) (ce_base E)) s oid tid = Inl WrongKeyError"
    by (simp add: ts_layer_def ts_loadBefore_def rec)
  moreover obtain e where "enc_at (gl_registry g2) [] = Some e" "enc_key e = key2"
    using keyed_default R2 by blast
  moreover have "reindexing_db g2 = (if ar_autoreindex a2 then Some db2 else None)"
    by (rule new_db_Inr [OF second]) (simp add: reindexing_db_def provide_processor_def)
  ultimately show ?thesis by simp
qed

text \<open>
  C6: Opening a second database with a key of a wrong length raises, and the processor of the database that
  was never made handles the changes. Whether the first database still encrypts depends on the order in which
  zope.component gives the registered classes, which it does not promise: when the default class
  comes first there is no default encrypter any more, and what the first database stores from then on goes to the
  server in plain, or compressed only; in any other order it is encrypted as before.
\<close>

theorem failed_open_disables_encryption:
  assumes first: "new_db E db1 pid1 t1 v1 c1 a1 g = (Inr d1, g1)"
    and classes: "ce_encrypters E = c0 # cs" and wf: "registry_wf (gl_registry g)"
    and default: "map_option enc_class_of (enc_at (gl_registry g1) []) = Some c0"
    and bad: "prepare E a2 = Inr (ctx, credentials, Some k, sock)" "length k \<noteq> key_size"
    and order: "first = first_made (ce_crypto E) (register_defaults (c0 # cs) (ce_compressor E) (gl_registry g1))"
  shows "\<exists>g2. new_db E db2 pid2 t2 v2 c2 a2 g1 = (Inl AssertionError, g2) \<and> gl_processor g2 = Some db2 \<and>
    (if first = Some (class_name c0, c0)
     then \<forall>s oid serial d. s_store (ts_layer (ce_crypto E, gl_registry g2, dc_storage d1) (ce_base E)) s oid serial d =
       s_store (ce_base E) s oid serial (compress (gl_registry g2) d)
     else \<forall>x nn. encrypt (ce_crypto E) (gl_registry g2) x nn = encrypt (ce_crypto E) (gl_registry g1) x nn)"
proof -
  let ?P = "ce_crypto E" and ?h = "register_defaults (c0 # cs) (ce_compressor E) (gl_registry g1)"
  obtain x1 y1 key1 z1 where p1: "prepare E a1 = Inr (x1, y1, key1, z1)" by (rule new_db_Inr [OF first])
  note R = new_db_registry [OF first classes wf p1]
  then have wf1: "registry_wf (gl_registry g1)" "classes_wf (gl_registry g1)" "registry_inv (gl_registry g1)"
    by (simp_all add: registry_wf_def)
  have "(class_name c0, c0) \<in> set (encrypter_classes ?h)"
    using register_defaults_initialized(3) [OF wf1(2,3)] by simp
  then obtain n c where nc: "first_made ?P ?h = Some (n, c)" "n \<noteq> []" "(n, c) \<in> set (encrypter_classes ?h)"
    using first_made_some [OF _ class_name_nonempty] by blast
  have n: "n = class_name c" "class_at (gl_registry g1) (class_name c) \<noteq> None"
    using register_defaults_only [OF nc(3) wf1(2) nc(2)] R by auto
  obtain e where e: "enc_at (gl_registry g1) n = Some e" using R n unfolding keyed_def by blast
  obtain e0 where e0: "enc_at (gl_registry g1) [] = Some e0" "enc_class_of e0 = c0" using default by blast
  let ?r = "unregister_default ?h e"
  have step: "init_default_crypto_step ?P (ce_encrypters E) (ce_compressor E) None (Some k) (gl_registry g1) = (Inl AssertionError, ?r)"
    unfolding classes by (rule bad_key_step [OF nc(1) _ bad(2)]) (simp add: register_defaults_encrypters e)
  let ?g2 = "(provide_processor db2 (ar_autoreindex a2) g1)\<lparr>gl_registry := ?r\<rparr>"
  have "crypto_step E (Some k) (provide_processor db2 (ar_autoreindex a2) g1) = (Inl AssertionError, ?g2)"
    using step by (simp add: crypto_step_def provide_processor_def)
  then have run: "new_db E db2 pid2 t2 v2 c2 a2 g1 = (Inl AssertionError, ?g2)"
    by (simp add: new_db_def m_bind_def meth_simps bad(1))
  have at: "enc_at ?r [] = (if c = c0 then None else Some e0)"
    by (rule default_lost [OF wf1(1) e [unfolded n(1)] e0, of ?h]) (simp add: register_defaults_encrypters)
  show ?thesis
  proof (intro exI [where x = ?g2] conjI)
    show "if first = Some (class_name c0, c0)
     then \<forall>s oid serial d. s_store (ts_layer (?P, gl_registry ?g2, dc_storage d1) (ce_base E)) s oid serial d =
       s_store (ce_base E) s oid serial (compress (gl_registry ?g2) d)
     else \<forall>x nn. encrypt ?P (gl_registry ?g2) x nn = encrypt ?P (gl_registry g1) x nn"
      using at e0(1) by (simp add: order nc(1) n(1) encrypt_def getUtility_def ts_layer_def ts_store_def ts_transform_def
          ts_transform_named_def)
  qed (use run in \<open>simp_all add: provide_processor_def\<close>)
qed

section \<open>Witnesses\<close>

definition demo_client_env :: "(bytes \<times> bytes) list client_env" where
  "demo_client_env = \<lparr>ce_files = \<lparr>cf_load_chain = (\<lambda>_ _. Inr ()), cf_load_ca = (\<lambda>_. Inr ())\<rparr>, ce_here = ''/zerodb/'',
     ce_kdf = demo_kdf, ce_crypto = demo_crypto, ce_encrypters = [AES256Encrypter, AES256EncrypterV0],
     ce_compressor = None, ce_appname = ''zerodb.com'', ce_connect = (\<lambda>_. Inr ([(''root'', ''new'')], ''root'')),
     ce_base = demo_storage, ce_zodb = demo_zodb\<rparr>"

definition demo_db_args :: "bytes \<Rightarrow> db_args" where
  "demo_db_args key = \<lparr>ar_sock = Items [Text ''localhost'', Text ''8001''], ar_key = Some key, ar_username = None,
     ar_password = None, ar_cert_file = Some ''c.pem'', ar_key_file = Some ''k.pem'', ar_server_cert = Some ''s.pem'',
     ar_security = None, ar_debug = False, ar_pool_timeout = 3600, ar_pool_size = 7, ar_autoreindex = True,
     ar_wait_timeout = 30, ar_kw = []\<rparr>"

definition new_globals :: globals where
  "new_globals = \<lparr>gl_registry = empty_registry, gl_processor = None, gl_enabled = Map.empty, gl_subscribers = []\<rparr>"

lemma demo_prepare: "\<exists>ctx sock. prepare demo_client_env (demo_db_args key) = Inr (ctx, None, Some key, sock)"
proof -
  have "normal_sock (Items [Text ''localhost'', Text ''8001'']) = Inr (Items [Text ''localhost'', Number 8001])"
    by code_simp
  then show ?thesis
    by (simp add: prepare_def demo_client_env_def demo_db_args_def both_files_def given_def tls_defs
        db_credentials_def guess_def hash_password_def)
qed

lemma demo_new_db:
  assumes "length key = key_size" "registry_wf (gl_registry g)"
  shows "\<exists>d g'. new_db demo_client_env db pid t v c (demo_db_args key) g = (Inr d, g') \<and>
    init_default_crypto demo_crypto [AES256Encrypter, AES256EncrypterV0] None None (Some key) (gl_registry g) = Inr (gl_registry g')"
proof -
  obtain ctx sock where p: "prepare demo_client_env (demo_db_args key) = Inr (ctx, None, Some key, sock)"
    using demo_prepare by blast
  obtain r where r: "init_default_crypto demo_crypto [AES256Encrypter, AES256EncrypterV0] None None (Some key) (gl_registry g) = Inr r"
    using init_default_crypto_total [OF demo_crypto_ok, of "gl_registry g" "Some key" None AES256Encrypter
          "[AES256EncrypterV0]" None] assms by (auto simp: registry_wf_def)
  then have "init_default_crypto_step demo_crypto [AES256Encrypter, AES256EncrypterV0] None None (Some key) (gl_registry g) = (Inr (), r)"
    by (simp add: init_default_crypto_step_Inr)
  moreover have "ts_init demo_zodb demo_storage ''root'' False [(''root'', ''new'')] r =
      Inr (\<lparr>ts_root_oid = ''root'', ts_debug = False, ts_download_size = 0, ts_download_count = 0\<rparr>, r)"
    by (simp add: ts_init_def demo_storage_def get_encryption_signature_def)
  ultimately show ?thesis
    using r p
    by (auto simp: new_db_def m_bind_def meth_simps demo_client_env_def demo_db_args_def crypto_step_def provide_processor_def
        init_db_client_def storage_settings_def Let_def)
qed

abbreviation "demo_key x \<equiv> replicate 32 x"

lemma demo_key_length: "length (demo_key x) = key_size"
  by (simp add: key_size_def)

lemma new_globals_wf: "registry_wf (gl_registry new_globals)" "gl_registry new_globals = empty_registry"
  by (simp_all add: new_globals_def empty_registry_wf)

lemma demo_client_fields:
  "ce_encrypters demo_client_env = AES256Encrypter # [AES256EncrypterV0]" "ce_crypto demo_client_env = demo_crypto"
  "ce_kdf demo_client_env = demo_kdf" "ce_base demo_client_env = demo_storage"
  by (simp_all add: demo_client_env_def)

lemma client_settings_witness:
  "\<exists>d g'. new_db demo_client_env 1 7 1 10 100 (demo_db_args (demo_key CHR ''a'')) new_globals = (Inr d, g') \<and>
     sx_trust (sk_ssl (dc_storage_kwargs d)) = [CA_File ''s.pem''] \<and> reindexing_db g' = Some 1"
proof -
  obtain d g' where d: "new_db demo_client_env 1 7 1 10 100 (demo_db_args (demo_key CHR ''a'')) new_globals = (Inr d, g')"
    using demo_new_db [OF demo_key_length new_globals_wf(1)] by blast
  have "ar_security (demo_db_args (demo_key CHR ''a'')) = None" "ar_server_cert (demo_db_args (demo_key CHR ''a'')) \<noteq> Some []"
    by (simp_all add: demo_db_args_def)
  from client_settings [OF d demo_client_fields(1) new_globals_wf(1) _ _ this] d show ?thesis
    by (auto simp: demo_client_fields demo_crypto_ok demo_kdf_ok Let_def demo_db_args_def)
qed

lemma second_database_takes_over_witness:
  "\<exists>d1 g1 d2 g2 s. new_db demo_client_env 1 7 1 10 100 (demo_db_args (demo_key CHR ''a'')) new_globals = (Inr d1, g1) \<and>
     new_db demo_client_env 2 7 1 11 101 (demo_db_args (demo_key CHR ''b'')) g1 = (Inr d2, g2) \<and>
     s_loadBefore (ts_layer (demo_crypto, gl_registry g2, dc_storage d1) demo_storage) s ''oid'' ''t'' = Inl WrongKeyError \<and>
     reindexing_db g2 = Some 2"
proof -
  let ?a = "\<lambda>x. demo_db_args (demo_key x)"
  obtain d1 g1 where 1: "new_db demo_client_env 1 7 1 10 100 (?a CHR ''a'') new_globals = (Inr d1, g1)"
    using demo_new_db [OF demo_key_length new_globals_wf(1)] by blast
  obtain x1 z1 where p1: "prepare demo_client_env (?a CHR ''a'') = Inr (x1, None, Some (demo_key CHR ''a''), z1)"
    using demo_prepare by blast
  have wf: "registry_wf (gl_registry g1)"
    using new_db_registry [OF 1 demo_client_fields(1) new_globals_wf(1) p1] by blast
  obtain d2 g2 where 2: "new_db demo_client_env 2 7 1 11 101 (?a CHR ''b'') g1 = (Inr d2, g2)"
    using demo_new_db [OF demo_key_length wf] by blast
  obtain x2 z2 where p2: "prepare demo_client_env (?a CHR ''b'') = Inr (x2, None, Some (demo_key CHR ''b''), z2)"
    using demo_prepare by blast
  let ?s = "[(''oid'', ts_wire (demo_crypto, gl_registry g1, dc_storage d1) ''oid'' ''data'')]"
  have "s_loadBefore (ce_base demo_client_env) ?s ''oid'' ''t'' =
      Inr (Some (ts_wire (ce_crypto demo_client_env, gl_registry g1, dc_storage d1) ''oid'' ''data'', ''t'', None))"
    by (simp add: demo_client_fields demo_storage_def)
  from second_database_takes_over [OF 1 2 demo_client_fields(1) new_globals_wf(1) p1 p2 _ this] demo_keys_apart
  have "s_loadBefore (ts_layer (demo_crypto, gl_registry g2, dc_storage d1) demo_storage) ?s ''oid'' ''t'' = Inl WrongKeyError \<and>
      reindexing_db g2 = Some 2"
    by (simp add: demo_client_fields demo_db_args_def)
  then show ?thesis using 1 2 by blast
qed

lemma demo_class_order: "class_order demo_crypto g = encrypter_classes g"
  by (simp add: class_order_def demo_crypto_def sort_key_const)

lemma failed_open_disables_encryption_witness:
  "\<exists>d1 g1 g2. new_db demo_client_env 1 7 1 10 100 (demo_db_args (demo_key CHR ''a'')) new_globals = (Inr d1, g1) \<and>
     new_db demo_client_env 2 7 1 11 101 (demo_db_args ''short'') g1 = (Inl AssertionError, g2) \<and>
     s_store (ts_layer (demo_crypto, gl_registry g2, dc_storage d1) demo_storage) [] ''oid'' ''t'' ''secret'' =
       s_store demo_storage [] ''oid'' ''t'' (compress (gl_registry g2) ''secret'')"
proof -
  obtain d1 g1 where 1: "new_db demo_client_env 1 7 1 10 100 (demo_db_args (demo_key CHR ''a'')) new_globals = (Inr d1, g1)"
    and init: "init_default_crypto demo_crypto [AES256Encrypter, AES256EncrypterV0] None None (Some (demo_key CHR ''a''))
      (gl_registry new_globals) = Inr (gl_registry g1)"
    using demo_new_db [OF demo_key_length new_globals_wf(1)] by blast
  have "classes_wf (gl_registry new_globals)" "registry_inv (gl_registry new_globals)"
    using new_globals_wf(1) by (simp_all add: registry_wf_def)
  note K = init_default_crypto_keys [OF this init]
  have default: "map_option enc_class_of (enc_at (gl_registry g1) []) = Some AES256Encrypter"
    using K(3) K(4) [of AES256Encrypter] by auto
  obtain x z' where p: "prepare demo_client_env (demo_db_args ''short'') = Inr (x, None, Some ''short'', z')"
    using demo_prepare by blast
  have "length ''short'' \<noteq> key_size" by (simp add: key_size_def)
  note T = failed_open_disables_encryption [OF 1 demo_client_fields(1) new_globals_wf(1) default p this refl, of 2 7 1 11 101]
  have "encrypter_classes (gl_registry g1) =
      encrypter_classes (register_defaults [AES256Encrypter, AES256EncrypterV0] None empty_registry)"
    using init_classes init unfolding init_default_crypto_def init_def new_globals_wf(2) by blast
  then have "first_made demo_crypto (register_defaults [AES256Encrypter, AES256EncrypterV0] None (gl_registry g1)) =
      Some (class_name AES256Encrypter, AES256Encrypter)"
    by (simp add: first_made_def demo_class_order register_defaults_def register_class_def empty_registry_def Let_def)
  moreover have "ce_compressor demo_client_env = None" by (simp add: demo_client_env_def)
  ultimately show ?thesis using T 1 by (auto simp: demo_client_fields)
qed

end
