(* ===== verification/Server_Setup.thy ===== *)
theory Server_Setup
  imports Server Tls
begin

text \<open>
  How a server is set up and run: the acceptor of zerodb/permissions/subdb.py, which reads the trusted
  certificates for each new connection from a database of its own and learns of changes by the
  server's invalidations; \<open>ZEOServer.run\<close>; and \<open>init_db_script\<close> of zerodb/permissions/base.py. ZODB's
  cache of the acceptor's database is an argument.
\<close>

section \<open>The acceptor\<close>

text \<open>
  The acceptor's own database: opening it, reading the text of the certificates in a new transaction when
  the storage has \<open>now\<close>, and \<open>invalidate\<close>.
\<close>

record ('oid, 'db) cert_db_ops =
  cd_open :: 'db
  cd_read :: "string \<Rightarrow> 'db \<Rightarrow> string \<times> 'db"
  cd_invalidate :: "bytes \<Rightarrow> 'oid list \<Rightarrow> 'db \<Rightarrow> 'db"

record ('oid, 'db) acceptor =
  ac_cert_storage_id :: bytes
  ac_cert_db :: 'db
  ac_certs_oid :: 'oid

text \<open>\<open>Acceptor.__init__\<close>; \<open>certs_oid\<close> is the oid of the user database's certificates.\<close>

definition new_acceptor ::
  "('oid, 'db) cert_db_ops \<Rightarrow> bytes list \<Rightarrow> string \<Rightarrow> 'oid \<Rightarrow> ('oid, 'db) acceptor res" where
  "new_acceptor ops storages now certs_oid =
     bindr (acceptor_storage_id storages) (\<lambda>storage_id.
       Inr \<lparr>ac_cert_storage_id = storage_id, ac_cert_db = snd (cd_read ops now (cd_open ops)), ac_certs_oid = certs_oid\<rparr>)"

text \<open>
  The server, its user database and the acceptor. The context of a new connection is the server's own one,
  with the certificates that the acceptor's database shows; the acceptor's \<open>invalidate\<close> is reached
  from the server's for the entries that it adds to \<open>ss_cert_invalidated\<close>.
\<close>

record ('oid, 'info, 'db) serving =
  sv_server :: "('oid, 'info) storage_server"
  sv_admin :: admin
  sv_acceptor :: "('oid, 'db) acceptor"

definition connection_context ::
  "('oid, 'db) cert_db_ops \<Rightarrow> cert_files \<Rightarrow> bytes \<Rightarrow> bytes \<Rightarrow> (('oid, 'info, 'db) serving, ssl_context) meth" where
  "connection_context ops F cert key w =
     (case create_ssl_context F cert key of
        Inl e \<Rightarrow> (Inl e, w)
      | Inr ctx \<Rightarrow>
          (case cd_read ops (a_certs (sv_admin w)) (ac_cert_db (sv_acceptor w)) of
             (data, db) \<Rightarrow> (Inr (load_verify_data ctx data), w\<lparr>sv_acceptor := (sv_acceptor w)\<lparr>ac_cert_db := db\<rparr>\<rparr>)))"

definition tell_acceptor ::
  "('oid, 'db) cert_db_ops \<Rightarrow> (bytes \<times> 'oid list) list \<Rightarrow> ('oid, 'db) acceptor \<Rightarrow> ('oid, 'db) acceptor" where
  "tell_acceptor ops news ac = ac\<lparr>ac_cert_db := fold (\<lambda>(tid, oids). cd_invalidate ops tid oids) news (ac_cert_db ac)\<rparr>"

text \<open>A transaction that was committed by \<open>conn\<close> is announced; it may have changed the user database.\<close>

definition announce ::
  "('oid, 'db) cert_db_ops \<Rightarrow> (nat \<times> bytes option) option \<Rightarrow> bytes \<Rightarrow> bytes \<Rightarrow> 'oid list \<Rightarrow> 'info option \<Rightarrow> admin
     \<Rightarrow> (('oid, 'info, 'db) serving, unit) meth" where
  "announce ops conn storage_id tid oids info admin w =
     (case invalidate conn storage_id tid oids info (sv_server w) of
        (r, s) \<Rightarrow> (r, w\<lparr>sv_server := s, sv_admin := admin,
          sv_acceptor := tell_acceptor ops (drop (length (ss_cert_invalidated (sv_server w))) (ss_cert_invalidated s))
            (sv_acceptor w)\<rparr>))"

section \<open>New connections see the present certificates\<close>

text \<open>
  What the code relies on in ZODB: \<open>shows db txt\<close> says that what the database has in its cache is not older
  than the text. An invalidation of the object makes that true for any text.
\<close>

definition cert_db_ok :: "('oid, 'db) cert_db_ops \<Rightarrow> 'oid \<Rightarrow> ('db \<Rightarrow> string \<Rightarrow> bool) \<Rightarrow> bool" where
  "cert_db_ok ops certs_oid shows_text \<longleftrightarrow>
     (\<forall>txt. shows_text (cd_open ops) txt) \<and>
     (\<forall>db txt. shows_text db txt \<longrightarrow> fst (cd_read ops txt db) = txt \<and> shows_text (snd (cd_read ops txt db)) txt) \<and>
     (\<forall>db txt tid oids. shows_text db txt \<longrightarrow> shows_text (cd_invalidate ops tid oids db) txt) \<and>
     (\<forall>db txt tid oids. certs_oid \<in> set oids \<longrightarrow> shows_text (cd_invalidate ops tid oids db) txt)"

text \<open>
  The steps of a running server: transactions are announced, with every object they have changed, and
  connections come in.
\<close>

inductive serving_step ::
  "('oid, 'db) cert_db_ops \<Rightarrow> cert_files \<Rightarrow> bytes \<Rightarrow> bytes \<Rightarrow> ('oid, 'info, 'db) serving \<Rightarrow> ('oid, 'info, 'db) serving \<Rightarrow> bool"
  for ops F cert key where
  step_commit: "announce ops conn storage_id tid oids info admin w = (Inr (), w') \<Longrightarrow>
    a_certs admin = a_certs (sv_admin w) \<or>
      storage_id = ss_cert_storage_id (sv_server w) \<and> ac_certs_oid (sv_acceptor w) \<in> set oids \<Longrightarrow>
    serving_step ops F cert key w w'"
| step_connect: "connection_context ops F cert key w = (r, w') \<Longrightarrow> serving_step ops F cert key w w'"

inductive_cases serving_stepE: "serving_step ops F cert key w w'"

definition acceptor_current :: "('db \<Rightarrow> string \<Rightarrow> bool) \<Rightarrow> 'oid \<Rightarrow> ('oid, 'info, 'db) serving \<Rightarrow> bool" where
  "acceptor_current shows_text certs_oid w \<longleftrightarrow>
     ac_certs_oid (sv_acceptor w) = certs_oid \<and> shows_text (ac_cert_db (sv_acceptor w)) (a_certs (sv_admin w))"

lemma invalidate_tells_acceptor:
  assumes "invalidate conn sid tid oids info s = (Inr (), s')"
  shows "ss_cert_invalidated s' = ss_cert_invalidated s @ (if sid = ss_cert_storage_id s then [(tid, oids)] else [])"
proof -
  obtain t where t: "(if oids \<noteq> [] then push_invq sid tid oids else m_return ()) s = (Inr (), t)"
    and rest: "(case ss_connections t sid of
         None \<Rightarrow> (Inl KeyError, t)
       | Some conns \<Rightarrow>
           (Inr (), t\<lparr>
             ss_sent := ss_sent t @ concat (map (message_for conn tid oids info) conns),
             ss_cert_invalidated := ss_cert_invalidated t @
               (if sid = ss_cert_storage_id t then [(tid, oids)] else [])\<rparr>)) = (Inr (), s')"
    using assms unfolding invalidate_def m_bind_eq_Inr by auto
  have "ss_cert_invalidated t = ss_cert_invalidated s \<and> ss_cert_storage_id t = ss_cert_storage_id s"
    using t by (auto simp: push_invq_def m_return_def Let_def split: if_splits option.splits)
  then show ?thesis using rest by (cases "ss_connections t sid") auto
qed

lemma announce_current:
  assumes ok: "cert_db_ok ops certs_oid shows_text" and cur: "acceptor_current shows_text certs_oid w"
    and run: "announce ops conn sid tid oids info admin w = (Inr (), w')"
    and news: "a_certs admin = a_certs (sv_admin w) \<or>
      sid = ss_cert_storage_id (sv_server w) \<and> ac_certs_oid (sv_acceptor w) \<in> set oids"
  shows "acceptor_current shows_text certs_oid w' \<and> sv_admin w' = admin"
proof -
  obtain s where s: "invalidate conn sid tid oids info (sv_server w) = (Inr (), s)"
      "w' = w\<lparr>sv_server := s, sv_admin := admin,
        sv_acceptor := tell_acceptor ops (drop (length (ss_cert_invalidated (sv_server w))) (ss_cert_invalidated s)) (sv_acceptor w)\<rparr>"
    using run by (auto simp: announce_def split: prod.splits)
  have "drop (length (ss_cert_invalidated (sv_server w))) (ss_cert_invalidated s) =
      (if sid = ss_cert_storage_id (sv_server w) then [(tid, oids)] else [])"
    by (simp add: invalidate_tells_acceptor [OF s(1)])
  then show ?thesis
    using cur news ok by (auto simp: s(2) tell_acceptor_def acceptor_current_def cert_db_ok_def)
qed

lemma context_current:
  assumes "cert_db_ok ops certs_oid shows_text" "acceptor_current shows_text certs_oid w"
    and "connection_context ops F cert key w = (r, w')"
  shows "acceptor_current shows_text certs_oid w' \<and> sv_admin w' = sv_admin w \<and>
    (case create_ssl_context F cert key of
       Inl e \<Rightarrow> r = Inl e | Inr ctx \<Rightarrow> r = Inr (load_verify_data ctx (a_certs (sv_admin w))))"
proof -
  let ?read = "cd_read ops (a_certs (sv_admin w)) (ac_cert_db (sv_acceptor w))"
  have "fst ?read = a_certs (sv_admin w) \<and> shows_text (snd ?read) (a_certs (sv_admin w))"
    using assms(1,2) unfolding cert_db_ok_def acceptor_current_def by blast
  then show ?thesis
    using assms(2,3) by (cases ?read) (auto simp: connection_context_def acceptor_current_def split: sum.splits)
qed

lemma serving_steps_current:
  "(serving_step ops F cert key)\<^sup>*\<^sup>* w w' \<Longrightarrow> cert_db_ok ops certs_oid shows_text \<Longrightarrow>
     acceptor_current shows_text certs_oid w \<Longrightarrow> acceptor_current shows_text certs_oid w'"
proof (induction rule: rtranclp_induct)
  case (step w1 w2)
  from step.hyps(2) show ?case
  proof (rule serving_stepE)
    fix conn sid tid oids info admin
    assume "announce ops conn sid tid oids info admin w1 = (Inr (), w2)"
      "a_certs admin = a_certs (sv_admin w1) \<or> sid = ss_cert_storage_id (sv_server w1) \<and> ac_certs_oid (sv_acceptor w1) \<in> set oids"
    then show ?thesis using announce_current [OF step.prems(1) step.IH [OF step.prems]] by blast
  next
    fix r assume "connection_context ops F cert key w1 = (r, w2)"
    then show ?thesis using context_current [OF step.prems(1) step.IH [OF step.prems]] by blast
  qed
qed

section \<open>Setting up the database file\<close>

text \<open>
  \<open>init_db_script\<close> for the three arguments of the command line. \<open>FileStorage\<close> creates its file, which is
  empty until the first transaction is committed. \<open>create\<close> is \<open>init_db\<close> (theory Accounts) for a name and a
  certificate.
\<close>

datatype stored_file = Text_File string | Storage_File "admin option"

definition init_db_script ::
  "(bytes \<Rightarrow> string \<Rightarrow> admin res) \<Rightarrow> bytes \<Rightarrow> bytes \<Rightarrow> bytes \<Rightarrow> (bytes \<Rightarrow> stored_file option, unit) meth" where
  "init_db_script create path user certificate fs =
     (if fs path \<noteq> None then (Inl ValueError, fs)
      else (case fs certificate of
              Some (Text_File pem_data) \<Rightarrow>
                (case create user pem_data of
                   Inl e \<Rightarrow> (Inl e, fs(path \<mapsto> Storage_File None))
                 | Inr admin \<Rightarrow> (Inr (), fs(path \<mapsto> Storage_File (Some admin))))
            | _ \<Rightarrow> (Inl OtherError, fs)))"

definition script_init_db ::
  "zodb_utils \<Rightarrow> account_env \<Rightarrow> kdf_env \<Rightarrow> string \<Rightarrow> bytes \<Rightarrow> bytes \<Rightarrow> bytes \<Rightarrow> bytes \<Rightarrow> string \<Rightarrow> admin res" where
  "script_init_db Z E K nobody_pem admin_oid user_oid salt user pem_data =
     init_db Z E K nobody_pem admin_oid user_oid salt user (Some pem_data) None"

section \<open>Starting the server\<close>

text \<open>
  \<open>ZEOServer.run\<close> switches garbage collection off for every storage that has it on, and warns twice
  each time; \<open>pack_gc\<close> are the options of the storages.
\<close>

definition turn_off_gc :: "bool list \<Rightarrow> nat \<times> bool list" where
  "turn_off_gc pack_gc = (2 * length (filter id pack_gc), map (\<lambda>_. False) pack_gc)"

text \<open>The methods a client may call: ZEO's and \<open>get_root_id\<close>, installed at \<open>setup_delegation\<close>.\<close>

definition registered_methods :: "string list \<Rightarrow> string list" where
  "registered_methods zeo_methods = (if ''get_root_id'' \<in> set zeo_methods then zeo_methods else zeo_methods @ [''get_root_id''])"

section \<open>Properties\<close>

text \<open>
  C8: Whatever transactions are announced and connections come in, each new connection gets a context that asks
  for a client certificate and trusts the certificates in the user database as it is at that moment, and
  no other, although the acceptor reads them from a cache.
\<close>

theorem new_contexts_current:
  assumes ok: "cert_db_ok ops certs_oid shows_text"
    and start: "new_acceptor ops storages (a_certs admin0) certs_oid = Inr ac"
    and steps: "(serving_step ops F cert key)\<^sup>*\<^sup>* \<lparr>sv_server = srv, sv_admin = admin0, sv_acceptor = ac\<rparr> w"
    and conn: "connection_context ops F cert key w = (Inr ctx, w')"
  shows "sx_verify_mode ctx = Cert_Required \<and> sx_trust ctx = [CA_Data (a_certs (sv_admin w))] \<and>
    sx_cert_chain ctx = Some (cert, key)"
proof -
  have "shows_text (ac_cert_db ac) (a_certs admin0) \<and> ac_certs_oid ac = certs_oid"
    using start ok unfolding cert_db_ok_def by (auto simp: new_acceptor_def bindr_eq_Inr)
  then have "acceptor_current shows_text certs_oid w"
    using serving_steps_current [OF steps ok] by (simp add: acceptor_current_def)
  from context_current [OF ok this conn] obtain base where
    "create_ssl_context F cert key = Inr base" "ctx = load_verify_data base (a_certs (sv_admin w))"
    by (auto split: sum.splits)
  with create_ssl_context_Inr [OF this(1)] show ?thesis by (simp add: load_verify_data_def)
qed

text \<open>
  The script never changes a file that exists. When the certificate is refused, it leaves an empty
  database file behind, so that every later call for this path raises, whatever the certificate.
\<close>

theorem failed_init_blocks_path:
  assumes "init_db_script create path user certificate fs = (r, fs')"
  shows "(\<forall>p. p \<noteq> path \<or> fs p \<noteq> None \<longrightarrow> fs' p = fs p) \<and>
    (fs path = None \<longrightarrow> fs certificate = Some (Text_File pem) \<longrightarrow> create user pem = Inl e \<longrightarrow>
      r = Inl e \<and> fs' path = Some (Storage_File None) \<and>
      (\<forall>disk. disk path = fs' path \<longrightarrow> init_db_script create' path user' certificate' disk = (Inl ValueError, disk)))"
  using assms by (auto simp: init_db_script_def split: option.splits stored_file.splits sum.splits if_splits)

section \<open>Witnesses\<close>

text \<open>A cache of one text, which an invalidation of object 5 drops.\<close>

definition demo_cert_db :: "(nat, string option) cert_db_ops" where
  "demo_cert_db = \<lparr>cd_open = None, cd_read = (\<lambda>now db. case db of None \<Rightarrow> (now, Some now) | Some txt \<Rightarrow> (txt, db)),
     cd_invalidate = (\<lambda>tid oids db. if 5 \<in> set oids then None else db)\<rparr>"

lemma demo_cert_db_ok: "cert_db_ok demo_cert_db 5 (\<lambda>db txt. db = None \<or> db = Some txt)"
  by (auto simp: cert_db_ok_def demo_cert_db_def)

definition demo_cert_files :: cert_files where
  "demo_cert_files = \<lparr>cf_load_chain = (\<lambda>_ _. Inr ()), cf_load_ca = (\<lambda>_. Inr ())\<rparr>"

definition quiet_server :: "(nat, unit) storage_server" where
  "quiet_server = \<lparr>ss_invq = [''1'' \<mapsto> []], ss_invq_bound = 9, ss_connections = [''1'' \<mapsto> []],
     ss_cert_storage_id = ''1'', ss_sent = [], ss_cert_invalidated = []\<rparr>"

lemma new_contexts_current_witness:
  "\<exists>ac w w' ctx. new_acceptor demo_cert_db [''1''] (a_certs demo_admin) 5 = Inr ac \<and>
     announce demo_cert_db None ''1'' ''t'' [5] None (demo_admin\<lparr>a_certs := ''new''\<rparr>)
       \<lparr>sv_server = quiet_server, sv_admin = demo_admin, sv_acceptor = ac\<rparr> = (Inr (), w) \<and>
     connection_context demo_cert_db demo_cert_files ''c'' ''k'' w = (Inr ctx, w') \<and> sx_trust ctx = [CA_Data ''new'']"
proof -
  obtain ac where ac: "new_acceptor demo_cert_db [''1''] (a_certs demo_admin) 5 = Inr ac" "ac_certs_oid ac = 5"
    by (simp add: new_acceptor_def acceptor_storage_id_def)
  let ?w0 = "\<lparr>sv_server = quiet_server, sv_admin = demo_admin, sv_acceptor = ac\<rparr>"
  let ?admin = "demo_admin\<lparr>a_certs := ''new''\<rparr>"
  obtain w where w: "announce demo_cert_db None ''1'' ''t'' [5] None ?admin ?w0 = (Inr (), w)" "sv_admin w = ?admin"
    by (simp add: announce_def invalidate_def m_bind_def push_invq_def quiet_server_def Let_def)
  have "serving_step demo_cert_db demo_cert_files ''c'' ''k'' ?w0 w"
    by (rule step_commit [OF w(1)]) (simp add: quiet_server_def ac(2))
  moreover obtain ctx w' where ctx: "connection_context demo_cert_db demo_cert_files ''c'' ''k'' w = (Inr ctx, w')"
    by (cases "cd_read demo_cert_db (a_certs (sv_admin w)) (ac_cert_db (sv_acceptor w))")
      (simp add: connection_context_def tls_defs demo_cert_files_def)
  ultimately show ?thesis
    using new_contexts_current [OF demo_cert_db_ok ac(1) r_into_rtranclp ctx, of quiet_server] ac(1) w by auto
qed

lemma failed_init_blocks_path_witness:
  "\<exists>fs'. init_db_script (script_init_db demo_zodb demo_accounts demo_kdf ''nobody'' (p64 demo_zodb 1) (p64 demo_zodb 2) ''salt'')
       ''db.fs'' ''root'' ''bad.pem'' [''bad.pem'' \<mapsto> Text_File ''nobody''] = (Inl ValueError, fs') \<and>
     fs' ''db.fs'' = Some (Storage_File None)"
proof -
  let ?create = "script_init_db demo_zodb demo_accounts demo_kdf ''nobody'' (p64 demo_zodb 1) (p64 demo_zodb 2) ''salt''"
  let ?fs = "[''bad.pem'' \<mapsto> Text_File ''nobody'']"
  obtain r fs' where run: "init_db_script ?create ''db.fs'' ''root'' ''bad.pem'' ?fs = (r, fs')" by fastforce
  have "?create ''root'' ''nobody'' = Inl ValueError"
    by (simp add: script_init_db_def init_db_def new_admin_def demo_accounts_def add_user_def m_bind_def meth_simps
        hash_password_def given_def add_user_cert_def with_user_def new_user_def)
  then show ?thesis using failed_init_blocks_path [OF run, of "''nobody''" ValueError] run by simp
qed

end
