(* ===== verification/Server_Process.thy ===== *)
theory Server_Process
  imports Server_Setup
begin

text \<open>
  zerodb/forker.py: a server in a process or thread of its own. \<open>start_server\<close> writes a configuration, starts
  \<open>runner\<close> and waits for the address on a queue; the runner makes the server, initialises its storage, answers,
  serves until it is told to stop or a time has passed, and cleans up. ZEO's server, its configuration
  objects and the file system are arguments; what the runner does is a list of events.
\<close>

section \<open>The runner\<close>

text \<open>
  The argument \<open>init\<close>: something false, True, a text (the file of a certificate), a dictionary that is not
  empty, or something else.
\<close>

datatype init_arg = No_Init | Init_True | Init_File bytes | Init_Dict "bytes option" "bytes option" | Init_Other

datatype ('addr, 's) runner_event =
  Initialized 's "string option" "bytes option" | Sent_Address 'addr | Server_Loops | Server_Closed
  | Cleaned 's | Sent_Alive bool | Channel_Closed | Logged py_exc

text \<open>
  What happens around the runner: \<open>re_open\<close> realizes the configuration and opens the storages, \<open>re_create\<close>
  makes the server, \<open>re_delay\<close> is the number of seconds until the address is on the queue; \<open>re_message\<close> says
  whether the other side ever tells the runner to stop, \<open>re_ack\<close> whether its last message comes in time.
\<close>

record ('addr, 's) runner_env =
  re_open :: "'s list res"
  re_default_cert :: bytes
  re_read :: "bytes \<Rightarrow> string res"
  re_init_db :: "'s \<Rightarrow> string option \<Rightarrow> bytes option \<Rightarrow> unit res"
  re_create :: "'addr res"
  re_delay :: nat
  re_message :: bool
  re_close :: "unit res"
  re_cleanup :: "'s \<Rightarrow> unit res"
  re_alive :: bool
  re_ack :: bool

type_synonym ('addr, 's) run = "(('addr, 's) runner_event list, unit) meth"

definition emit_event :: "('addr, 's) runner_event \<Rightarrow> ('addr, 's) run" where
  "emit_event e = m_modify (\<lambda>tr. tr @ [e])"

definition client_cert :: "('addr, 's) runner_env \<Rightarrow> init_arg \<Rightarrow> (bytes option \<times> bytes option) res" where
  "client_cert E how =
     (case how of
        Init_File f \<Rightarrow> Inr (Some f, None)
      | Init_Dict cert password \<Rightarrow> Inr (cert, password)
      | Init_True \<Rightarrow> Inr (Some (re_default_cert E), None)
      | _ \<Rightarrow> Inl AssertionError)"

definition read_cert :: "('addr, 's) runner_env \<Rightarrow> bytes option \<Rightarrow> string option res" where
  "read_cert E cert = (if given cert then bindr (re_read E (the cert)) (\<lambda>pem_data. Inr (Some pem_data)) else Inr None)"

definition init_storage :: "('addr, 's) runner_env \<Rightarrow> init_arg \<Rightarrow> 's list \<Rightarrow> ('addr, 's) run" where
  "init_storage E how storages =
     (if how = No_Init then m_return ()
      else
        m_bind (m_lift (\<lambda>_. bindr (client_cert E how) (\<lambda>(cert, password).
                  bindr (read_cert E cert) (\<lambda>pem_data.
                  bindr (case storages of [storage] \<Rightarrow> Inr storage | _ \<Rightarrow> Inl ValueError) (\<lambda>storage.
                  bindr (re_init_db E storage pem_data password) (\<lambda>_. Inr (storage, pem_data, password)))))))
          (\<lambda>(storage, pem_data, password). emit_event (Initialized storage pem_data password)))"

text \<open>A storage without a method \<open>cleanup\<close> is left as it is.\<close>

definition clean :: "('addr, 's) runner_env \<Rightarrow> 's \<Rightarrow> ('addr, 's) run" where
  "clean E storage =
     (case re_cleanup E storage of
        Inr _ \<Rightarrow> emit_event (Cleaned storage)
      | Inl e \<Rightarrow> if e = AttributeError then m_return () else m_raise e)"

text \<open>
  The server is closed when a message has come or the time has passed; without a message and a
  time (\<open>qin.get(timeout=None)\<close>) the runner stays where it is.
\<close>

definition shut_down :: "('addr, 's) runner_env \<Rightarrow> bool \<Rightarrow> 's list \<Rightarrow> ('addr, 's) run" where
  "shut_down E keep storages =
     m_bind (m_lift (\<lambda>_. re_close E)) (\<lambda>_.
     m_bind (emit_event Server_Closed) (\<lambda>_.
     m_bind (if keep then m_return () else m_each (clean E) storages) (\<lambda>_.
     m_bind (emit_event (Sent_Alive (re_alive E))) (\<lambda>_.
     if re_ack E then emit_event Channel_Closed else m_raise OtherError))))"

definition wait_and_stop :: "('addr, 's) runner_env \<Rightarrow> nat option \<Rightarrow> bool \<Rightarrow> 's list \<Rightarrow> ('addr, 's) run" where
  "wait_and_stop E timeout keep storages =
     (if re_message E \<or> timeout \<noteq> None then shut_down E keep storages else m_return ())"

definition runner_body :: "('addr, 's) runner_env \<Rightarrow> nat option \<Rightarrow> init_arg \<Rightarrow> bool \<Rightarrow> ('addr, 's) run" where
  "runner_body E timeout how keep =
     m_bind (m_lift (\<lambda>_. re_open E)) (\<lambda>storages.
     m_bind (init_storage E how storages) (\<lambda>_.
     m_bind (m_lift (\<lambda>_. re_create E)) (\<lambda>addr.
     m_bind (emit_event (Sent_Address addr)) (\<lambda>_.
     m_bind (emit_event Server_Loops) (\<lambda>_.
     wait_and_stop E timeout keep storages)))))"

text \<open>Any exception is logged, and nobody else hears of it.\<close>

definition runner :: "('addr, 's) runner_env \<Rightarrow> nat option \<Rightarrow> init_arg \<Rightarrow> bool \<Rightarrow> ('addr, 's) runner_event list" where
  "runner E timeout how keep =
     (case runner_body E timeout how keep [] of (Inl e, tr) \<Rightarrow> tr @ [Logged e] | (Inr _, tr) \<Rightarrow> tr)"

section \<open>Starting it\<close>

text \<open>
  The configuration: \<open>zeo_conf\<close> is None or a dictionary, for which \<open>zeo_text\<close> makes ZEO's part, or a text that is
  taken as it is; the SSL section goes in front of the end of that part.
\<close>

datatype 'd zeo_conf = Conf_Default | Conf_Dict 'd | Conf_Text string

datatype port = Port_Number int | Port_Address bytes

datatype address = Host_Port bytes int | Addr bytes

fun replace_all :: "nat \<Rightarrow> string \<Rightarrow> string \<Rightarrow> string \<Rightarrow> string" where
  "replace_all 0 pat new s = s"
| "replace_all (Suc n) pat new s =
     (if s = [] then []
      else if startswith s pat then new @ replace_all n pat new (drop (length pat) s)
      else hd s # replace_all n pat new (tl s))"

definition nl :: string where "nl = [CHR 0x0A]"

definition ssl_section :: "string \<Rightarrow> string \<Rightarrow> string" where
  "ssl_section cert key =
     nl @ ''        <ssl>'' @ nl @ ''           certificate '' @ cert @ nl @ ''           key '' @ key @ nl @
     ''           authenticate DYNAMIC'' @ nl @ ''        </ssl>'' @ nl @ ''        </zeo>'' @ nl @ ''        ''"

definition storage_section :: "string option \<Rightarrow> string \<Rightarrow> string option \<Rightarrow> string" where
  "storage_section storage_conf path blob_dir =
     (let conf = (if given storage_conf then the storage_conf
          else nl @ ''        <filestorage>'' @ nl @ ''          path '' @ path @ nl @ ''          pack-gc false'' @ nl @
               ''        </filestorage>'')
      in if given blob_dir
         then ''<blobstorage>'' @ nl @ ''blob-dir '' @ the blob_dir @ nl @ conf @ nl @ ''</blobstorage>'' else conf)"

definition address_of :: "port \<Rightarrow> address" where
  "address_of p = (case p of Port_Number n \<Rightarrow> Host_Port ''localhost'' n | Port_Address a \<Rightarrow> Addr a)"

text \<open>\<open>str.replace\<close> needs at most one round for each character.\<close>

definition zeo_section ::
  "(address \<Rightarrow> 'd option \<Rightarrow> string) \<Rightarrow> string \<Rightarrow> string \<Rightarrow> 'd zeo_conf \<Rightarrow> port option \<Rightarrow> string res" where
  "zeo_section zeo_text cert key zeo_conf port =
     (let from_options = (\<lambda>opts. case port of
          None \<Rightarrow> Inl AssertionError
        | Some p \<Rightarrow> (let conf = zeo_text (address_of p) opts
                      in Inr (replace_all (length conf) ''</zeo>'' (ssl_section cert key) conf)))
      in case zeo_conf of Conf_Text s \<Rightarrow> Inr s | Conf_Default \<Rightarrow> from_options None | Conf_Dict d \<Rightarrow> from_options (Some d))"

text \<open>
  \<open>start_server\<close>: it writes the configuration, starts the runner, which ends itself after 999 seconds if it
  is to (\<open>suicide\<close>), and gives the first message of the runner and a function that stops it
  (\<open>stop_runner\<close> of ZEO) or, when there is no message in time, the exception of the queue.
\<close>

fun first_address :: "('addr, 's) runner_event list \<Rightarrow> 'addr option" where
  "first_address [] = None"
| "first_address (Sent_Address a # _) = Some a"
| "first_address (_ # es) = first_address es"

definition start_server ::
  "(address \<Rightarrow> 'd option \<Rightarrow> string) \<Rightarrow> string \<Rightarrow> string \<Rightarrow> (string \<Rightarrow> ('addr, 's) runner_env) \<Rightarrow> (string \<Rightarrow> nat \<Rightarrow> 'stop)
     \<Rightarrow> string option \<Rightarrow> 'd zeo_conf \<Rightarrow> port option \<Rightarrow> bool \<Rightarrow> string \<Rightarrow> string option \<Rightarrow> bool \<Rightarrow> init_arg \<Rightarrow> nat
     \<Rightarrow> ('addr \<times> (nat \<Rightarrow> 'stop)) res \<times> ('addr, 's) runner_event list" where
  "start_server zeo_text cert key env stop_runner storage_conf zeo_conf port keep path blob_dir suicide how start_timeout =
     (case zeo_section zeo_text cert key zeo_conf port of
        Inl e \<Rightarrow> (Inl e, [])
      | Inr conf \<Rightarrow>
          (let written = conf @ nl @ nl @ storage_section storage_conf path blob_dir;
               E = env written;
               events = runner E (if suicide then Some 999 else None) how keep
           in (case first_address events of
                 None \<Rightarrow> Inl OtherError
               | Some addr \<Rightarrow> if re_delay E \<le> start_timeout then Inr (addr, stop_runner written) else Inl OtherError,
               events)))"

section \<open>What comes of a start\<close>

text \<open>
  What a start is to do, without the order of the code: the certificate that \<open>init\<close> means, the
  first user, and all that has to succeed before the address is sent.
\<close>

definition cert_of :: "('addr, 's) runner_env \<Rightarrow> bytes option \<Rightarrow> string option \<Rightarrow> bool" where
  "cert_of E name pem \<longleftrightarrow>
     (name = None \<or> name = Some []) \<and> pem = None \<or> (\<exists>f t. name = Some f \<and> f \<noteq> [] \<and> re_read E f = Inr t \<and> pem = Some t)"

definition first_user :: "('addr, 's) runner_env \<Rightarrow> init_arg \<Rightarrow> string option \<Rightarrow> bytes option \<Rightarrow> bool" where
  "first_user E how pem password \<longleftrightarrow>
     (\<exists>f. how = Init_File f \<and> cert_of E (Some f) pem \<and> password = None) \<or>
     (\<exists>c. how = Init_Dict c password \<and> cert_of E c pem) \<or>
     how = Init_True \<and> cert_of E (Some (re_default_cert E)) pem \<and> password = None"

definition starts ::
  "('addr, 's) runner_env \<Rightarrow> init_arg \<Rightarrow> 's list \<Rightarrow> ('addr, 's) runner_event list \<Rightarrow> 'addr \<Rightarrow> bool" where
  "starts E how storages inits addr \<longleftrightarrow> re_open E = Inr storages \<and> re_create E = Inr addr \<and>
     (how = No_Init \<and> inits = [] \<or>
      (\<exists>s pem password. storages = [s] \<and> first_user E how pem password \<and> re_init_db E s pem password = Inr () \<and>
         inits = [Initialized s pem password]))"

lemma given_Some: "given x \<longleftrightarrow> (\<exists>y. x = Some y \<and> y \<noteq> [])"
  by (cases x) (auto simp: given_def)

lemma read_cert_Inr: "read_cert E name = Inr pem \<longleftrightarrow> cert_of E name pem"
  by (cases name) (auto simp: read_cert_def cert_of_def given_Some bindr_eq_Inr)

lemma client_cert_Inr:
  "(\<exists>c. client_cert E how = Inr (c, password) \<and> cert_of E c pem) \<longleftrightarrow> first_user E how pem password"
  by (cases how) (auto simp: client_cert_def first_user_def)

definition the_first :: "('addr, 's) runner_env \<Rightarrow> init_arg \<Rightarrow> 's list \<Rightarrow> ('s \<times> string option \<times> bytes option) res" where
  "the_first E how storages =
     bindr (client_cert E how) (\<lambda>(cert, password).
     bindr (read_cert E cert) (\<lambda>pem_data.
     bindr (case storages of [storage] \<Rightarrow> Inr storage | _ \<Rightarrow> Inl ValueError) (\<lambda>storage.
     bindr (re_init_db E storage pem_data password) (\<lambda>_. Inr (storage, pem_data, password)))))"

lemma the_first_Inr:
  "the_first E how storages = Inr (s, pem, password) \<longleftrightarrow>
     storages = [s] \<and> first_user E how pem password \<and> re_init_db E s pem password = Inr ()"
  unfolding client_cert_Inr [symmetric] read_cert_Inr [symmetric]
  by (auto simp: the_first_def bindr_eq_Inr split: list.splits)

lemma init_storage_run:
  "init_storage E how storages tr =
     (if how = No_Init then (Inr (), tr)
      else case the_first E how storages of
        Inl e \<Rightarrow> (Inl e, tr)
      | Inr (s, pem, password) \<Rightarrow> (Inr (), tr @ [Initialized s pem password]))"
  unfolding init_storage_def the_first_def [symmetric]
  by (auto simp: m_bind_def meth_simps emit_event_def split: sum.split prod.split)

lemma init_storage_starts:
  "fst (init_storage E how storages tr) = Inr () \<longleftrightarrow>
     (\<exists>inits. (how = No_Init \<and> inits = [] \<or>
        (\<exists>s pem password. storages = [s] \<and> first_user E how pem password \<and> re_init_db E s pem password = Inr () \<and>
         inits = [Initialized s pem password])) \<and> snd (init_storage E how storages tr) = tr @ inits)"
proof (cases "how = No_Init")
  case False
  then show ?thesis
    using the_first_Inr [of E how storages]
    by (cases "the_first E how storages") (auto simp: init_storage_run split: prod.splits)
qed (auto simp: init_storage_run first_user_def)

lemma clean_all:
  assumes "\<And>s. s \<in> set storages \<Longrightarrow> re_cleanup E s = Inr () \<or> re_cleanup E s = Inl AttributeError"
  shows "m_each (clean E) storages tr =
    (Inr (), tr @ map Cleaned (filter (\<lambda>s. re_cleanup E s = Inr ()) storages))"
  using assms
proof (induction storages arbitrary: tr)
  case (Cons s storages)
  have "clean E s tr = (Inr (), tr @ (if re_cleanup E s = Inr () then [Cleaned s] else []))"
    using Cons.prems [of s] by (auto simp: clean_def emit_event_def meth_simps)
  then show ?case using Cons.IH Cons.prems by (simp add: m_bind_def)
qed (simp add: meth_simps)

text \<open>The runner never takes back what it has done.\<close>

definition appends :: "('addr, 's) run \<Rightarrow> bool" where
  "appends m \<longleftrightarrow> (\<forall>tr. \<exists>more. snd (m tr) = tr @ more)"

lemma appends_bind:
  assumes "\<And>tr. \<exists>more. snd (m tr) = tr @ more" "\<And>x. appends (f x)"
  shows "appends (m_bind m f)"
  unfolding appends_def
proof
  fix tr
  obtain r t where m: "m tr = (r, t)" by fastforce
  then obtain more where t: "t = tr @ more" using assms(1) [of tr] by auto
  show "\<exists>more. snd (m_bind m f tr) = tr @ more"
  proof (cases r)
    case (Inr x)
    obtain more' where "snd (f x t) = t @ more'" using assms(2) [of x] by (auto simp: appends_def)
    then show ?thesis using m Inr t by (simp add: m_bind_def)
  qed (simp add: m_bind_def m t)
qed

lemma appends_simple: "appends (emit_event e)" "appends (m_raise x)" "appends (m_return ())"
  by (simp_all add: appends_def emit_event_def meth_simps)

lemma appends_each: "(\<And>x. appends (f x)) \<Longrightarrow> appends (m_each f xs)"
proof (induction xs)
  case (Cons x xs)
  then show ?case using appends_bind [of "f x" "\<lambda>_. m_each f xs"] by (simp add: appends_def)
qed (simp add: appends_simple)

lemma shut_down_appends: "appends (shut_down E keep storages)"
proof -
  have "appends (clean E s)" for s by (simp add: clean_def appends_simple split: sum.split)
  then have each: "appends (if keep then m_return () else m_each (clean E) storages)"
    by (simp add: appends_simple appends_each)
  show ?thesis
    unfolding shut_down_def
    by (intro appends_bind) (use each in \<open>simp_all add: appends_simple meth_simps emit_event_def appends_def\<close>)
qed

lemma first_address_append: "first_address (xs @ ys) = (case first_address xs of None \<Rightarrow> first_address ys | Some a \<Rightarrow> Some a)"
  by (induction xs rule: first_address.induct) simp_all

lemma starts_no_address: "starts E how storages inits addr \<Longrightarrow> first_address inits = None"
  by (auto simp: starts_def)

text \<open>Until the address is sent.\<close>

lemma runner_body_starts:
  assumes "starts E how storages inits addr"
  shows "runner_body E timeout how keep [] = wait_and_stop E timeout keep storages (inits @ [Sent_Address addr, Server_Loops])"
proof -
  have ok: "re_open E = Inr storages" "re_create E = Inr addr" using assms by (simp_all add: starts_def)
  have "init_storage E how storages [] = (Inr (), inits)"
  proof (cases "how = No_Init")
    case True
    then show ?thesis using assms by (auto simp: init_storage_run starts_def first_user_def)
  next
    case False
    then obtain s pem password where "storages = [s]" "first_user E how pem password" "re_init_db E s pem password = Inr ()"
      "inits = [Initialized s pem password]"
      using assms unfolding starts_def by blast
    then show ?thesis using the_first_Inr [of E how storages s pem password] False by (simp add: init_storage_run)
  qed
  then show ?thesis by (simp add: runner_body_def m_bind_def meth_simps ok emit_event_def)
qed

lemma runner_body_fails:
  assumes "\<nexists>storages inits addr. starts E how storages inits addr"
  shows "\<exists>e pre. runner_body E timeout how keep [] = (Inl e, pre) \<and> first_address pre = None"
proof (cases "re_open E")
  case (Inr storages)
  show ?thesis
  proof (cases "fst (init_storage E how storages [])")
    case (Inl e)
    then have "\<exists>pre. init_storage E how storages [] = (Inl e, pre) \<and> pre = []"
      by (auto simp: init_storage_run split: if_splits sum.splits prod.splits)
    then show ?thesis using Inr by (simp add: runner_body_def m_bind_def meth_simps)
  next
    case (Inr u)
    then have "fst (init_storage E how storages []) = Inr ()" by simp
    then obtain inits where i: "snd (init_storage E how storages []) = inits"
      "how = No_Init \<and> inits = [] \<or> (\<exists>s pem password. storages = [s] \<and> first_user E how pem password \<and>
         re_init_db E s pem password = Inr () \<and> inits = [Initialized s pem password])"
      unfolding init_storage_starts by auto
    then have "\<not> (\<exists>addr. re_create E = Inr addr)" using assms \<open>re_open E = Inr storages\<close> unfolding starts_def by blast
    then obtain e where "re_create E = Inl e" by (cases "re_create E") auto
    moreover have "init_storage E how storages [] = (Inr (), inits)" using Inr i(1) by (cases "init_storage E how storages []") simp
    moreover have "first_address inits = None" using i(2) by auto
    ultimately show ?thesis using \<open>re_open E = Inr storages\<close> by (simp add: runner_body_def m_bind_def meth_simps)
  qed
qed (simp add: runner_body_def m_bind_def meth_simps)

lemma runner_started:
  assumes "starts E how storages inits addr"
  shows "\<exists>rest. runner E timeout how keep = inits @ [Sent_Address addr, Server_Loops] @ rest \<and>
    (\<not> re_message E \<and> timeout = None \<longrightarrow> rest = []) \<and>
    ((re_message E \<or> timeout \<noteq> None) \<and> re_close E = Inr () \<and>
       (\<forall>s \<in> set storages. re_cleanup E s = Inr () \<or> re_cleanup E s = Inl AttributeError) \<longrightarrow>
       rest = Server_Closed # map Cleaned (if keep then [] else filter (\<lambda>s. re_cleanup E s = Inr ()) storages) @
         [Sent_Alive (re_alive E), if re_ack E then Channel_Closed else Logged OtherError])"
proof (cases "re_message E \<or> timeout \<noteq> None")
  case False
  then show ?thesis by (simp add: runner_def runner_body_starts [OF assms] wait_and_stop_def meth_simps)
next
  case True
  let ?tr = "inits @ [Sent_Address addr, Server_Loops]"
  obtain r tr where sd: "shut_down E keep storages ?tr = (r, tr)" by fastforce
  then obtain more where "tr = ?tr @ more" using shut_down_appends [of E keep storages] unfolding appends_def by (metis snd_conv)
  then have all: "runner E timeout how keep = ?tr @ (more @ (case r of Inl e \<Rightarrow> [Logged e] | Inr _ \<Rightarrow> []))"
    using True by (simp add: runner_def runner_body_starts [OF assms] wait_and_stop_def sd split: sum.split)
  have "more @ (case r of Inl e \<Rightarrow> [Logged e] | Inr _ \<Rightarrow> []) =
      Server_Closed # map Cleaned (if keep then [] else filter (\<lambda>s. re_cleanup E s = Inr ()) storages) @
        [Sent_Alive (re_alive E), if re_ack E then Channel_Closed else Logged OtherError]"
    if "re_close E = Inr ()" "\<forall>s \<in> set storages. re_cleanup E s = Inr () \<or> re_cleanup E s = Inl AttributeError"
  proof -
    have "shut_down E keep storages ?tr = (if re_ack E then Inr () else Inl OtherError,
        ?tr @ Server_Closed # map Cleaned (if keep then [] else filter (\<lambda>s. re_cleanup E s = Inr ()) storages) @
          Sent_Alive (re_alive E) # (if re_ack E then [Channel_Closed] else []))"
      using that(2) by (simp add: shut_down_def m_bind_def meth_simps emit_event_def clean_all that(1))
    then show ?thesis using sd \<open>tr = ?tr @ more\<close> by (cases "re_ack E") auto
  qed
  then show ?thesis using all True by auto
qed

text \<open>
  C34: \<open>start_server\<close> returns an address, that of the server, with the function that stops it,
  exactly when the storages open, the first user is set up with the certificate and the password
  that \<open>init\<close> names (or there is none to be), the server is made, and the address arrives within
  \<open>start_timeout\<close>. When all but the last hold the server loops; it goes on forever if nobody stops it and it has no time of its own, and
  otherwise, unless closing or cleaning up raises, it is closed, its
  storages are cleaned up unless they are to be kept, and the runner reports. When one of the steps
  fails nothing is answered, and the caller learns no more than that the time has passed: the exception is only logged.
\<close>

theorem server_start_outcome:
  assumes conf: "zeo_section zeo_text cert key zeo_conf port = Inr conf"
    and written: "written = conf @ nl @ nl @ storage_section storage_conf path blob_dir" and E: "E = env written"
    and run: "start_server zeo_text cert key env stop_runner storage_conf zeo_conf port keep path blob_dir suicide how start_timeout =
      (r, events)"
  shows "(r = Inr (addr, stop) \<longleftrightarrow>
      (\<exists>storages inits. starts E how storages inits addr) \<and> re_delay E \<le> start_timeout \<and> stop = stop_runner written) \<and>
    (\<forall>storages inits a. starts E how storages inits a \<longrightarrow>
      (\<exists>rest. events = inits @ [Sent_Address a, Server_Loops] @ rest \<and>
        (\<not> re_message E \<and> \<not> suicide \<longrightarrow> rest = []) \<and>
        ((re_message E \<or> suicide) \<and> re_close E = Inr () \<and>
         (\<forall>s \<in> set storages. re_cleanup E s = Inr () \<or> re_cleanup E s = Inl AttributeError) \<longrightarrow>
         rest = Server_Closed # map Cleaned (if keep then [] else filter (\<lambda>s. re_cleanup E s = Inr ()) storages) @
           [Sent_Alive (re_alive E), if re_ack E then Channel_Closed else Logged OtherError]))) \<and>
    ((\<nexists>storages inits a. starts E how storages inits a) \<longrightarrow> r = Inl OtherError \<and> (\<exists>e. Logged e \<in> set events))"
proof -
  let ?timeout = "if suicide then Some 999 else None :: nat option"
  have events: "events = runner E ?timeout how keep"
    "r = (case first_address events of None \<Rightarrow> Inl OtherError
        | Some a \<Rightarrow> if re_delay E \<le> start_timeout then Inr (a, stop_runner written) else Inl OtherError)"
    using run unfolding start_server_def conf Let_def sum.case written [symmetric] E [symmetric] by auto
  have address: "first_address events = Some a" if s: "starts E how storages inits a" for storages inits a
    using runner_started [OF s, of ?timeout keep] events(1) starts_no_address [OF s] by (auto simp: first_address_append)
  have fails: "first_address events = None \<and> (\<exists>e. Logged e \<in> set events)"
    if none: "\<nexists>storages inits a. starts E how storages inits a"
    using runner_body_fails [OF none, of ?timeout keep] by (auto simp: events(1) runner_def first_address_append)
  have "r = Inr (addr, stop) \<longleftrightarrow>
      (\<exists>storages inits. starts E how storages inits addr) \<and> re_delay E \<le> start_timeout \<and> stop = stop_runner written"
  proof (cases "\<exists>storages inits a. starts E how storages inits a")
    case True
    then obtain storages inits a where s: "starts E how storages inits a" by blast
    then have "(\<exists>storages inits. starts E how storages inits addr) \<longleftrightarrow> a = addr" by (auto simp: starts_def)
    then show ?thesis using address [OF s] by (auto simp: events(2))
  next
    case False
    then show ?thesis using fails by (auto simp: events(2))
  qed
  moreover have "r = Inl OtherError \<and> (\<exists>e. Logged e \<in> set events)" if "\<nexists>storages inits a. starts E how storages inits a"
    using fails [OF that] by (simp add: events(2))
  ultimately show ?thesis using runner_started [of E how _ _ _ ?timeout keep] events(1) by auto
qed

definition demo_runner_env :: "(nat, nat) runner_env" where
  "demo_runner_env = \<lparr>re_open = Inr [1], re_default_cert = ''client.pem'', re_read = (\<lambda>_. Inr ''cert''),
     re_init_db = (\<lambda>_ _ _. Inr ()), re_create = Inr 8001, re_delay = 2, re_message = True, re_close = Inr (),
     re_cleanup = (\<lambda>_. Inr ()), re_alive = False, re_ack = True\<rparr>"

lemma server_start_outcome_witness:
  "\<exists>stop. start_server (\<lambda>_ _. ''<zeo></zeo>'') ''c'' ''k'' (\<lambda>_. demo_runner_env) (\<lambda>_ t. t) None (Conf_Default :: unit zeo_conf)
     (Some (Port_Number 0)) False ''db.fs'' None True (Init_Dict (Some ''a.pem'') (Some ''secret'')) 33 =
   (Inr (8001, stop), [Initialized 1 (Some ''cert'') (Some ''secret''), Sent_Address 8001, Server_Loops, Server_Closed, Cleaned 1,
      Sent_Alive False, Channel_Closed])"
proof -
  let ?how = "Init_Dict (Some ''a.pem'') (Some ''secret'')"
  let ?start = "start_server (\<lambda>_ _. ''<zeo></zeo>'') ''c'' ''k'' (\<lambda>_. demo_runner_env) (\<lambda>_ t. t :: nat) None (Conf_Default :: unit zeo_conf)
     (Some (Port_Number 0)) False ''db.fs'' None True ?how 33"
  obtain conf where conf: "zeo_section (\<lambda>_ _. ''<zeo></zeo>'') ''c'' ''k'' (Conf_Default :: unit zeo_conf) (Some (Port_Number 0)) = Inr conf"
    by (simp add: zeo_section_def Let_def)
  obtain r events where run: "?start = (r, events)" by fastforce
  have s: "starts demo_runner_env ?how [1] [Initialized 1 (Some ''cert'') (Some ''secret'')] 8001"
    by (simp add: starts_def demo_runner_env_def first_user_def cert_of_def)
  note T = server_start_outcome [OF conf refl refl run, of 8001]
  have "r = Inr (8001, \<lambda>t. t)" using T s by (auto simp: demo_runner_env_def)
  moreover have "events = [Initialized 1 (Some ''cert'') (Some ''secret''), Sent_Address 8001, Server_Loops, Server_Closed,
      Cleaned 1, Sent_Alive False, Channel_Closed]"
    using T s by (auto simp: demo_runner_env_def)
  ultimately show ?thesis using run by simp
qed

end
