(* ===== verification/Spec2Isabelle.thy ===== *)
theory Spec2Isabelle
  imports Server Query_Results Text_Index Okapi_Index Query Auto_Reindex Tree_Fetch Database Client_Setup Server_Process
begin

text \<open>
  ZeroDB is an object database in which the server stores only what clients have encrypted:
  a client encrypts, indexes and queries, the server authenticates users and keeps records. The
  code is Python (src/zerodb) on top of ZODB, ZEO, BTrees, zope.index, zope.component and
  zerodbext.catalog; those packages are not in the repository and appear as arguments of the
  definitions, with what the code relies on in them as named hypotheses or locales. Where
  Python 2 and 3 differ the models follow Python 3.

  The parts and how they interact.

  The way of a record. \<open>DB\<close> (db.py) makes an encryption key and credentials (Kdf, crypto/kdf.py) and
  registers ciphers and compressors (Transform, transform/). Records are compressed and
  encrypted by the client's storage (Transforming_Storage, storage/transforming.py) and get their
  owner's id at the end in the server's (Owner_Storage, permissions/ownerstorage.py). Both are
  storage layers (locale \<open>storage_layer\<close> of Storage_Layers); their composition is \<open>storage_stack\<close>.
  Shared_Registry is the registry of ciphers and compressors that all databases of a process share.

  Starting. Client_Setup is \<open>DB.__init__\<close> with the address, the global settings and the TLS context
  (Tls, tls.py) that it makes; Server_Setup is the server's side of it: the preparation of a
  database (\<open>init_db_script\<close>), the acceptor with the certificates it trusts at each new connection,
  and the registered methods; Server_Process runs a server in a process of its own (forker.py).

  Users. Accounts (permissions/base.py) is the user database with its certificates (Certificates,
  the text of all certificates); Server (permissions/subdb.py) logs connections in against
  it and announces transactions to the connections of the same user.

  Objects and indexes. Models (models/) describes classes of objects, Id_Store (intid.py) numbers
  them, Field_Index (catalog/indexes/field.py, common.py) indexes values; Lucene_Index,
  Weighted_Union and Lucene_Search (text_lucene.py), Text_Lexicon (text_lexicon.py), Text_Index
  (text.py, catalog/__init__.py) and Okapi_Index (text_okapi.py) index texts. Index updates are
  queued and reduced at the commit (Index_Queue, collective/indexing). Db is one model in the
  database (\<open>DbModel\<close> of db.py), Auto_Reindex is that together with the queue, Database is
  \<open>DB\<close> with several models, Connections its connections in threads and processes, and
  Thread_Watcher what closes them (util/thread_watcher.py).

  Queries. Query (catalog/query.py, query_json.py) negates, applies and compiles queries, Sliceable
  and List_Prefetch (util/iter.py) are the lazy results, Query_Results the objects they give for a
  query of Db, Tree_Fetch (storage/__init__.py) reads
  trees ahead in few exchanges with the server.

  How state and operations correspond to the code. An object is a record with its attributes as
  fields, a method a function of the same name (with a prefix where names clash) that returns
  a result and the new state; \<open>Inl e\<close> is the exception \<open>e\<close>, and the state is then the one at the
  raise. BTrees and dictionaries are maps, or association lists where order or size matters, sets of
  a tree are sorted lists where they are iterated. A loop that yields is the list of what it
  yields with the exception it ends with. Random numbers, oids, uuids, the identity of new objects and
  the choice of a connection are arguments. Byte strings and texts are lists.

  What the lemmas show, in the order of the parts: records come back as they went in and no user
  reads or overwrites another's (\<open>client_server_roundtrip\<close>, \<open>owner_isolation\<close>); encryption and
  compression invert (locale \<open>codec\<close>); a database that opens has the settings it was given
  (\<open>client_settings\<close>), but the cipher of the process is that of the last one
  (\<open>second_database_takes_over\<close>), and one that fails to open leaves the process without encryption
  (\<open>failed_open_disables_encryption\<close>); each connection is accepted with the certificates of that
  moment (\<open>new_contexts_current\<close>); a server process answers its address or nothing
  (\<open>server_start_outcome\<close>); the user database stays consistent under every operation,
  raising or not, log-ins are sound, passwords work from end to end, and deleted users are locked
  out; the id store gives fresh ids in range and its counter is right; the field index and the
  text index refine maps from documents to values (locale \<open>document_index\<close>); the lazy union of
  words yields the ranking by total score, up to a last document that it can lose; the words of an
  indexed text find it; the reduced queue has the effect of the queue; in each reachable state
  of a model every index has the stored objects with their present values (locale
  \<open>object_catalog\<close>, interpreted by field indexes), also with automatic reindexing at commits and
  for several models (locale \<open>database_schema\<close>); each thread has its own connection until
  somebody calls \<open>disconnect\<close> (locale \<open>thread_registry\<close>); queries answer with the sets their
  operators describe, and JSON queries compile to what they say; lazy results give the elements of
  the list, also when they are read ahead, and a limited query a page of them; the search in raw tree states finds the branch, and reading
  ahead fetches the paths. Several theorems show where the code does not do what it should; the
  text before each says so.

  Fuel and bounds. \<open>store_add\<close> needs one round (\<open>add_loop_once\<close>): an id that is free in the
  generator is free in the tree. \<open>cached_run\<close> of a slice needs one round more than the cache has
  entries. \<open>iterate_from\<close> and \<open>prefetch_iterate\<close> need one more than the result has elements, and the
  theorems state that they then return. \<open>prefetch_trees\<close> has the depth 10 of the code as an
  argument. The union loop ends by a measure (\<open>work\<close>), the other functions by structural
  recursion or a measure; \<open>replace_all\<close> takes one round per character. Ids are integers up to \<open>maxint\<close>. Scores are elements of an ordered field, so
  that rounding of floats is not modelled.

  Not modelled: the test fixtures (testing.py) and what only passes settings to ZEO and ssl: the
  options of the command lines (\<open>ZeroDBOptions\<close>, \<open>ZEOServer.create_server\<close>), \<open>client_storage\<close>, sockets and
  handshakes; \<open>SubDB\<close>, which remembers the root's id; the transaction around the creation of a model,
  packing, logging and printing; the classes in trees, which only change bucket sizes; interface
  declarations, the processor without effect (indexer.py), and the build and documentation scripts.
\<close>

section \<open>Accounts and connections\<close>

text \<open>
  C5: Once a user is deleted, nobody gets in as that user any more, with whatever certificate,
  name and password; and the certificates that the server trusts from then on are the
  placeholder and those of the other users.
\<close>

theorem deleted_user_locked_out:
  assumes "admin_inv E W nobody a" "pem_set W" "nobody \<in> W" "a_users_by_name a name = Some uid" "super_ok super"
  shows "\<exists>a'. del_user name a = (Inr (), a') \<and>
    (\<forall>der credentials zs. \<not> (\<exists>zs'. register super E a' der credentials zs = (Inr (), zs') \<and> get_root_id zs' = Some uid)) \<and>
    (\<exists>ps. distinct ps \<and>
       (\<forall>created load. acceptor_ssl_context created load a' = load created (certs_text (nobody # ps))) \<and>
       set ps = {pem. \<exists>v der. v \<noteq> uid \<and> (v, der, pem) \<in> live_certs a})"
proof -
  let ?b = "a\<lparr>a_users_by_name := (a_users_by_name a)(name := None), a_users := (a_users a)(uid := None)\<rparr>"
  have "users_ok a" using assms(1) by (simp add: admin_inv_def)
  then have uid: "a_users a uid = Some uid" using users_ok_name [OF _ assms(4)] by blast
  define a' where "a' = snd (del_user name a)"
  have run: "del_user name a = (Inr (), a')"
    using del_user_inv(2) [OF assms(1-4)] unfolding a'_def by (cases "del_user name a") simp
  have inv: "admin_inv E W nobody a'" using del_user_inv(1) [OF assms(1-3)] by (simp add: a'_def)
  have a': "a_users a' = (a_users a)(uid := None)" "a_objects a' = a_objects a"
    using assms(4) uid by (simp_all add: a'_def del_user_def Let_def del_user_certs_unchanged)
  have "\<not> (\<exists>zs'. register super E a' der credentials zs = (Inr (), zs') \<and> get_root_id zs' = Some uid)" for der credentials zs
  proof
    assume "\<exists>zs'. register super E a' der credentials zs = (Inr (), zs') \<and> get_root_id zs' = Some uid"
    then obtain zs' where z: "register super E a' der credentials zs = (Inr (), zs')" "get_root_id zs' = Some uid" by blast
    from register_Inr [OF inv z(1) assms(5)] obtain v where "authenticated E a' der credentials v" "zs_user_id zs' = Some v"
      by (elim exE conjE)
    then have "a_users a' v = Some v" "v = uid"
      using z(2) unfolding authenticated_def get_root_id_def by (blast, simp)
    then show False unfolding a'(1) by simp
  qed
  moreover have live: "live_certs a' = {x \<in> live_certs a. fst x \<noteq> uid}"
    by (auto simp: live_certs_def a' split: if_splits)
  have "(snd \<circ> snd) ` live_certs a' = {pem. \<exists>v der. v \<noteq> uid \<and> (v, der, pem) \<in> live_certs a}"
  proof (intro set_eqI iffI)
    fix pem assume "pem \<in> (snd \<circ> snd) ` live_certs a'"
    then show "pem \<in> {pem. \<exists>v der. v \<noteq> uid \<and> (v, der, pem) \<in> live_certs a}" unfolding live by (auto, blast)
  next
    fix pem assume "pem \<in> {pem. \<exists>v der. v \<noteq> uid \<and> (v, der, pem) \<in> live_certs a}"
    then obtain v der where v: "v \<noteq> uid" "(v, der, pem) \<in> live_certs a" by blast
    show "pem \<in> (snd \<circ> snd) ` live_certs a'"
      by (rule rev_image_eqI [where x = "(v, der, pem)"]) (simp_all add: live v)
  qed
  moreover obtain ps where "distinct ps" "a_certs a' = certs_text (nobody # ps)" "set ps = (snd \<circ> snd) ` live_certs a'"
    using inv unfolding admin_inv_def index_ok_def by (elim conjE exE)
  ultimately show ?thesis using run by (intro exI [where x = a'] exI [where x = ps] conjI allI) (simp_all add: acceptor_ssl_context_def)
qed

lemma deleted_user_locked_out_witness:
  "\<exists>a'. del_user ''root'' demo_admin = (Inr (), a') \<and>
     \<not> (\<exists>zs'. register demo_super demo_accounts a' ''der-cert-A'' None fresh_connection = (Inr (), zs') \<and>
          get_root_id zs' = Some (p64 demo_zodb 2))"
proof -
  note T = deleted_user_locked_out [OF demo_admin_inv demo_pems_ok(1,2) demo_admin_root(1) demo_super_ok]
  obtain a' where a': "del_user ''root'' demo_admin = (Inr (), a')"
    "\<forall>der credentials zs. \<not> (\<exists>zs'. register demo_super demo_accounts a' der credentials zs = (Inr (), zs') \<and>
       get_root_id zs' = Some (p64 demo_zodb 2))"
    using T by (elim exE conjE)
  show ?thesis by (rule exI [where x = a'], rule conjI, rule a'(1), rule a'(2) [rule_format])
qed

end
